(* ===== verification/Xinu_Base.thy ===== *)
theory Xinu_Base
  imports Main "HOL-Library.Word" "HOL-Library.Monad_Syntax"
begin

text \<open>
  Prelude of the development: the machine types of \<^verbatim>\<open>include/kernel.h\<close>, the constants
  shared by the kernel files, the byte-addressed memory of the 32-bit machine with its
  little-endian word access, the rounding macros of \<^verbatim>\<open>include/memory.h\<close>, linked lists
  threaded through memory, and the list and word lemmas the components share.

  Collections: \<open>mem_simps\<close> holds the read-over-write laws of memory; \<open>unat_simps\<close> the
  facts that move a sum or difference of addresses to \<open>nat\<close>.
\<close>

unbundle bit_operations_syntax

named_theorems mem_simps
named_theorems unat_simps

section \<open>Machine types and universal constants\<close>

type_synonym u8 = "8 word"
type_synonym u16 = "16 word"
type_synonym u32 = "32 word"
type_synonym addr = u32
type_synonym bytes = "addr \<Rightarrow> u8"

abbreviation (input) OK :: int where "OK \<equiv> 1"
abbreviation (input) SYSERR :: int where "SYSERR \<equiv> -1"
abbreviation (input) EOF :: int where "EOF \<equiv> -2"
abbreviation (input) TIMEOUT :: int where "TIMEOUT \<equiv> -3"
abbreviation (input) NULL :: addr where "NULL \<equiv> 0"

text \<open>The same error codes where the source returns them as an address or a \<open>umsg32\<close>.\<close>

abbreviation (input) SYSERR32 :: u32 where "SYSERR32 \<equiv> 0xFFFFFFFF"
abbreviation (input) TIMEOUT32 :: u32 where "TIMEOUT32 \<equiv> 0xFFFFFFFD"
abbreviation (input) OK32 :: u32 where "OK32 \<equiv> 1"

section \<open>Memory: bytes, and 32-bit words stored little-endian\<close>

definition rd32 :: "bytes \<Rightarrow> addr \<Rightarrow> u32" where
  "rd32 m a = ucast (m a) OR push_bit 8 (ucast (m (a + 1))) OR
     push_bit 16 (ucast (m (a + 2))) OR push_bit 24 (ucast (m (a + 3)))"

definition wr32 :: "bytes \<Rightarrow> addr \<Rightarrow> u32 \<Rightarrow> bytes" where
  "wr32 m a v = m(a := ucast v, a + 1 := ucast (drop_bit 8 v),
     a + 2 := ucast (drop_bit 16 v), a + 3 := ucast (drop_bit 24 v))"

definition aligned4 :: "addr \<Rightarrow> bool" where
  "aligned4 a \<longleftrightarrow> unat a mod 4 = 0"

lemma len32: "LENGTH(32) = 32"
  by simp

lemma word_of_bytes:
  fixes v :: u32
  shows "ucast (ucast v :: u8) OR push_bit 8 (ucast (ucast (drop_bit 8 v) :: u8)) OR
     push_bit 16 (ucast (ucast (drop_bit 16 v) :: u8)) OR
     push_bit 24 (ucast (ucast (drop_bit 24 v) :: u8)) = v"
proof (rule bit_word_eqI)
  fix n assume "n < LENGTH(32)"
  then have n: "n < 32" by simp
  consider "n < 8" | "8 \<le> n" "n < 16" | "16 \<le> n" "n < 24" | "24 \<le> n" by linarith
  then show "bit (ucast (ucast v :: u8) OR (push_bit 8 (ucast (ucast (drop_bit 8 v) :: u8)) OR
     push_bit 16 (ucast (ucast (drop_bit 16 v) :: u8)) OR
     push_bit 24 (ucast (ucast (drop_bit 24 v) :: u8)) :: u32)) n = bit v n"
    using n by cases (auto simp: bit_simps less_diff_conv2)
qed

lemma rd32_wr32_same [simp, mem_simps]: "rd32 (wr32 m a v) a = v"
  by (simp add: rd32_def wr32_def word_of_bytes)

lemma aligned4_byte_neq:
  assumes "aligned4 a" "aligned4 b" "a \<noteq> b" "unat x < 4" "unat y < 4"
  shows "a + x \<noteq> b + y"
proof
  assume e: "a + x = b + y"
  have m: "unat (c + z) mod 4 = unat z" if "aligned4 c" "unat z < 4" for c z :: u32
  proof -
    have "unat (c + z) mod 4 = (unat c + unat z) mod 2 ^ 32 mod 4"
      by (simp only: unat_word_ariths len32)
    also have "\<dots> = (unat c + unat z) mod 4"
      by (rule mod_mod_cancel) (simp add: dvd_eq_mod_eq_0)
    also have "\<dots> = unat z"
      using that unfolding aligned4_def by presburger
    finally show ?thesis .
  qed
  from m [OF assms(1,4)] m [OF assms(2,5)] e have "x = y" by (simp add: word_unat_eq_iff)
  with e assms(3) show False by simp
qed

lemma rd32_wr32_other [mem_simps]:
  assumes "aligned4 a" "aligned4 b" "a \<noteq> b"
  shows "rd32 (wr32 m a v) b = rd32 m b"
proof -
  note h = aligned4_byte_neq [OF assms]
  from h [of 0 0] h [of 0 1] h [of 0 2] h [of 0 3] h [of 1 0] h [of 1 1] h [of 1 2] h [of 1 3]
    h [of 2 0] h [of 2 1] h [of 2 2] h [of 2 3] h [of 3 0] h [of 3 1] h [of 3 2] h [of 3 3]
  show ?thesis by (auto simp: rd32_def wr32_def)
qed

text \<open>Which bytes a word access touches.\<close>

lemma unat_aligned_plus:
  assumes "aligned4 a" "unat k < 4"
  shows "unat (a + k) = unat a + unat k"
proof -
  have "unat a < 4294967296" using unsigned_less [of a, where ?'a = nat] by simp
  then have "unat a + 4 \<le> 4294967296" using assms(1) unfolding aligned4_def by presburger
  then show ?thesis using assms(2) by (simp add: unat_word_ariths)
qed

lemma wr32_byte:
  assumes "aligned4 a" "unat x \<notin> {unat a..<unat a + 4}"
  shows "wr32 m a v x = m x"
proof -
  have "x \<noteq> a + k" if "unat k < 4" for k
    using unat_aligned_plus [OF assms(1) that] assms(2) that by auto
  from this [of 0] this [of 1] this [of 2] this [of 3] show ?thesis
    by (simp add: wr32_def)
qed

lemma rd32_cong_bytes:
  assumes "aligned4 a" "\<And>x. unat x \<in> {unat a..<unat a + 4} \<Longrightarrow> m x = m' x"
  shows "rd32 m a = rd32 m' a"
proof -
  have "m (a + k) = m' (a + k)" if "unat k < 4" for k
    using unat_aligned_plus [OF assms(1) that] that by (intro assms(2)) auto
  from this [of 0] this [of 1] this [of 2] this [of 3] show ?thesis
    by (simp add: rd32_def)
qed

text \<open>\<open>agree S m m'\<close>: the two memories differ only in the bytes of \<open>S\<close>.\<close>

definition agree :: "nat set \<Rightarrow> bytes \<Rightarrow> bytes \<Rightarrow> bool" where
  "agree S m m' \<longleftrightarrow> (\<forall>x. unat x \<notin> S \<longrightarrow> m' x = m x)"

lemma agree_refl [simp]: "agree S m m"
  by (simp add: agree_def)

lemma agree_trans: "agree S m m' \<Longrightarrow> agree T m' m'' \<Longrightarrow> S \<subseteq> U \<Longrightarrow> T \<subseteq> U \<Longrightarrow> agree U m m''"
  unfolding agree_def by (metis subsetD)

lemma agree_wr32: "agree S m m' \<Longrightarrow> aligned4 a \<Longrightarrow> {unat a..<unat a + 4} \<subseteq> S \<Longrightarrow> agree S m (wr32 m' a v)"
  unfolding agree_def using wr32_byte by (metis subsetD)

lemma agree_rd32: "agree S m m' \<Longrightarrow> aligned4 a \<Longrightarrow> {unat a..<unat a + 4} \<inter> S = {} \<Longrightarrow> rd32 m' a = rd32 m a"
  by (rule rd32_cong_bytes) (auto simp: agree_def)

lemma rd32_zero [simp]: "rd32 (\<lambda>_. 0) a = 0"
  by (simp add: rd32_def)

section \<open>Rounding to memory blocks (include/memory.h)\<close>

definition roundmb :: "u32 \<Rightarrow> u32" where
  "roundmb x = (7 + x) AND NOT 7"

definition truncmb :: "u32 \<Rightarrow> u32" where
  "truncmb x = x AND NOT 7"

lemma unat_truncmb: "unat (truncmb x) = unat x - unat x mod 8"
proof -
  have "x AND NOT 7 = x AND NOT (mask 3)" by (simp add: mask_eq_exp_minus_1)
  also have "\<dots> = push_bit 3 (drop_bit 3 x)"
    by (rule bit_word_eqI) (auto simp: bit_simps)
  also have "\<dots> = x - take_bit 3 x"
    using bits_ident [of 3 x] by (simp add: eq_diff_eq)
  finally have e: "truncmb x = x - take_bit 3 x" by (simp add: truncmb_def)
  have u: "unat (take_bit 3 x) = unat x mod 8"
    by (simp add: take_bit_eq_mod unat_mod)
  have "take_bit 3 x \<le> x"
    by (simp add: word_le_nat_alt u)
  then show ?thesis by (simp add: e unat_sub u)
qed

lemma unat_roundmb: "unat x + 7 < 2 ^ 32 \<Longrightarrow> unat (roundmb x) = (unat x + 7) div 8 * 8"
proof -
  assume "unat x + 7 < 2 ^ 32"
  then have "unat (7 + x) = unat x + 7"
    by (simp add: unat_word_ariths)
  then have "unat (roundmb x) = (unat x + 7) - (unat x + 7) mod 8"
    using unat_truncmb [of "7 + x"] by (simp add: roundmb_def truncmb_def)
  then show ?thesis by (simp add: minus_mod_eq_div_mult)
qed

text \<open>The nearest multiple of 8 at or above \<open>n\<close>: what \<open>roundmb\<close> computes short of wrap-around.\<close>

definition round8 :: "nat \<Rightarrow> nat" where
  "round8 n = (n + 7) div 8 * 8"

lemma round8_ge: "n \<le> round8 n"
  unfolding round8_def by presburger

lemma round8_less: "round8 n < n + 8"
  unfolding round8_def by presburger

lemma round8_dvd [simp]: "8 dvd round8 n"
  by (simp add: round8_def)

lemma round8_pos: "0 < n \<Longrightarrow> 0 < round8 n"
  using round8_ge [of n] by linarith

lemma roundmb_round8: "unat x + 7 < 2 ^ 32 \<Longrightarrow> unat (roundmb x) = round8 (unat x)"
  by (simp add: unat_roundmb round8_def)

section \<open>Addresses and lengths as naturals\<close>

lemma unat_plus_small [unat_simps]:
  "unat a + unat b < 2 ^ 32 \<Longrightarrow> unat (a + b :: u32) = unat a + unat b"
  by (simp add: unat_word_ariths)

lemma unat_minus_le [unat_simps]: "unat b \<le> unat a \<Longrightarrow> unat (a - b :: u32) = unat a - unat b"
  by (simp add: unat_sub word_le_nat_alt)

lemma unat_lt_2p32: "unat (a :: u32) < 4294967296"
  using unsigned_less [of a, where ?'a = nat] by simp

lemma aligned4_dvd8: "8 dvd unat a \<Longrightarrow> aligned4 a"
  unfolding aligned4_def by presburger

lemma aligned4_plus: "aligned4 a \<Longrightarrow> aligned4 b \<Longrightarrow> aligned4 (a + b)"
proof -
  assume a: "aligned4 a" "aligned4 b"
  have "unat (a + b) mod 4 = (unat a + unat b) mod 2 ^ 32 mod 4"
    by (simp only: unat_word_ariths len32)
  also have "\<dots> = (unat a + unat b) mod 4"
    by (rule mod_mod_cancel) (simp add: dvd_eq_mod_eq_0)
  finally show ?thesis using a unfolding aligned4_def by presburger
qed

lemma aligned4_plus4 [simp]: "aligned4 a \<Longrightarrow> aligned4 (a + 4)"
  by (rule aligned4_plus) (simp_all add: aligned4_def)

lemma aligned4_plus8 [simp]: "aligned4 a \<Longrightarrow> aligned4 (a + 8)"
  by (rule aligned4_plus) (simp_all add: aligned4_def)

lemma rd32_wr32: "aligned4 a \<Longrightarrow> aligned4 b \<Longrightarrow> rd32 (wr32 m a v) b = (if a = b then v else rd32 m b)"
  by (simp add: rd32_wr32_other)

lemma unat_plus4: "8 dvd unat a \<Longrightarrow> unat (a + 4 :: u32) = unat a + 4"
proof -
  assume d: "8 dvd unat a"
  then have "unat a + 4 < 4294967296" using unat_lt_2p32 [of a] by presburger
  then show ?thesis by (simp add: unat_plus_small)
qed

section \<open>Linked lists threaded through memory\<close>

text \<open>
  \<open>lchain nx p xs\<close>: following \<open>nx\<close> from \<open>p\<close> visits exactly the nodes \<open>xs\<close> and ends at
  \<open>NULL\<close>. The kernel's free list, the in-use lists, the buffer pools and the port message
  lists are all of this shape, each with its own link offset.
\<close>

fun lchain :: "(addr \<Rightarrow> addr) \<Rightarrow> addr \<Rightarrow> addr list \<Rightarrow> bool" where
  "lchain nx p [] \<longleftrightarrow> p = NULL"
| "lchain nx p (x # xs) \<longleftrightarrow> p = x \<and> x \<noteq> NULL \<and> lchain nx (nx x) xs"

lemma lchain_cong: "(\<And>x. x \<in> set xs \<Longrightarrow> nx x = nx' x) \<Longrightarrow> lchain nx p xs = lchain nx' p xs"
  by (induction xs arbitrary: p) auto

lemma lchain_NULL [simp]: "lchain nx NULL xs \<longleftrightarrow> xs = []"
  by (cases xs) auto

lemma lchain_unique: "lchain nx p xs \<Longrightarrow> lchain nx p ys \<Longrightarrow> xs = ys"
proof (induction xs arbitrary: p ys)
  case Nil
  then show ?case by simp
next
  case (Cons x xs)
  then show ?case by (cases ys) auto
qed

lemma lchain_not_NULL: "lchain nx p xs \<Longrightarrow> NULL \<notin> set xs"
  by (induction xs arbitrary: p) auto

lemma lchain_append_head:
  "lchain nx p (xs @ y # ys) \<Longrightarrow> lchain nx y (y # ys)"
  by (induction xs arbitrary: p) auto

lemma lchain_distinct: "lchain nx p xs \<Longrightarrow> distinct xs"
proof (induction xs arbitrary: p)
  case Nil
  then show ?case by simp
next
  case (Cons x xs)
  have "x \<notin> set xs"
  proof
    assume "x \<in> set xs"
    then obtain us vs where s: "xs = us @ x # vs" by (auto dest: split_list)
    from Cons.prems s have "lchain nx x (x # us @ x # vs)" by simp
    moreover from this have "lchain nx x (x # vs)"
      using lchain_append_head [of nx x "x # us" x vs] by simp
    ultimately have "x # us @ x # vs = x # vs" by (rule lchain_unique)
    then have "length (x # us @ x # vs) = length (x # vs)" by (simp only:)
    then show False by simp
  qed
  moreover from Cons.prems have "lchain nx (nx x) xs" by simp
  ultimately show ?case using Cons.IH by simp
qed

text \<open>
  Changing the tail of a chain that starts at the link stored in \<open>c\<close>: only the link of the
  last node kept may differ.
\<close>

lemma lchain_relink:
  assumes "lchain nx (nx c) (xs @ ys)"
    and "\<And>x. x \<in> set (butlast (c # xs)) \<Longrightarrow> nx' x = nx x"
    and "lchain nx' (nx' (last (c # xs))) zs"
  shows "lchain nx' (nx' c) (xs @ zs)"
  using assms
proof (induction xs arbitrary: c)
  case Nil
  then show ?case by simp
next
  case (Cons x xs)
  have "lchain nx' (nx' x) (xs @ zs)"
    by (rule Cons.IH) (use Cons.prems in auto)
  moreover have "nx' c = x" "x \<noteq> NULL" using Cons.prems by auto
  ultimately show ?case by simp
qed

lemma lchain_tail: "lchain nx (nx c) (xs @ ys) \<Longrightarrow> lchain nx (nx (last (c # xs))) ys"
  by (induction xs arbitrary: c) auto

end
