(* ===== verification/Xinu_State.thy ===== *)
theory Xinu_State
  imports Xinu_Base
begin

text \<open>
  The kernel's global state: the process table (\<^verbatim>\<open>include/process.h\<close>), the queue table
  (\<^verbatim>\<open>include/queue.h\<close>), the semaphore table (\<^verbatim>\<open>include/semaphore.h\<close>), the deferral record
  (\<^verbatim>\<open>include/resched.h\<close>) and the scalar globals, in one record. The three tables are total
  functions on \<open>int\<close>: an index the C code would run off the array with (such as
  \<open>queuetab[-1]\<close> after a process was unlinked) is a cell of its own, distinct from the table.
  Components with tables of their own extend this record, so every kernel operation applies
  to the extended state as it is.
\<close>

section \<open>Configuration constants (include/conf.h, process.h, queue.h, clock.h)\<close>

abbreviation (input) NPROC :: int where "NPROC \<equiv> 100"
abbreviation (input) NSEM :: int where "NSEM \<equiv> 100"
abbreviation (input) NQENT :: int where "NQENT \<equiv> 304"  \<comment> \<open>NPROC + 4 + NSEM + NSEM\<close>
abbreviation (input) NDEVS :: int where "NDEVS \<equiv> 24"
abbreviation (input) NULLPROC :: int where "NULLPROC \<equiv> 0"
abbreviation (input) EMPTY :: int where "EMPTY \<equiv> -1"
abbreviation (input) MAXKEY :: int where "MAXKEY \<equiv> 0x7FFFFFFF"
abbreviation (input) MINKEY :: int where "MINKEY \<equiv> -0x80000000"
abbreviation (input) QUANTUM :: u32 where "QUANTUM \<equiv> 2"
abbreviation (input) CONSOLE :: int where "CONSOLE \<equiv> 0"
abbreviation (input) MINSTK :: u32 where "MINSTK \<equiv> 400"
abbreviation (input) NULLSTK :: u32 where "NULLSTK \<equiv> 8192"
abbreviation (input) STACKMAGIC :: u32 where "STACKMAGIC \<equiv> 0x0A0AAAA9"

section \<open>Tables\<close>

datatype prstate = PR_FREE | PR_CURR | PR_READY | PR_RECV | PR_SLEEP | PR_SUSP | PR_WAIT | PR_RECTIM

record procent =
  prstate :: prstate
  prprio :: int            \<comment> \<open>pri16\<close>
  prstkptr :: addr
  prstkbase :: addr
  prstklen :: u32
  prname :: "u8 list"      \<comment> \<open>char prname[PNMLEN]\<close>
  prsem :: int
  prparent :: int
  prmsg :: u32
  prhasmsg :: u8
  prdesc :: "int list"     \<comment> \<open>int16 prdesc[NDESC]\<close>
  prheaphd :: addr
  prcbvalid :: u8
  prcbptr :: addr
  prmbufptr :: addr
  prtmpbuf :: u32
  prtmpvalid :: u8

record qentry =
  qkey :: int
  qnext :: int
  qprev :: int

datatype sstate = S_FREE | S_USED

record sentry =
  sstate :: sstate
  scount :: int
  squeue :: int

record kstate =
  mem :: bytes
  memlist_at :: addr       \<comment> \<open>the address of the global \<open>memlist\<close>\<close>
  minheap :: addr
  maxheap :: addr
  memblockkflag :: u8
  queuetab :: "int \<Rightarrow> qentry"
  nextqid :: int           \<comment> \<open>static in \<open>newqueue\<close>\<close>
  readylist :: int
  sleepq :: int
  proctab :: "int \<Rightarrow> procent"
  prcount :: int
  currpid :: int
  nextpid :: int           \<comment> \<open>static in \<open>newpid\<close> of create.c\<close>
  rnextpid :: int          \<comment> \<open>static in \<open>newpid\<close> of rcreate.c\<close>
  semtab :: "int \<Rightarrow> sentry"
  nextsem :: int           \<comment> \<open>static in \<open>newsem\<close>\<close>
  ndefers :: int           \<comment> \<open>\<open>Defer.ndefers\<close>\<close>
  attempt :: bool          \<comment> \<open>\<open>Defer.attempt\<close>\<close>
  preempt :: u32
  count1000 :: u32         \<comment> \<open>static in \<open>clkhandler\<close>\<close>
  clktime :: u32
  text_seg :: addr         \<comment> \<open>linker symbol \<open>text\<close>\<close>
  etext_seg :: addr        \<comment> \<open>linker symbol \<open>etext\<close>\<close>

type_synonym 'a ks = "'a kstate_scheme"

section \<open>Writing one entry of a table\<close>

definition upd_q :: "int \<Rightarrow> (qentry \<Rightarrow> qentry) \<Rightarrow> 'a ks \<Rightarrow> 'a ks" where
  "upd_q i f s = s\<lparr>queuetab := (queuetab s)(i := f (queuetab s i))\<rparr>"

definition upd_proc :: "int \<Rightarrow> (procent \<Rightarrow> procent) \<Rightarrow> 'a ks \<Rightarrow> 'a ks" where
  "upd_proc i f s = s\<lparr>proctab := (proctab s)(i := f (proctab s i))\<rparr>"

definition upd_sem :: "int \<Rightarrow> (sentry \<Rightarrow> sentry) \<Rightarrow> 'a ks \<Rightarrow> 'a ks" where
  "upd_sem i f s = s\<lparr>semtab := (semtab s)(i := f (semtab s i))\<rparr>"

definition wrk :: "addr \<Rightarrow> u32 \<Rightarrow> 'a ks \<Rightarrow> 'a ks" where
  "wrk a v s = s\<lparr>mem := wr32 (mem s) a v\<rparr>"

lemmas upd_defs = upd_q_def upd_proc_def upd_sem_def wrk_def

section \<open>Validity macros\<close>

definition isbadpid :: "int \<Rightarrow> 'a ks \<Rightarrow> bool" where
  "isbadpid x s \<longleftrightarrow> x < 0 \<or> x \<ge> NPROC \<or> prstate (proctab s x) = PR_FREE"

definition isbadqid :: "int \<Rightarrow> bool" where
  "isbadqid x \<longleftrightarrow> x < NPROC \<or> x \<ge> NQENT - 1"

definition isbadsem :: "int \<Rightarrow> bool" where
  "isbadsem x \<longleftrightarrow> x < 0 \<or> x \<ge> NSEM"

definition isbaddev :: "int \<Rightarrow> bool" where
  "isbaddev f \<longleftrightarrow> f < 0 \<or> f \<ge> NDEVS"

end
