(* ===== verification/Queues.thy ===== *)
theory Queues
  imports Xinu_State
begin

text \<open>
  Process queues: \<^verbatim>\<open>system/queue.c\<close>, \<^verbatim>\<open>getitem.c\<close>, \<^verbatim>\<open>insert.c\<close>, \<^verbatim>\<open>insertd.c\<close>,
  \<^verbatim>\<open>newqueue.c\<close> and the inline functions of \<^verbatim>\<open>include/queue.h\<close>. All queues are doubly
  linked through one table; entries below \<open>NPROC\<close> stand for processes, the rest are the
  head and tail nodes of the queues. The walks of \<open>insert\<close> and \<open>insertd\<close> are partial
  (\<open>None\<close>: the loop never leaves a corrupted list); under the queue invariant they are
  shown to return.

  The second part gives the abstract view, a list of process ids per queue, and shows that
  every operation is the corresponding list operation on its own queue and leaves the
  others alone.
\<close>

section \<open>Inline functions of queue.h\<close>

definition queuehead :: "int \<Rightarrow> int" where "queuehead q = q"

definition queuetail :: "int \<Rightarrow> int" where "queuetail q = q + 1"

definition firstid :: "int \<Rightarrow> 'a ks \<Rightarrow> int" where
  "firstid q s = qnext (queuetab s (queuehead q))"

definition lastid :: "int \<Rightarrow> 'a ks \<Rightarrow> int" where
  "lastid q s = qprev (queuetab s (queuetail q))"

definition isempty :: "int \<Rightarrow> 'a ks \<Rightarrow> bool" where
  "isempty q s \<longleftrightarrow> firstid q s \<ge> NPROC"

definition nonempty :: "int \<Rightarrow> 'a ks \<Rightarrow> bool" where
  "nonempty q s \<longleftrightarrow> firstid q s < NPROC"

definition firstkey :: "int \<Rightarrow> 'a ks \<Rightarrow> int" where
  "firstkey q s = qkey (queuetab s (firstid q s))"

definition lastkey :: "int \<Rightarrow> 'a ks \<Rightarrow> int" where
  "lastkey q s = qkey (queuetab s (lastid q s))"

section \<open>Operations\<close>

definition newqueue :: "'a ks \<Rightarrow> int \<times> 'a ks" where
  "newqueue s =
     (let q = nextqid s in
      if q \<ge> NQENT then (SYSERR, s)
      else
        let s = s\<lparr>nextqid := nextqid s + 2\<rparr>;
            s = upd_q (queuehead q) (\<lambda>e. e\<lparr>qnext := queuetail q\<rparr>) s;
            s = upd_q (queuehead q) (\<lambda>e. e\<lparr>qprev := EMPTY\<rparr>) s;
            s = upd_q (queuehead q) (\<lambda>e. e\<lparr>qkey := MAXKEY\<rparr>) s;
            s = upd_q (queuetail q) (\<lambda>e. e\<lparr>qnext := EMPTY\<rparr>) s;
            s = upd_q (queuetail q) (\<lambda>e. e\<lparr>qprev := queuehead q\<rparr>) s;
            s = upd_q (queuetail q) (\<lambda>e. e\<lparr>qkey := MINKEY\<rparr>) s
        in (q, s))"

definition getitem :: "int \<Rightarrow> 'a ks \<Rightarrow> int \<times> 'a ks" where
  "getitem pid s =
     (let nxt = qnext (queuetab s pid);
          prv = qprev (queuetab s pid);
          s = upd_q prv (\<lambda>e. e\<lparr>qnext := nxt\<rparr>) s;
          s = upd_q nxt (\<lambda>e. e\<lparr>qprev := prv\<rparr>) s
      in (pid, s))"

definition getfirst :: "int \<Rightarrow> 'a ks \<Rightarrow> int \<times> 'a ks" where
  "getfirst q s =
     (if isempty q s then (EMPTY, s)
      else getitem (qnext (queuetab s (queuehead q))) s)"

definition getlast :: "int \<Rightarrow> 'a ks \<Rightarrow> int \<times> 'a ks" where
  "getlast q s =
     (if isempty q s then (EMPTY, s)
      else getitem (qprev (queuetab s (queuetail q))) s)"

definition enqueue :: "int \<Rightarrow> int \<Rightarrow> 'a ks \<Rightarrow> int \<times> 'a ks" where
  "enqueue pid q s =
     (if isbadqid q \<or> isbadpid pid s then (SYSERR, s)
      else
        let tail = queuetail q;
            prv = qprev (queuetab s tail);
            s = upd_q pid (\<lambda>e. e\<lparr>qnext := tail\<rparr>) s;
            s = upd_q pid (\<lambda>e. e\<lparr>qprev := prv\<rparr>) s;
            s = upd_q prv (\<lambda>e. e\<lparr>qnext := pid\<rparr>) s;
            s = upd_q tail (\<lambda>e. e\<lparr>qprev := pid\<rparr>) s
        in (pid, s))"

definition dequeue :: "int \<Rightarrow> 'a ks \<Rightarrow> int \<times> 'a ks" where
  "dequeue q s =
     (if isbadqid q then (SYSERR, s)
      else if isempty q s then (EMPTY, s)
      else
        let (pid, s) = getfirst q s;
            s = upd_q pid (\<lambda>e. e\<lparr>qprev := EMPTY\<rparr>) s;
            s = upd_q pid (\<lambda>e. e\<lparr>qnext := EMPTY\<rparr>) s
        in (pid, s))"

text \<open>The loop of \<open>insert\<close>: skip the entries whose key is at least the new key.\<close>

partial_function (option) insert_walk :: "(int \<Rightarrow> qentry) \<Rightarrow> int \<Rightarrow> int \<Rightarrow> int option" where
  "insert_walk qt key cur =
     (if qkey (qt cur) \<ge> key then insert_walk qt key (qnext (qt cur)) else Some cur)"

definition insertq :: "int \<Rightarrow> int \<Rightarrow> int \<Rightarrow> 'a ks \<Rightarrow> (int \<times> 'a ks) option" where
  "insertq pid q key s =
     (if isbadqid q \<or> isbadpid pid s then Some (SYSERR, s)
      else do {
        cur \<leftarrow> insert_walk (queuetab s) key (firstid q s);
        let prv = qprev (queuetab s cur);
        let s = upd_q pid (\<lambda>e. e\<lparr>qnext := cur\<rparr>) s;
        let s = upd_q pid (\<lambda>e. e\<lparr>qprev := prv\<rparr>) s;
        let s = upd_q pid (\<lambda>e. e\<lparr>qkey := key\<rparr>) s;
        let s = upd_q prv (\<lambda>e. e\<lparr>qnext := pid\<rparr>) s;
        let s = upd_q cur (\<lambda>e. e\<lparr>qprev := pid\<rparr>) s;
        Some (OK, s)
      })"

text \<open>The loop of \<open>insertd\<close>: the key becomes relative to the entry reached.\<close>

partial_function (option) insertd_walk ::
  "(int \<Rightarrow> qentry) \<Rightarrow> int \<Rightarrow> int \<Rightarrow> int \<Rightarrow> int \<Rightarrow> (int \<times> int \<times> int) option" where
  "insertd_walk qt tail key prv nxt =
     (if nxt \<noteq> tail \<and> qkey (qt nxt) \<le> key
      then insertd_walk qt tail (key - qkey (qt nxt)) nxt (qnext (qt nxt))
      else Some (key, prv, nxt))"

definition insertd :: "int \<Rightarrow> int \<Rightarrow> int \<Rightarrow> 'a ks \<Rightarrow> (int \<times> 'a ks) option" where
  "insertd pid q key s =
     (if isbadqid q \<or> isbadpid pid s then Some (SYSERR, s)
      else do {
        (key, prv, nxt) \<leftarrow> insertd_walk (queuetab s) (queuetail q) key (queuehead q)
                            (qnext (queuetab s (queuehead q)));
        let s = upd_q pid (\<lambda>e. e\<lparr>qnext := nxt\<rparr>) s;
        let s = upd_q pid (\<lambda>e. e\<lparr>qprev := prv\<rparr>) s;
        let s = upd_q pid (\<lambda>e. e\<lparr>qkey := key\<rparr>) s;
        let s = upd_q prv (\<lambda>e. e\<lparr>qnext := pid\<rparr>) s;
        let s = upd_q nxt (\<lambda>e. e\<lparr>qprev := pid\<rparr>) s;
        let s = (if nxt \<noteq> queuetail q
                 then upd_q nxt (\<lambda>e. e\<lparr>qkey := qkey e - key\<rparr>) s else s);
        Some (OK, s)
      })"

section \<open>Doubly linked sequences of table entries\<close>

text \<open>\<open>links qt ns\<close>: consecutive entries of \<open>ns\<close> point at each other.\<close>

fun links :: "(int \<Rightarrow> qentry) \<Rightarrow> int list \<Rightarrow> bool" where
  "links qt (u # v # ns) \<longleftrightarrow> qnext (qt u) = v \<and> qprev (qt v) = u \<and> links qt (v # ns)"
| "links qt ns \<longleftrightarrow> True"

lemma links_split: "links qt (xs @ u # ys) \<longleftrightarrow> links qt (xs @ [u]) \<and> links qt (u # ys)"
proof (induction xs)
  case Nil
  then show ?case by (cases ys) auto
next
  case (Cons x xs)
  then show ?case by (cases xs) auto
qed

lemma links_cong_last:
  assumes "\<And>x. x \<in> set xs \<Longrightarrow> qt x = qt' x" "qprev (qt u) = qprev (qt' u)"
  shows "links qt (xs @ [u]) = links qt' (xs @ [u])"
  using assms by (induction xs rule: induct_list012) auto

lemma links_cong_first:
  assumes "\<And>x. x \<in> set xs \<Longrightarrow> qt x = qt' x" "qnext (qt u) = qnext (qt' u)"
  shows "links qt (u # xs) = links qt' (u # xs)"
proof (cases xs)
  case (Cons y ys)
  have "links qt (y # ys) = links qt' (y # ys)" if "\<And>x. x \<in> set (y # ys) \<Longrightarrow> qt x = qt' x" for y ys
    using that by (induction ys arbitrary: y) auto
  with assms Cons show ?thesis by auto
qed simp

lemma links_cong:
  "(\<And>x. x \<in> set xs \<Longrightarrow> qnext (qt x) = qnext (qt' x) \<and> qprev (qt x) = qprev (qt' x)) \<Longrightarrow>
   links qt xs = links qt' xs"
  by (induction xs rule: induct_list012) auto

text \<open>Unlinking the middle node of three, and linking a node between two.\<close>

lemma links_unlink:
  assumes "links qt (xs @ u # p # v # ys)" "distinct (xs @ u # p # v # ys)"
  shows "links (qt(u := qt u\<lparr>qnext := v\<rparr>, v := qt v\<lparr>qprev := u\<rparr>)) (xs @ u # v # ys)"
    (is "links ?qt _")
proof -
  have l: "links qt (xs @ [u])" "links qt (v # ys)"
    using assms(1) links_split [of qt xs u "p # v # ys"] links_split [of qt "xs @ [u, p]" v ys] by auto
  have uv: "u \<noteq> v" and xs: "u \<notin> set xs" "v \<notin> set xs" and ys: "u \<notin> set ys" "v \<notin> set ys"
    using assms(2) by auto
  have "links qt (xs @ [u]) = links ?qt (xs @ [u])"
    by (rule links_cong_last) (use uv xs in auto)
  moreover have "links qt (v # ys) = links ?qt (v # ys)"
    by (rule links_cong_first) (use uv ys in auto)
  ultimately show ?thesis
    using l uv by (simp add: links_split [of ?qt xs u "v # ys"])
qed

lemma links_insert:
  assumes "links qt (xs @ u # v # ys)" "distinct (xs @ u # v # ys)" "p \<notin> set (xs @ u # v # ys)"
    and q: "qnext e = v" "qprev e = u"
  shows "links (qt(p := e, u := qt u\<lparr>qnext := p\<rparr>, v := qt v\<lparr>qprev := p\<rparr>)) (xs @ u # p # v # ys)"
    (is "links ?qt _")
proof -
  have l: "links qt (xs @ [u])" "links qt (v # ys)"
    using assms(1) links_split [of qt xs u "v # ys"] links_split [of qt "xs @ [u]" v ys] by auto
  have uv: "u \<noteq> v" "p \<noteq> u" "p \<noteq> v"
    and xs: "u \<notin> set xs" "v \<notin> set xs" "p \<notin> set xs"
    and ys: "u \<notin> set ys" "v \<notin> set ys" "p \<notin> set ys"
    using assms(2,3) by auto
  have "links qt (xs @ [u]) = links ?qt (xs @ [u])"
    by (rule links_cong_last) (use uv xs in auto)
  moreover have "links qt (v # ys) = links ?qt (v # ys)"
    by (rule links_cong_first) (use uv ys in auto)
  ultimately show ?thesis
    using l uv q by (simp add: links_split [of ?qt xs u "p # v # ys"])
qed

lemma links_neighbours:
  "links qt (xs @ u # p # v # ys) \<Longrightarrow>
   qprev (qt p) = u \<and> qnext (qt p) = v \<and> qnext (qt u) = p \<and> qprev (qt v) = p"
  using links_split [of qt xs u "p # v # ys"] by auto

section \<open>The queues the table holds\<close>

text \<open>
  \<open>qids lim\<close>: the queues \<open>newqueue\<close> has handed out when its counter stands at \<open>lim\<close>.
  \<open>qrep qt lim Q\<close>: the table \<open>qt\<close> represents, for each of them, the list \<open>Q q\<close> of the
  processes in it from head to tail; no process is in two queues.
\<close>

definition qids :: "int \<Rightarrow> int set" where
  "qids lim = {q. NPROC \<le> q \<and> q < lim \<and> even q}"

definition dlist :: "(int \<Rightarrow> qentry) \<Rightarrow> int \<Rightarrow> int list \<Rightarrow> bool" where
  "dlist qt q ps \<longleftrightarrow> links qt (q # ps @ [q + 1]) \<and> distinct ps \<and> set ps \<subseteq> {0..<NPROC} \<and>
     qkey (qt q) = MAXKEY \<and> qkey (qt (q + 1)) = MINKEY"

definition qrep :: "(int \<Rightarrow> qentry) \<Rightarrow> int \<Rightarrow> (int \<Rightarrow> int list) \<Rightarrow> bool" where
  "qrep qt lim Q \<longleftrightarrow> (\<forall>q \<in> qids lim. dlist qt q (Q q)) \<and>
     (\<forall>q \<in> qids lim. \<forall>q' \<in> qids lim. q \<noteq> q' \<longrightarrow> set (Q q) \<inter> set (Q q') = {}) \<and>
     even lim \<and> NPROC \<le> lim \<and> lim \<le> NQENT"

definition in_no_queue :: "int \<Rightarrow> int \<Rightarrow> (int \<Rightarrow> int list) \<Rightarrow> bool" where
  "in_no_queue pid lim Q \<longleftrightarrow> (\<forall>q \<in> qids lim. pid \<notin> set (Q q))"

lemma qrep_dlist: "qrep qt lim Q \<Longrightarrow> q \<in> qids lim \<Longrightarrow> dlist qt q (Q q)"
  by (simp add: qrep_def)

lemma qrep_disjoint:
  "qrep qt lim Q \<Longrightarrow> q \<in> qids lim \<Longrightarrow> q' \<in> qids lim \<Longrightarrow> q \<noteq> q' \<Longrightarrow> set (Q q) \<inter> set (Q q') = {}"
  by (simp add: qrep_def)

lemma qids_not_bad:
  assumes "qrep qt lim Q" "q \<in> qids lim"
  shows "\<not> isbadqid q"
proof -
  have q: "NPROC \<le> q" "q < lim" "even q" "even lim" "lim \<le> NQENT" using assms by (simp_all add: qrep_def qids_def)
  then have "q + 1 < lim" by presburger
  then show ?thesis using q by (simp add: isbadqid_def)
qed

lemma dlist_distinct: "dlist qt q ps \<Longrightarrow> NPROC \<le> q \<Longrightarrow> distinct (q # ps @ [q + 1])"
  by (auto simp: dlist_def)

text \<open>Changing one queue: the others keep their nodes, hence their lists.\<close>

lemma qrep_update:
  assumes R: "qrep qt lim Q" and q: "q \<in> qids lim"
    and L: "dlist qt' q ps'"
    and H: "\<And>x. x \<notin> {0..<NPROC} \<Longrightarrow> x \<noteq> q \<Longrightarrow> x \<noteq> q + 1 \<Longrightarrow> qt' x = qt x"
    and P: "\<And>x. x \<in> {0..<NPROC} \<Longrightarrow> x \<notin> set (Q q) \<Longrightarrow> x \<notin> set ps' \<Longrightarrow> qt' x = qt x"
    and D: "\<And>q'. q' \<in> qids lim \<Longrightarrow> q' \<noteq> q \<Longrightarrow> set ps' \<inter> set (Q q') = {}"
  shows "qrep qt' lim (Q(q := ps'))"
proof -
  have *: "dlist qt' q' (Q q')" if q': "q' \<in> qids lim" "q' \<noteq> q" for q'
  proof -
    from R q' have dl: "dlist qt q' (Q q')" by (simp add: qrep_def)
    have hd: "q' \<notin> {0..<NPROC}" "q' + 1 \<notin> {0..<NPROC}" "q' \<noteq> q + 1" "q' + 1 \<noteq> q" "q' + 1 \<noteq> q + 1"
      using q q' unfolding qids_def by auto
    have eq: "qt' x = qt x" if "x \<in> set (q' # Q q' @ [q' + 1])" for x
    proof (cases "x \<in> set (Q q')")
      case True
      with D [OF q'] qrep_disjoint [OF R q q'(1)] q'(2) dl show ?thesis
        by (intro P) (auto simp: dlist_def)
    next
      case False
      with that hd q'(2) H show ?thesis by auto
    qed
    have "links qt' (q' # Q q' @ [q' + 1]) = links qt (q' # Q q' @ [q' + 1])"
      by (rule links_cong) (simp only: eq)
    with dl eq show ?thesis by (simp add: dlist_def)
  qed
  show ?thesis
    unfolding qrep_def
  proof (intro conjI ballI impI)
    fix q' assume "q' \<in> qids lim"
    then show "dlist qt' q' ((Q(q := ps')) q')" using * L by (cases "q' = q") auto
  next
    fix q1 q2 assume "q1 \<in> qids lim" "q2 \<in> qids lim" "q1 \<noteq> q2"
    with D qrep_disjoint [OF R] show "set ((Q(q := ps')) q1) \<inter> set ((Q(q := ps')) q2) = {}"
      by (cases "q1 = q"; cases "q2 = q") (auto simp: Int_commute)
  qed (use R in \<open>auto simp: qrep_def\<close>)
qed

lemma qrep_keys_irrelevant:
  assumes "qrep qt lim Q" "\<And>x. qnext (qt' x) = qnext (qt x) \<and> qprev (qt' x) = qprev (qt x)"
    "\<And>x. x \<notin> {0..<NPROC} \<Longrightarrow> qkey (qt' x) = qkey (qt x)"
  shows "qrep qt' lim Q"
proof -
  have "dlist qt' q (Q q)" if "q \<in> qids lim" for q
  proof -
    from assms(1) that have dl: "dlist qt q (Q q)" by (simp add: qrep_def)
    have "links qt' (q # Q q @ [q + 1]) = links qt (q # Q q @ [q + 1])"
      by (rule links_cong) (use assms(2) in auto)
    with dl assms(3) that show ?thesis by (auto simp: dlist_def qids_def)
  qed
  with assms(1) show ?thesis by (simp add: qrep_def)
qed

section \<open>Each operation as an operation on the abstract lists\<close>

lemma isempty_Nil: "dlist (queuetab s) q ps \<Longrightarrow> NPROC \<le> q \<Longrightarrow> isempty q s \<longleftrightarrow> ps = []"
  by (cases ps) (auto simp: dlist_def isempty_def firstid_def queuehead_def)

lemma nonempty_not_isempty: "nonempty q s \<longleftrightarrow> \<not> isempty q s"
  by (auto simp: nonempty_def isempty_def)

lemma firstid_Cons: "dlist (queuetab s) q (p # ps) \<Longrightarrow> firstid q s = p"
  by (auto simp: dlist_def firstid_def queuehead_def)

lemma firstid_Nil: "dlist (queuetab s) q [] \<Longrightarrow> firstid q s = q + 1"
  by (auto simp: dlist_def firstid_def queuehead_def)

lemma lastid_snoc: "dlist (queuetab s) q (ps @ [p]) \<Longrightarrow> lastid q s = p"
  using links_split [of "queuetab s" "q # ps" p "[q + 1]"]
  by (simp add: dlist_def lastid_def queuetail_def)

definition unlink :: "(int \<Rightarrow> qentry) \<Rightarrow> int \<Rightarrow> (int \<Rightarrow> qentry)" where
  "unlink qt p =
     (let u = qprev (qt p); v = qnext (qt p); qt = qt(u := qt u\<lparr>qnext := v\<rparr>)
      in qt(v := qt v\<lparr>qprev := u\<rparr>))"

lemma getitem_unlink: "getitem p s = (p, s\<lparr>queuetab := unlink (queuetab s) p\<rparr>)"
  by (simp add: getitem_def unlink_def upd_q_def Let_def)

lemma unlink_qkey [simp]: "qkey (unlink qt p x) = qkey (qt x)"
  by (simp add: unlink_def Let_def)

lemma unlink_qrep:
  assumes R: "qrep qt lim Q" and q: "q \<in> qids lim" and Qq: "Q q = xs @ p # ys"
  shows "qrep (unlink qt p) lim (Q(q := xs @ ys))"
proof -
  from R q Qq have dl: "dlist qt q (xs @ p # ys)" by (metis qrep_dlist)
  then have D: "distinct (q # (xs @ p # ys) @ [q + 1])"
    by (rule dlist_distinct) (use q in \<open>simp add: qids_def\<close>)
  obtain us u where u: "q # xs = us @ [u]" by (metis list.distinct(1) rev_exhaust)
  obtain v vs where v: "ys @ [q + 1] = v # vs" by (cases ys) auto
  have ns: "q # (xs @ p # ys) @ [q + 1] = us @ u # p # v # vs"
    using u v by (metis append.assoc append_Cons append_Nil)
  have ns': "q # (xs @ ys) @ [q + 1] = us @ u # v # vs"
    using u v by (metis append.assoc append_Cons append_Nil)
  from D have d: "distinct (us @ u # p # v # vs)" by (simp only: ns)
  from dl ns have l: "links qt (us @ u # p # v # vs)" by (simp add: dlist_def)
  note nb = links_neighbours [OF l]
  have un: "unlink qt p = qt(u := qt u\<lparr>qnext := v\<rparr>, v := qt v\<lparr>qprev := u\<rparr>)"
    using nb d by (simp add: unlink_def Let_def)
  have "links (unlink qt p) (q # (xs @ ys) @ [q + 1])"
    unfolding ns' un by (rule links_unlink [OF l d])
  with dl have "dlist (unlink qt p) q (xs @ ys)"
    by (auto simp: dlist_def)
  moreover have uv: "{u, v} \<subseteq> {q, q + 1} \<union> set (xs @ ys)"
  proof -
    have "u \<in> set (q # xs)" using u by simp
    moreover have "v \<in> set (ys @ [q + 1])" using v by simp
    ultimately show ?thesis by auto
  qed
  ultimately show ?thesis
  proof (intro qrep_update [OF R q])
    fix x assume "x \<notin> {0..<NPROC}" "x \<noteq> q" "x \<noteq> q + 1"
    with uv dl have "x \<noteq> u" "x \<noteq> v" by (auto simp: dlist_def)
    then show "unlink qt p x = qt x" by (simp add: un)
  next
    fix x assume x: "x \<in> {0..<NPROC}" "x \<notin> set (xs @ ys)"
    with q have "x \<noteq> q" "x \<noteq> q + 1" by (auto simp: qids_def)
    with x uv have "x \<noteq> u" "x \<noteq> v" by auto
    then show "unlink qt p x = qt x" by (simp add: un)
  next
    fix q' assume "q' \<in> qids lim" "q' \<noteq> q"
    with qrep_disjoint [OF R q] Qq show "set (xs @ ys) \<inter> set (Q q') = {}" by fastforce
  qed auto
qed

lemma getitem_qrep:
  assumes "qrep (queuetab s) (nextqid s) Q" "q \<in> qids (nextqid s)" "p \<in> set (Q q)"
  obtains qt where "getitem p s = (p, s\<lparr>queuetab := qt\<rparr>)"
    "qrep qt (nextqid s) (Q(q := remove1 p (Q q)))" "\<forall>x. qkey (qt x) = qkey (queuetab s x)"
proof -
  from assms(3) obtain xs ys where s: "Q q = xs @ p # ys" "p \<notin> set xs" by (metis split_list_first)
  then have "remove1 p (Q q) = xs @ ys" by (simp add: remove1_append)
  with unlink_qrep [OF assms(1,2) s(1)] show ?thesis
    by (intro that [of "unlink (queuetab s) p"]) (auto simp: getitem_unlink)
qed

text \<open>A cell no queue reaches may be overwritten.\<close>

lemma qrep_upd_free:
  assumes "qrep qt lim Q" "pid \<in> {0..<NPROC}" "in_no_queue pid lim Q"
  shows "qrep (qt(pid := e)) lim Q"
proof -
  have "dlist (qt(pid := e)) q (Q q)" if q: "q \<in> qids lim" for q
  proof -
    from assms(1) q have dl: "dlist qt q (Q q)" by (simp add: qrep_def)
    have "pid \<noteq> q" "pid \<noteq> q + 1" "pid \<notin> set (Q q)"
      using assms(2,3) q by (auto simp: qids_def in_no_queue_def)
    moreover from this have "links (qt(pid := e)) (q # Q q @ [q + 1]) = links qt (q # Q q @ [q + 1])"
      by (intro links_cong) auto
    ultimately show ?thesis using dl by (auto simp: dlist_def)
  qed
  with assms(1) show ?thesis by (simp add: qrep_def)
qed

lemma getfirst_qrep:
  assumes "qrep (queuetab s) (nextqid s) Q" "q \<in> qids (nextqid s)" "Q q = p # ps"
  obtains qt where "getfirst q s = (p, s\<lparr>queuetab := qt\<rparr>)"
    "qrep qt (nextqid s) (Q(q := ps))" "\<forall>x. qkey (qt x) = qkey (queuetab s x)"
proof -
  from assms have dl: "dlist (queuetab s) q (p # ps)" by (metis qrep_dlist)
  have "NPROC \<le> q" using assms(2) by (simp add: qids_def)
  with dl have "getfirst q s = getitem p s"
    using isempty_Nil [OF dl] firstid_Cons [OF dl] by (simp add: getfirst_def firstid_def)
  with unlink_qrep [OF assms(1,2), of "[]" p ps] assms(3) show ?thesis
    by (intro that [of "unlink (queuetab s) p"]) (auto simp: getitem_unlink)
qed

lemma getfirst_empty:
  assumes "qrep (queuetab s) (nextqid s) Q" "q \<in> qids (nextqid s)" "Q q = []"
  shows "getfirst q s = (EMPTY, s)"
  using assms isempty_Nil [OF qrep_dlist [OF assms(1,2)]] by (simp add: getfirst_def qids_def)

lemma dequeue_qrep:
  assumes R: "qrep (queuetab s) (nextqid s) Q" and q: "q \<in> qids (nextqid s)" and Qq: "Q q = p # ps"
  obtains qt where "dequeue q s = (p, s\<lparr>queuetab := qt\<rparr>)"
    "qrep qt (nextqid s) (Q(q := ps))" "\<forall>x. qkey (qt x) = qkey (queuetab s x)"
proof -
  obtain qt where g: "getfirst q s = (p, s\<lparr>queuetab := qt\<rparr>)"
    and r: "qrep qt (nextqid s) (Q(q := ps))" and k: "\<forall>x. qkey (qt x) = qkey (queuetab s x)"
    using getfirst_qrep [OF R q Qq] by blast
  from R q Qq have dl: "dlist (queuetab s) q (p # ps)" by (metis qrep_dlist)
  have pr: "p \<in> {0..<NPROC}" "p \<notin> set ps" using dl by (auto simp: dlist_def)
  have nq: "in_no_queue p (nextqid s) (Q(q := ps))"
    using qrep_disjoint [OF R q] Qq pr by (fastforce simp: in_no_queue_def)
  let ?qt = "qt(p := qt p\<lparr>qprev := EMPTY, qnext := EMPTY\<rparr>)"
  have "dequeue q s = (p, s\<lparr>queuetab := ?qt\<rparr>)"
    using qids_not_bad [OF R q] isempty_Nil [OF dl] q g
    by (simp add: dequeue_def upd_q_def qids_def)
  moreover have "qrep ?qt (nextqid s) (Q(q := ps))" by (rule qrep_upd_free [OF r pr(1) nq])
  ultimately show ?thesis using k by (intro that [of ?qt]) auto
qed

lemma dequeue_empty:
  assumes "qrep (queuetab s) (nextqid s) Q" "q \<in> qids (nextqid s)" "Q q = []"
  shows "dequeue q s = (EMPTY, s)"
  using assms isempty_Nil [OF qrep_dlist [OF assms(1,2)]] qids_not_bad [OF assms(1,2)]
  by (simp add: dequeue_def qids_def)

text \<open>Linking a process that is in no queue between two neighbours of a queue.\<close>

lemma link_qrep:
  assumes R: "qrep qt lim Q" and q: "q \<in> qids lim" and Qq: "Q q = xs @ ys"
    and pid: "pid \<in> {0..<NPROC}" and nq: "in_no_queue pid lim Q"
    and u: "u = last (q # xs)" and v: "v = hd (ys @ [q + 1])"
    and e: "qnext e = v" "qprev e = u"
  shows "qrep (qt(pid := e, u := qt u\<lparr>qnext := pid\<rparr>, v := qt v\<lparr>qprev := pid\<rparr>)) lim
           (Q(q := xs @ pid # ys))" (is "qrep ?qt _ _")
    and "pid \<noteq> u \<and> pid \<noteq> v \<and> u \<noteq> v"
proof -
  from R q Qq have dl: "dlist qt q (xs @ ys)" by (metis qrep_dlist)
  then have D: "distinct (q # (xs @ ys) @ [q + 1])"
    by (rule dlist_distinct) (use q in \<open>simp add: qids_def\<close>)
  obtain us where us: "q # xs = us @ [u]" using u by (metis append_butlast_last_id list.distinct(1))
  obtain vs where vs: "ys @ [q + 1] = v # vs" using v by (cases ys) auto
  have ns: "q # (xs @ ys) @ [q + 1] = us @ u # v # vs"
    using us vs by (metis append.assoc append_Cons append_Nil)
  have ns': "q # (xs @ pid # ys) @ [q + 1] = us @ u # pid # v # vs"
    using us vs by (metis append.assoc append_Cons append_Nil)
  have pq: "pid \<notin> set (q # (xs @ ys) @ [q + 1])"
    using pid nq q Qq by (auto simp: in_no_queue_def qids_def)
  have d: "distinct (us @ u # v # vs)" using D unfolding ns .
  have p: "pid \<notin> set (us @ u # v # vs)" using pq unfolding ns .
  from dl have l: "links qt (us @ u # v # vs)" by (simp add: dlist_def flip: ns)
  show neq: "pid \<noteq> u \<and> pid \<noteq> v \<and> u \<noteq> v" using d p by auto
  have "links ?qt (q # (xs @ pid # ys) @ [q + 1])"
    unfolding ns' by (rule links_insert [OF l d p e])
  moreover have "q \<noteq> pid" "q + 1 \<noteq> pid" using pq by auto
  ultimately have L: "dlist ?qt q (xs @ pid # ys)"
    using dl pid pq by (auto simp: dlist_def)
  have uv: "{u, v} \<subseteq> {q, q + 1} \<union> set (xs @ ys)"
  proof -
    have "u \<in> set (q # xs)" using us by simp
    moreover have "v \<in> set (ys @ [q + 1])" using vs by simp
    ultimately show ?thesis by auto
  qed
  show "qrep ?qt lim (Q(q := xs @ pid # ys))"
  proof (rule qrep_update [OF R q L])
    fix x assume "x \<notin> {0..<NPROC}" "x \<noteq> q" "x \<noteq> q + 1"
    with uv dl pid have "x \<noteq> u" "x \<noteq> v" "x \<noteq> pid" by (auto simp: dlist_def)
    then show "?qt x = qt x" by simp
  next
    fix x assume x: "x \<in> {0..<NPROC}" "x \<notin> set (xs @ pid # ys)"
    with q have "x \<noteq> q" "x \<noteq> q + 1" by (auto simp: qids_def)
    with x uv have "x \<noteq> u" "x \<noteq> v" "x \<noteq> pid" by auto
    then show "?qt x = qt x" by simp
  next
    fix q' assume q': "q' \<in> qids lim" "q' \<noteq> q"
    with qrep_disjoint [OF R q] Qq nq show "set (xs @ pid # ys) \<inter> set (Q q') = {}"
      by (fastforce simp: in_no_queue_def)
  qed
qed

lemma link_qkey:
  "pid \<noteq> u \<and> pid \<noteq> v \<and> u \<noteq> v \<Longrightarrow>
   \<forall>x. qkey ((qt(pid := e, u := qt u\<lparr>qnext := a\<rparr>, v := qt v\<lparr>qprev := b\<rparr>)) x) =
     (if x = pid then qkey e else qkey (qt x))"
  by simp

lemma enqueue_qrep:
  assumes R: "qrep (queuetab s) (nextqid s) Q" and q: "q \<in> qids (nextqid s)"
    and pid: "\<not> isbadpid pid s" and nq: "in_no_queue pid (nextqid s) Q"
  obtains qt where "enqueue pid q s = (pid, s\<lparr>queuetab := qt\<rparr>)"
    "qrep qt (nextqid s) (Q(q := Q q @ [pid]))" "\<forall>x. qkey (qt x) = qkey (queuetab s x)"
proof -
  let ?q = "queuetab s" and ?u = "last (q # Q q)"
  let ?e = "?q pid\<lparr>qnext := q + 1, qprev := ?u\<rparr>"
  from pid have pr: "pid \<in> {0..<NPROC}" by (auto simp: isbadpid_def)
  from R q have dl: "dlist ?q q (Q q)" by (rule qrep_dlist)
  have tl: "qprev (?q (q + 1)) = ?u"
  proof -
    obtain us where us: "q # Q q = us @ [?u]" by (metis append_butlast_last_id list.distinct(1))
    have "q # Q q @ [q + 1] = us @ ?u # [q + 1]"
      by (metis us append.assoc append_Cons append_Nil)
    with dl have "links ?q (us @ ?u # [q + 1])" unfolding dlist_def by metis
    then have "links ?q (?u # [q + 1])" using links_split [of ?q us ?u "[q + 1]"] by blast
    then show ?thesis by simp
  qed
  note L = link_qrep [OF R q _ pr nq, where xs = "Q q" and ys = "[]" and e = ?e]
  have n: "pid \<noteq> ?u" "pid \<noteq> q + 1" "?u \<noteq> q + 1" using L(2) by simp_all
  let ?qt = "?q(pid := ?e, ?u := ?q ?u\<lparr>qnext := pid\<rparr>, q + 1 := ?q (q + 1)\<lparr>qprev := pid\<rparr>)"
  show ?thesis
  proof (rule that [of ?qt])
    show "enqueue pid q s = (pid, s\<lparr>queuetab := ?qt\<rparr>)"
      using n tl pid qids_not_bad [OF R q]
      by (simp add: enqueue_def queuetail_def upd_q_def Let_def)
    show "qrep ?qt (nextqid s) (Q(q := Q q @ [pid]))" using L(1) by simp
  qed simp
qed

text \<open>
  \<open>insert\<close> keeps a queue in descending key order: the new process goes behind every
  process whose key is at least its own (\<open>pri_insert\<close>), so equal priorities are served
  round-robin.
\<close>

definition pri_insert :: "(int \<Rightarrow> int) \<Rightarrow> int \<Rightarrow> int \<Rightarrow> int list \<Rightarrow> int list" where
  "pri_insert k key pid ps =
     takeWhile (\<lambda>p. k p \<ge> key) ps @ pid # dropWhile (\<lambda>p. k p \<ge> key) ps"

definition key_order :: "(int \<Rightarrow> int) \<Rightarrow> int list \<Rightarrow> bool" where
  "key_order k ps \<longleftrightarrow> sorted_wrt (\<lambda>p p'. k p \<ge> k p') ps"

lemma set_pri_insert [simp]: "set (pri_insert k key pid ps) = insert pid (set ps)"
proof -
  have "set ps = set (takeWhile (\<lambda>p. k p \<ge> key) ps) \<union> set (dropWhile (\<lambda>p. k p \<ge> key) ps)"
    by (metis set_append takeWhile_dropWhile_id)
  then show ?thesis by (auto simp: pri_insert_def)
qed

lemma length_pri_insert [simp]: "length (pri_insert k key pid ps) = Suc (length ps)"
  by (metis pri_insert_def add_Suc_right length_Cons length_append takeWhile_dropWhile_id)

lemma pri_insert_Cons:
  "pri_insert k key pid (p # ps) =
     (if k p \<ge> key then p # pri_insert k key pid ps else pid # p # ps)"
  by (simp add: pri_insert_def)

lemma key_order_cong: "(\<And>p. p \<in> set ps \<Longrightarrow> k p = k' p) \<Longrightarrow> key_order k ps = key_order k' ps"
  by (induction ps) (auto simp: key_order_def)

lemma key_order_pri_insert:
  assumes "key_order k ps" "pid \<notin> set ps"
  shows "key_order (k(pid := key)) (pri_insert k key pid ps)"
  using assms
proof (induction ps)
  case Nil
  then show ?case by (simp add: pri_insert_def key_order_def)
next
  case (Cons p ps)
  then have IH: "key_order (k(pid := key)) (pri_insert k key pid ps)" and "p \<noteq> pid"
    by (auto simp: key_order_def)
  moreover have "key_order (k(pid := key)) (p # ps)"
  proof -
    have "key_order (k(pid := key)) (p # ps) = key_order k (p # ps)"
      by (rule key_order_cong) (use Cons.prems(2) in auto)
    with Cons.prems(1) show ?thesis by simp
  qed
  ultimately show ?case
    using Cons.prems by (auto simp: pri_insert_Cons key_order_def)
qed

lemma insert_walk_dlist:
  assumes "links qt (us @ [u] @ ps @ [t])" "qkey (qt t) < key"
  shows "insert_walk qt key (hd (ps @ [t])) = Some (hd (dropWhile (\<lambda>p. qkey (qt p) \<ge> key) ps @ [t]))"
  using assms
proof (induction ps arbitrary: us u)
  case Nil
  then show ?case by (simp add: insert_walk.simps)
next
  case (Cons p ps)
  have l: "links qt ((us @ [u]) @ [p] @ ps @ [t])" using Cons.prems(1) by simp
  have "qnext (qt p) = hd (ps @ [t])"
    using l links_split [of qt "us @ [u]" p "ps @ [t]"] by (cases ps) auto
  with Cons.IH [OF l Cons.prems(2)] show ?case
    by (subst insert_walk.simps) simp
qed

lemma insertq_qrep:
  assumes R: "qrep (queuetab s) (nextqid s) Q" and q: "q \<in> qids (nextqid s)"
    and pid: "\<not> isbadpid pid s" and nq: "in_no_queue pid (nextqid s) Q" and key: "MINKEY < key"
  obtains qt where "insertq pid q key s = Some (OK, s\<lparr>queuetab := qt\<rparr>)"
    "qrep qt (nextqid s) (Q(q := pri_insert (\<lambda>p. qkey (queuetab s p)) key pid (Q q)))"
    "\<forall>x. qkey (qt x) = (if x = pid then key else qkey (queuetab s x))"
proof -
  let ?q = "queuetab s"
  let ?xs = "takeWhile (\<lambda>p. qkey (?q p) \<ge> key) (Q q)"
  let ?ys = "dropWhile (\<lambda>p. qkey (?q p) \<ge> key) (Q q)"
  let ?u = "last (q # ?xs)" and ?v = "hd (?ys @ [q + 1])"
  let ?e = "?q pid\<lparr>qnext := ?v, qprev := ?u, qkey := key\<rparr>"
  from pid have pr: "pid \<in> {0..<NPROC}" by (auto simp: isbadpid_def)
  from R q have dl: "dlist ?q q (Q q)" by (rule qrep_dlist)
  have fi: "firstid q s = hd (Q q @ [q + 1])"
    using dl by (cases "Q q") (auto simp: firstid_Cons firstid_Nil)
  have w: "insert_walk ?q key (firstid q s) = Some ?v"
    unfolding fi by (rule insert_walk_dlist [of ?q "[]" q]) (use dl key in \<open>auto simp: dlist_def\<close>)
  note L = link_qrep [OF R q _ pr nq refl refl, where xs = ?xs and ys = ?ys and e = ?e]
  have n: "pid \<noteq> ?u" "pid \<noteq> ?v" "?u \<noteq> ?v" using L(2) by simp_all
  have pv: "qprev (?q ?v) = ?u"
  proof -
    obtain us where us: "q # ?xs = us @ [?u]" by (metis append_butlast_last_id list.distinct(1))
    obtain vs where vs: "?ys @ [q + 1] = ?v # vs" by (cases ?ys) auto
    have "q # Q q @ [q + 1] = us @ ?u # ?v # vs"
      by (metis us vs append.assoc append_Cons append_Nil takeWhile_dropWhile_id)
    with dl have "links ?q (us @ ?u # ?v # vs)" unfolding dlist_def by metis
    then have "links ?q (?u # ?v # vs)" using links_split [of ?q us ?u "?v # vs"] by blast
    then show ?thesis by (simp only: links.simps)
  qed
  let ?qt = "?q(pid := ?e, ?u := ?q ?u\<lparr>qnext := pid\<rparr>, ?v := ?q ?v\<lparr>qprev := pid\<rparr>)"
  show ?thesis
  proof (rule that [of ?qt])
    have "insertq pid q key s = do {
        cur \<leftarrow> Some ?v;
        let prv = qprev (queuetab s cur);
        let s = upd_q pid (\<lambda>e. e\<lparr>qnext := cur\<rparr>) s;
        let s = upd_q pid (\<lambda>e. e\<lparr>qprev := prv\<rparr>) s;
        let s = upd_q pid (\<lambda>e. e\<lparr>qkey := key\<rparr>) s;
        let s = upd_q prv (\<lambda>e. e\<lparr>qnext := pid\<rparr>) s;
        let s = upd_q cur (\<lambda>e. e\<lparr>qprev := pid\<rparr>) s;
        Some (OK, s)}"
      using pid qids_not_bad [OF R q] w by (simp only: insertq_def if_False de_Morgan_disj simp_thms)
    also have "\<dots> = Some (OK, s\<lparr>queuetab := ?qt\<rparr>)"
      using n pv by (simp only: Option.bind.simps Let_def upd_q_def) (simp add: fun_upd_twist)
    finally show "insertq pid q key s = Some (OK, s\<lparr>queuetab := ?qt\<rparr>)" .
    show "qrep ?qt (nextqid s) (Q(q := pri_insert (\<lambda>p. qkey (?q p)) key pid (Q q)))"
      using L(1) by (simp only: pri_insert_def) simp
    show "\<forall>x. qkey (?qt x) = (if x = pid then key else qkey (?q x))"
      using link_qkey [of pid ?u ?v ?q ?e] n by simp
  qed
qed

text \<open>
  \<open>insertd\<close> keeps a delta list: each key is the delay relative to the process in front.
  \<open>dins k key ps\<close> splits \<open>ps\<close> where the walk stops and gives the delay left there;
  \<open>wake k t ps\<close> lists the processes with the absolute times the deltas stand for.
\<close>

fun dins :: "(int \<Rightarrow> int) \<Rightarrow> int \<Rightarrow> int list \<Rightarrow> int list \<times> int list \<times> int" where
  "dins k key [] = ([], [], key)"
| "dins k key (p # ps) =
     (if k p \<le> key
      then (case dins k (key - k p) ps of (xs, ys, r) \<Rightarrow> (p # xs, ys, r))
      else ([], p # ps, key))"

definition dkeys :: "(int \<Rightarrow> int) \<Rightarrow> int \<Rightarrow> int \<Rightarrow> int list \<Rightarrow> (int \<Rightarrow> int)" where
  "dkeys k pid r ys =
     (case ys of [] \<Rightarrow> k(pid := r) | y # _ \<Rightarrow> k(pid := r, y := k y - r))"

fun wake :: "(int \<Rightarrow> int) \<Rightarrow> int \<Rightarrow> int list \<Rightarrow> (int \<times> int) list" where
  "wake k t [] = []"
| "wake k t (p # ps) = (p, t + k p) # wake k (t + k p) ps"

lemma dins_append: "dins k key ps = (xs, ys, r) \<Longrightarrow> ps = xs @ ys"
  by (induction k key ps arbitrary: xs ys r rule: dins.induct) (auto split: if_splits prod.splits)

lemma wake_cong: "(\<And>p. p \<in> set ps \<Longrightarrow> k p = k' p) \<Longrightarrow> wake k t ps = wake k' t ps"
  by (induction ps arbitrary: t) auto

lemma dins_delta:
  assumes "dins k key ps = (xs, ys, r)" "\<forall>p \<in> set ps. 0 \<le> k p" "0 \<le> key"
  shows "0 \<le> r \<and> r \<le> key \<and> (ys \<noteq> [] \<longrightarrow> r < k (hd ys))"
  using assms
proof (induction k key ps arbitrary: xs ys r rule: dins.induct)
  case (2 k key p ps)
  show ?case
  proof (cases "k p \<le> key")
    case True
    obtain xs' ys' r' where d: "dins k (key - k p) ps = (xs', ys', r')" by (metis prod_cases3)
    with 2(2-) True have "ys = ys'" "r = r'" by auto
    with 2(1) [OF True d] 2(2-) True show ?thesis by fastforce
  qed (use 2 in auto)
qed auto

text \<open>The new process wakes at its own time, everybody else at the time they had.\<close>

lemma wake_dins:
  assumes "dins k key ps = (xs, ys, r)" "pid \<notin> set ps" "distinct ps"
  shows "wake (dkeys k pid r ys) t (xs @ pid # ys) =
     takeWhile (\<lambda>(p, w). w \<le> t + key) (wake k t ps) @ (pid, t + key) #
     dropWhile (\<lambda>(p, w). w \<le> t + key) (wake k t ps)"
  using assms
proof (induction ps arbitrary: xs ys r key t)
  case Nil
  then show ?case by (simp add: dkeys_def)
next
  case (Cons p ps)
  show ?case
  proof (cases "k p \<le> key")
    case True
    obtain xs' ys' r' where d: "dins k (key - k p) ps = (xs', ys', r')" by (metis prod_cases3)
    with Cons.prems True have x: "xs = p # xs'" "ys = ys'" "r = r'" by auto
    have "p \<noteq> pid" "p \<notin> set ys'" using Cons.prems dins_append [OF d] by auto
    then have "dkeys k pid r ys p = k p" using x by (cases ys') (auto simp: dkeys_def)
    with Cons.IH [OF d, of "t + k p"] Cons.prems True x show ?thesis by simp
  next
    case False
    with Cons.prems have "xs = []" "ys = p # ps" "r = key" "p \<noteq> pid" "pid \<notin> set ps" "p \<notin> set ps" by auto
    moreover have "wake (dkeys k pid key (p # ps)) (t + k p) ps = wake k (t + k p) ps"
      by (rule wake_cong) (use calculation in \<open>auto simp: dkeys_def\<close>)
    moreover have "dkeys k pid key (p # ps) pid = key" "dkeys k pid key (p # ps) p = k p - key"
      using calculation by (auto simp: dkeys_def)
    ultimately show ?thesis using False by simp
  qed
qed

lemma insertd_walk_dlist:
  assumes "links qt (us @ [u] @ ps @ [t])" "t \<notin> set ps"
    "dins (\<lambda>p. qkey (qt p)) key ps = (xs, ys, r)"
  shows "insertd_walk qt t key u (hd (ps @ [t])) = Some (r, last (u # xs), hd (ys @ [t]))"
  using assms
proof (induction ps arbitrary: us u key xs ys r)
  case Nil
  then show ?case by (simp add: insertd_walk.simps)
next
  case (Cons p ps)
  have l: "links qt ((us @ [u]) @ [p] @ ps @ [t])" using Cons.prems(1) by simp
  have nx: "qnext (qt p) = hd (ps @ [t])"
    using l links_split [of qt "us @ [u]" p "ps @ [t]"] by (cases ps) auto
  show ?case
  proof (cases "qkey (qt p) \<le> key")
    case True
    obtain xs' ys' r' where d: "dins (\<lambda>p. qkey (qt p)) (key - qkey (qt p)) ps = (xs', ys', r')"
      by (metis prod_cases3)
    with Cons.prems(3) True have x: "xs = p # xs'" "ys = ys'" "r = r'" by auto
    from Cons.IH [OF l _ d] Cons.prems(2) True nx x show ?thesis
      by (subst insertd_walk.simps) simp
  next
    case False
    with Cons.prems show ?thesis by (subst insertd_walk.simps) auto
  qed
qed

lemma insertd_qrep:
  assumes R: "qrep (queuetab s) (nextqid s) Q" and q: "q \<in> qids (nextqid s)"
    and pid: "\<not> isbadpid pid s" and nq: "in_no_queue pid (nextqid s) Q"
    and d: "dins (\<lambda>p. qkey (queuetab s p)) key (Q q) = (xs, ys, r)"
  obtains qt where "insertd pid q key s = Some (OK, s\<lparr>queuetab := qt\<rparr>)"
    "qrep qt (nextqid s) (Q(q := xs @ pid # ys))"
    "\<forall>x. qkey (qt x) = dkeys (\<lambda>p. qkey (queuetab s p)) pid r ys x"
proof -
  let ?q = "queuetab s"
  obtain u v where u: "u = last (q # xs)" and v: "v = hd (ys @ [q + 1])" by blast
  let ?e = "?q pid\<lparr>qnext := v, qprev := u, qkey := r\<rparr>"
  let ?l = "?q(pid := ?e, u := ?q u\<lparr>qnext := pid\<rparr>, v := ?q v\<lparr>qprev := pid\<rparr>)"
  let ?qt = "if ys = [] then ?l else ?l(v := ?l v\<lparr>qkey := qkey (?l v) - r\<rparr>)"
  from pid have pr: "pid \<in> {0..<NPROC}" by (auto simp: isbadpid_def)
  from R q have dl: "dlist ?q q (Q q)" by (rule qrep_dlist)
  have Qq: "Q q = xs @ ys" by (rule dins_append [OF d])
  have tq: "q + 1 \<notin> set (Q q)" using dl q by (auto simp: dlist_def qids_def)
  have fi: "qnext (?q q) = hd (Q q @ [q + 1])"
    using dl by (cases "Q q") (auto simp: dlist_def)
  have "links ?q ([] @ [q] @ Q q @ [q + 1])" using dl by (simp add: dlist_def)
  from insertd_walk_dlist [OF this tq d]
  have w: "insertd_walk ?q (q + 1) key q (qnext (?q q)) = Some (r, u, v)"
    by (simp only: fi u v)
  have L: "qrep ?l (nextqid s) (Q(q := xs @ pid # ys))" "pid \<noteq> u \<and> pid \<noteq> v \<and> u \<noteq> v"
    using link_qrep [OF R q Qq pr nq u v, where e = ?e] by auto
  then have n: "pid \<noteq> u" "pid \<noteq> v" "u \<noteq> v" by blast+
  have vt: "v = q + 1 \<longleftrightarrow> ys = []" using tq Qq v by (cases ys) auto
  show ?thesis
  proof (rule that [of ?qt])
    have "insertd pid q key s = do {
        (key, prv, nxt) \<leftarrow> Some (r, u, v);
        let s = upd_q pid (\<lambda>e. e\<lparr>qnext := nxt\<rparr>) s;
        let s = upd_q pid (\<lambda>e. e\<lparr>qprev := prv\<rparr>) s;
        let s = upd_q pid (\<lambda>e. e\<lparr>qkey := key\<rparr>) s;
        let s = upd_q prv (\<lambda>e. e\<lparr>qnext := pid\<rparr>) s;
        let s = upd_q nxt (\<lambda>e. e\<lparr>qprev := pid\<rparr>) s;
        let s = (if nxt \<noteq> q + 1 then upd_q nxt (\<lambda>e. e\<lparr>qkey := qkey e - key\<rparr>) s else s);
        Some (OK, s)}"
      using pid qids_not_bad [OF R q] w
      by (simp only: insertd_def queuetail_def queuehead_def if_False de_Morgan_disj simp_thms)
    also have "\<dots> = Some (OK, s\<lparr>queuetab := ?qt\<rparr>)"
      using n vt
      by (simp only: Option.bind.simps Let_def upd_q_def prod.case) (simp add: fun_upd_twist)
    finally show "insertd pid q key s = Some (OK, s\<lparr>queuetab := ?qt\<rparr>)" .
    show "qrep ?qt (nextqid s) (Q(q := xs @ pid # ys))"
    proof (cases "ys = []")
      case False
      then have "v \<in> set (Q q)" using Qq v by (cases ys) auto
      then have "v \<in> {0..<NPROC}" using dl by (auto simp: dlist_def)
      then show ?thesis
        using False by (intro qrep_keys_irrelevant [OF L(1)]) auto
    qed (use L(1) in simp)
    show "\<forall>x. qkey (?qt x) = dkeys (\<lambda>p. qkey (?q p)) pid r ys x"
    proof (cases ys)
      case Nil
      then show ?thesis using link_qkey [OF L(2), of ?q ?e pid pid] by (simp add: dkeys_def)
    next
      case (Cons y ys')
      with link_qkey [OF L(2), of ?q ?e pid pid] n v show ?thesis
        by (auto simp: dkeys_def)
    qed
  qed
qed

lemma dlist_cong:
  assumes "\<And>x. x \<in> set (q # ps @ [q + 1]) \<Longrightarrow> qt' x = qt x"
  shows "dlist qt' q ps = dlist qt q ps"
proof -
  have "links qt' (q # ps @ [q + 1]) = links qt (q # ps @ [q + 1])"
    by (rule links_cong) (simp only: assms)
  moreover have "qt' q = qt q" "qt' (q + 1) = qt (q + 1)" using assms by auto
  ultimately show ?thesis by (simp add: dlist_def)
qed

lemma newqueue_qrep:
  assumes R: "qrep (queuetab s) (nextqid s) Q" and l: "nextqid s < NQENT"
  obtains qt where "newqueue s = (nextqid s, s\<lparr>queuetab := qt, nextqid := nextqid s + 2\<rparr>)"
    "qrep qt (nextqid s + 2) (Q(nextqid s := []))"
proof -
  let ?q = "nextqid s" and ?t = "queuetab s"
  let ?qt = "?t(?q := ?t ?q\<lparr>qnext := ?q + 1, qprev := EMPTY, qkey := MAXKEY\<rparr>,
                ?q + 1 := ?t (?q + 1)\<lparr>qnext := EMPTY, qprev := ?q, qkey := MINKEY\<rparr>)"
  have ev: "even ?q" "NPROC \<le> ?q" using R by (auto simp: qrep_def)
  have ids: "qids (?q + 2) = insert ?q (qids ?q)"
    using ev unfolding qids_def by auto presburger+
  have old: "dlist ?qt q (Q q)" if q: "q \<in> qids ?q" for q
  proof -
    from R q have dl: "dlist ?t q (Q q)" by (rule qrep_dlist)
    have "q < ?q" "q + 1 < ?q" using q ev unfolding qids_def by (auto; presburger)+
    moreover have "\<forall>p \<in> set (Q q). p < ?q" using dl ev by (force simp: dlist_def)
    ultimately have "?qt x = ?t x" if "x \<in> set (q # Q q @ [q + 1])" for x using that by auto
    then have "dlist ?qt q (Q q) = dlist ?t q (Q q)" by (rule dlist_cong)
    with dl show ?thesis by simp
  qed
  have "dlist ?qt ?q []" by (simp add: dlist_def)
  with R old have "qrep ?qt (?q + 2) (Q(?q := []))"
    using l ev unfolding qrep_def ids by (auto simp: qids_def)
  moreover have "newqueue s = (?q, s\<lparr>queuetab := ?qt, nextqid := ?q + 2\<rparr>)"
    using l by (simp add: newqueue_def upd_q_def queuehead_def queuetail_def Let_def)
  ultimately show ?thesis by (rule that [rotated])
qed

section \<open>The abstraction function\<close>

text \<open>
  The contents of a queue read off the table, following \<open>qnext\<close> from the head for at most
  \<open>NPROC\<close> steps (a queue of distinct processes is never longer).
\<close>

fun qwalk :: "(int \<Rightarrow> qentry) \<Rightarrow> nat \<Rightarrow> int \<Rightarrow> int list" where
  "qwalk qt 0 x = []"
| "qwalk qt (Suc n) x = (if x < 0 \<or> NPROC \<le> x then [] else x # qwalk qt n (qnext (qt x)))"

definition queue_list :: "(int \<Rightarrow> qentry) \<Rightarrow> int \<Rightarrow> int list" where
  "queue_list qt q = qwalk qt 100 (qnext (qt q))"

definition queues_ok :: "'a ks \<Rightarrow> bool" where
  "queues_ok s \<longleftrightarrow> qrep (queuetab s) (nextqid s) (queue_list (queuetab s))"

lemma qwalk_links:
  "links qt (u # ps @ [t]) \<Longrightarrow> set ps \<subseteq> {0..<NPROC} \<Longrightarrow> NPROC \<le> t \<Longrightarrow> length ps \<le> n \<Longrightarrow>
   qwalk qt n (qnext (qt u)) = ps"
proof (induction ps arbitrary: u n)
  case Nil
  then show ?case by (cases n) auto
next
  case (Cons p ps)
  then show ?case by (cases n) auto
qed

lemma queue_list_dlist:
  assumes "dlist qt q ps" "NPROC \<le> q"
  shows "queue_list qt q = ps"
proof -
  have "card (set ps) \<le> card {0..<NPROC}"
    by (rule card_mono) (use assms(1) in \<open>auto simp: dlist_def\<close>)
  then have "length ps \<le> 100" using assms(1) by (simp add: dlist_def distinct_card)
  with assms show ?thesis
    unfolding queue_list_def by (intro qwalk_links [where t = "q + 1"]) (auto simp: dlist_def)
qed

lemma queue_list_qrep: "qrep qt lim Q \<Longrightarrow> q \<in> qids lim \<Longrightarrow> queue_list qt q = Q q"
  by (rule queue_list_dlist) (auto simp: qrep_def qids_def)

lemma qrep_cong:
  assumes "qrep qt lim Q" "\<And>q. q \<in> qids lim \<Longrightarrow> Q q = Q' q"
  shows "qrep qt lim Q'"
  using assms by (simp add: qrep_def)

lemma queues_okI: "qrep (queuetab s) (nextqid s) Q \<Longrightarrow> queues_ok s"
  unfolding queues_ok_def using qrep_cong queue_list_qrep by metis

section \<open>The FIFO interface\<close>

text \<open>
  What a client of a first-in first-out queue relies on: an item that may be added goes
  to the end, the item taken is the oldest one. \<open>take_n\<close> takes \<open>n\<close> items, \<open>add_all\<close>
  adds a list of them.
\<close>

fun take_n :: "('s \<Rightarrow> 'b \<times> 's) \<Rightarrow> nat \<Rightarrow> 's \<Rightarrow> 'b list \<times> 's" where
  "take_n deq 0 s = ([], s)"
| "take_n deq (Suc n) s =
     (case deq s of (x, s') \<Rightarrow> (case take_n deq n s' of (xs, s'') \<Rightarrow> (x # xs, s'')))"

definition add_all :: "('b \<Rightarrow> 's \<Rightarrow> 's) \<Rightarrow> 'b list \<Rightarrow> 's \<Rightarrow> 's" where
  "add_all enq xs s = fold enq xs s"

locale fifo =
  fixes enq :: "'b \<Rightarrow> 's \<Rightarrow> 's"
    and deq :: "'s \<Rightarrow> 'b \<times> 's"
    and contents :: "'s \<Rightarrow> 'b list"
    and ok :: "'s \<Rightarrow> bool"
    and fresh :: "'b \<Rightarrow> 's \<Rightarrow> bool"
  assumes enq_ok: "ok s \<Longrightarrow> fresh x s \<Longrightarrow> ok (enq x s)"
    and enq_contents: "ok s \<Longrightarrow> fresh x s \<Longrightarrow> contents (enq x s) = contents s @ [x]"
    and enq_fresh: "ok s \<Longrightarrow> fresh x s \<Longrightarrow> fresh y s \<Longrightarrow> x \<noteq> y \<Longrightarrow> fresh y (enq x s)"
    and deq_ok: "ok s \<Longrightarrow> contents s \<noteq> [] \<Longrightarrow> ok (snd (deq s))"
    and deq_item: "ok s \<Longrightarrow> contents s \<noteq> [] \<Longrightarrow> fst (deq s) = hd (contents s)"
    and deq_contents: "ok s \<Longrightarrow> contents s \<noteq> [] \<Longrightarrow> contents (snd (deq s)) = tl (contents s)"
begin

lemma add_all_contents:
  "ok s \<Longrightarrow> distinct xs \<Longrightarrow> \<forall>x \<in> set xs. fresh x s \<Longrightarrow>
   ok (add_all enq xs s) \<and> contents (add_all enq xs s) = contents s @ xs"
proof (induction xs arbitrary: s)
  case (Cons x xs)
  then show ?case
    by (simp add: add_all_def) (metis enq_ok enq_contents enq_fresh append.assoc append_Cons append_Nil)
qed (simp add: add_all_def)

lemma take_n_contents:
  "ok s \<Longrightarrow> n \<le> length (contents s) \<Longrightarrow>
   fst (take_n deq n s) = take n (contents s) \<and> ok (snd (take_n deq n s)) \<and>
   contents (snd (take_n deq n s)) = drop n (contents s)"
proof (induction n arbitrary: s)
  case (Suc n)
  then have ne: "contents s \<noteq> []" by auto
  note d = deq_ok [OF Suc.prems(1) ne] deq_item [OF Suc.prems(1) ne] deq_contents [OF Suc.prems(1) ne]
  have "n \<le> length (contents (snd (deq s)))" using Suc.prems ne d(3) by (cases "contents s") auto
  from Suc.IH [OF d(1) this] d ne show ?case
    by (cases "contents s") (auto split: prod.splits)
qed simp

lemma served_in_order:
  assumes "ok s" "distinct xs" "\<forall>x \<in> set xs. fresh x s"
  shows "fst (take_n deq (length (contents s) + length xs) (add_all enq xs s)) = contents s @ xs"
  using add_all_contents [OF assms] take_n_contents [of "add_all enq xs s" "length (contents s) + length xs"]
  by simp

end

definition can_enqueue :: "int \<Rightarrow> 'a ks \<Rightarrow> bool" where
  "can_enqueue pid s \<longleftrightarrow> \<not> isbadpid pid s \<and>
     in_no_queue pid (nextqid s) (queue_list (queuetab s))"

definition has_queue :: "int \<Rightarrow> 'a ks \<Rightarrow> bool" where
  "has_queue q s \<longleftrightarrow> queues_ok s \<and> q \<in> qids (nextqid s)"

text \<open>\<open>enqueue\<close> and \<open>dequeue\<close> on the abstraction function.\<close>

lemma enqueue_abs:
  assumes "has_queue q s" "can_enqueue pid s"
  obtains qt where "enqueue pid q s = (pid, s\<lparr>queuetab := qt\<rparr>)" "has_queue q (s\<lparr>queuetab := qt\<rparr>)"
    "\<forall>r \<in> qids (nextqid s). queue_list qt r =
       ((queue_list (queuetab s))(q := queue_list (queuetab s) q @ [pid])) r"
proof -
  from assms obtain qt where e: "enqueue pid q s = (pid, s\<lparr>queuetab := qt\<rparr>)"
    and r: "qrep qt (nextqid s) ((queue_list (queuetab s))(q := queue_list (queuetab s) q @ [pid]))"
    unfolding has_queue_def queues_ok_def can_enqueue_def
    using enqueue_qrep [of s "queue_list (queuetab s)" q pid] by blast
  from r have "queues_ok (s\<lparr>queuetab := qt\<rparr>)" by (auto intro!: queues_okI)
  with assms(1) have "has_queue q (s\<lparr>queuetab := qt\<rparr>)" by (simp add: has_queue_def)
  with e queue_list_qrep [OF r] show ?thesis by (intro that) auto
qed

lemma dequeue_abs:
  assumes "has_queue q s" "queue_list (queuetab s) q = p # ps"
  obtains qt where "dequeue q s = (p, s\<lparr>queuetab := qt\<rparr>)" "has_queue q (s\<lparr>queuetab := qt\<rparr>)"
    "\<forall>r \<in> qids (nextqid s). queue_list qt r = ((queue_list (queuetab s))(q := ps)) r"
proof -
  from assms obtain qt where e: "dequeue q s = (p, s\<lparr>queuetab := qt\<rparr>)"
    and r: "qrep qt (nextqid s) ((queue_list (queuetab s))(q := ps))"
    unfolding has_queue_def queues_ok_def
    using dequeue_qrep [of s "queue_list (queuetab s)" q p ps] by blast
  from r have "queues_ok (s\<lparr>queuetab := qt\<rparr>)" by (auto intro!: queues_okI)
  with assms(1) have "has_queue q (s\<lparr>queuetab := qt\<rparr>)" by (simp add: has_queue_def)
  with e queue_list_qrep [OF r] show ?thesis by (intro that) auto
qed

interpretation pq: fifo "\<lambda>pid s. snd (enqueue pid q s)" "dequeue q" "\<lambda>s. queue_list (queuetab s) q"
  "has_queue q" can_enqueue
  for q :: int
proof
  fix s :: "'a ks" and x y :: int
  assume hq: "has_queue q s" and fr: "can_enqueue x s"
  then have qi: "q \<in> qids (nextqid s)" by (simp add: has_queue_def)
  obtain qt where e: "enqueue x q s = (x, s\<lparr>queuetab := qt\<rparr>)" "has_queue q (s\<lparr>queuetab := qt\<rparr>)"
    and l: "\<forall>r \<in> qids (nextqid s). queue_list qt r =
       ((queue_list (queuetab s))(q := queue_list (queuetab s) q @ [x])) r"
    using enqueue_abs [OF hq fr] by blast
  from e show "has_queue q (snd (enqueue x q s))" by simp
  from e l qi show "queue_list (queuetab (snd (enqueue x q s))) q = queue_list (queuetab s) q @ [x]"
    by simp
  assume "can_enqueue y s" "x \<noteq> y"
  with e l show "can_enqueue y (snd (enqueue x q s))"
    by (auto simp: can_enqueue_def in_no_queue_def isbadpid_def)
next
  fix s :: "'a ks"
  assume hq: "has_queue q s" and ne: "queue_list (queuetab s) q \<noteq> []"
  then obtain p ps where Qq: "queue_list (queuetab s) q = p # ps" by (cases "queue_list (queuetab s) q") auto
  from hq have qi: "q \<in> qids (nextqid s)" by (simp add: has_queue_def)
  obtain qt where "dequeue q s = (p, s\<lparr>queuetab := qt\<rparr>)" "has_queue q (s\<lparr>queuetab := qt\<rparr>)"
    and "\<forall>r \<in> qids (nextqid s). queue_list qt r = ((queue_list (queuetab s))(q := ps)) r"
    using dequeue_abs [OF hq Qq] by blast
  with Qq qi show "has_queue q (snd (dequeue q s))" "fst (dequeue q s) = hd (queue_list (queuetab s) q)"
    "queue_list (queuetab (snd (dequeue q s))) q = tl (queue_list (queuetab s) q)"
    by auto
qed

end
