(* ===== verification/Scheduler.thy ===== *)
theory Scheduler
  imports Queues
begin

text \<open>
  Scheduling: \<^verbatim>\<open>system/resched.c\<close>, \<^verbatim>\<open>ready.c\<close>, \<^verbatim>\<open>resume.c\<close>, \<^verbatim>\<open>suspend.c\<close>, \<^verbatim>\<open>chprio.c\<close>,
  \<^verbatim>\<open>getprio.c\<close>, \<^verbatim>\<open>getpid.c\<close>, \<^verbatim>\<open>yield.c\<close>. Kernel operations run with interrupts disabled, so
  each is one atomic state change. A context switch is the change of \<open>currpid\<close>: the caller
  of \<open>resched\<close> goes on when it is dispatched again. An operation that does something after it
  may have been switched out returns \<open>Ret\<close> when it went on at once, and \<open>Blocked\<close> when it was
  switched out; what it does when it is resumed is a definition of its own.

  The invariant \<open>kbase X s Q\<close> ties the process states to the queues the processes are in;
  the processes of \<open>X\<close> are between two queues.
\<close>

datatype 'v ctl = Ret 'v | Blocked | Halted

section \<open>Operations\<close>

definition resched :: "'a ks \<Rightarrow> 'a ks option" where
  "resched s =
     (if ndefers s > 0 then Some (s\<lparr>attempt := True\<rparr>)
      else
        let ptold = currpid s in
        if prstate (proctab s ptold) = PR_CURR \<and> prprio (proctab s ptold) > firstkey (readylist s) s
        then Some s
        else do {
          s \<leftarrow> (if prstate (proctab s ptold) = PR_CURR
                then do {
                  let s = upd_proc ptold (\<lambda>p. p\<lparr>prstate := PR_READY\<rparr>) s;
                  (_, s) \<leftarrow> insertq (currpid s) (readylist s) (prprio (proctab s ptold)) s;
                  Some s
                }
                else Some s);
          let (pid, s) = dequeue (readylist s) s;
          let s = s\<lparr>currpid := pid\<rparr>;
          let s = upd_proc pid (\<lambda>p. p\<lparr>prstate := PR_CURR\<rparr>) s;
          Some (s\<lparr>preempt := QUANTUM\<rparr>)
        })"

abbreviation (input) DEFER_START :: int where "DEFER_START \<equiv> 1"
abbreviation (input) DEFER_STOP :: int where "DEFER_STOP \<equiv> 2"

definition resched_cntl :: "int \<Rightarrow> 'a ks \<Rightarrow> (int \<times> 'a ks) option" where
  "resched_cntl defer s =
     (if defer = DEFER_START then
        let n = ndefers s; s = s\<lparr>ndefers := n + 1\<rparr>
        in Some (OK, if n = 0 then s\<lparr>attempt := False\<rparr> else s)
      else if defer = DEFER_STOP then
        if ndefers s \<le> 0 then Some (SYSERR, s)
        else do {
          let s = s\<lparr>ndefers := ndefers s - 1\<rparr>;
          s \<leftarrow> (if ndefers s = 0 \<and> attempt s then resched s else Some s);
          Some (OK, s)
        }
      else Some (SYSERR, s))"

definition ready :: "int \<Rightarrow> 'a ks \<Rightarrow> (int \<times> 'a ks) option" where
  "ready pid s =
     (if isbadpid pid s then Some (SYSERR, s)
      else do {
        let s = upd_proc pid (\<lambda>p. p\<lparr>prstate := PR_READY\<rparr>) s;
        (_, s) \<leftarrow> insertq pid (readylist s) (prprio (proctab s pid)) s;
        s \<leftarrow> resched s;
        Some (OK, s)
      })"

definition resume :: "int \<Rightarrow> 'a ks \<Rightarrow> (int \<times> 'a ks) option" where
  "resume pid s =
     (if isbadpid pid s then Some (SYSERR, s)
      else if prstate (proctab s pid) \<noteq> PR_SUSP then Some (SYSERR, s)
      else do {
        let prio = prprio (proctab s pid);
        (_, s) \<leftarrow> ready pid s;
        Some (prio, s)
      })"

definition suspend :: "int \<Rightarrow> 'a ks \<Rightarrow> (int ctl \<times> 'a ks) option" where
  "suspend pid s =
     (if isbadpid pid s \<or> pid = NULLPROC then Some (Ret SYSERR, s)
      else if prstate (proctab s pid) \<noteq> PR_CURR \<and> prstate (proctab s pid) \<noteq> PR_READY
      then Some (Ret SYSERR, s)
      else if prstate (proctab s pid) = PR_READY then
        let (_, s) = getitem pid s;
            s = upd_proc pid (\<lambda>p. p\<lparr>prstate := PR_SUSP\<rparr>) s
        in Some (Ret (prprio (proctab s pid)), s)
      else do {
        let cur = currpid s;
        s \<leftarrow> resched (upd_proc pid (\<lambda>p. p\<lparr>prstate := PR_SUSP\<rparr>) s);
        Some (if currpid s = cur then Ret (prprio (proctab s pid)) else Blocked, s)
      })"

text \<open>What a process that suspended itself returns once it is resumed.\<close>

definition suspend_resume :: "int \<Rightarrow> 'a ks \<Rightarrow> int \<times> 'a ks" where
  "suspend_resume pid s = (prprio (proctab s pid), s)"

definition chprio :: "int \<Rightarrow> int \<Rightarrow> 'a ks \<Rightarrow> int \<times> 'a ks" where
  "chprio pid newprio s =
     (if isbadpid pid s then (SYSERR, s)
      else
        let oldprio = prprio (proctab s pid)
        in (oldprio, upd_proc pid (\<lambda>p. p\<lparr>prprio := newprio\<rparr>) s))"

definition getprio :: "int \<Rightarrow> 'a ks \<Rightarrow> int" where
  "getprio pid s = (if isbadpid pid s then SYSERR else prprio (proctab s pid))"

definition getpid :: "'a ks \<Rightarrow> int" where
  "getpid s = currpid s"

definition yield :: "'a ks \<Rightarrow> (int \<times> 'a ks) option" where
  "yield s = do {
     s \<leftarrow> resched s;
     Some (OK, s)
   }"

section \<open>The invariant\<close>

text \<open>
  \<open>wiring s\<close>: the ready list, the sleep queue and the semaphore queues are different queues
  of the table. It mentions no field the operations change.
\<close>

definition kqueues :: "'a ks \<Rightarrow> int set" where
  "kqueues s = {readylist s, sleepq s} \<union> (\<lambda>i. squeue (semtab s i)) ` {0..<NSEM}"

definition wiring :: "'a ks \<Rightarrow> bool" where
  "wiring s \<longleftrightarrow> kqueues s \<subseteq> qids (nextqid s) \<and> readylist s \<noteq> sleepq s \<and>
     (\<forall>i \<in> {0..<NSEM}. squeue (semtab s i) \<noteq> readylist s \<and> squeue (semtab s i) \<noteq> sleepq s) \<and>
     inj_on (\<lambda>i. squeue (semtab s i)) {0..<NSEM}"

text \<open>Where a process in state \<open>st\<close> (waiting on semaphore \<open>sem\<close>) is queued.\<close>

definition belongs :: "'a ks \<Rightarrow> procent \<Rightarrow> int \<Rightarrow> bool" where
  "belongs s p q \<longleftrightarrow>
     (case prstate p of
        PR_READY \<Rightarrow> q = readylist s
      | PR_SLEEP \<Rightarrow> q = sleepq s
      | PR_RECTIM \<Rightarrow> q = sleepq s
      | PR_WAIT \<Rightarrow> 0 \<le> prsem p \<and> prsem p < NSEM \<and> q = squeue (semtab s (prsem p))
      | _ \<Rightarrow> False)"

definition kbase :: "int set \<Rightarrow> 'a ks \<Rightarrow> (int \<Rightarrow> int list) \<Rightarrow> bool" where
  "kbase X s Q \<longleftrightarrow> qrep (queuetab s) (nextqid s) Q \<and> wiring s \<and>
     (\<forall>p \<in> {0..<NPROC}. \<forall>q \<in> qids (nextqid s).
        p \<in> set (Q q) \<longleftrightarrow> p \<notin> X \<and> belongs s (proctab s p) q) \<and>
     (\<forall>p \<in> {0..<NPROC} - X. prstate (proctab s p) = PR_WAIT \<longrightarrow>
        0 \<le> prsem (proctab s p) \<and> prsem (proctab s p) < NSEM) \<and>
     key_order (\<lambda>p. qkey (queuetab s p)) (Q (readylist s)) \<and>
     (\<forall>p \<in> set (Q (sleepq s)). 0 \<le> qkey (queuetab s p)) \<and>
     (\<forall>p \<in> {0..<NPROC}. MINKEY < prprio (proctab s p)) \<and>
     (\<forall>p \<in> {0..<NPROC}. prstate (proctab s p) = PR_CURR \<longrightarrow> p = currpid s) \<and>
     currpid s \<in> {0..<NPROC} \<and>
     prstate (proctab s NULLPROC) \<in> {PR_CURR, PR_READY} \<and> NULLPROC \<notin> X"

lemma kbaseD:
  assumes "kbase X s Q"
  shows "qrep (queuetab s) (nextqid s) Q" "wiring s"
    "p \<in> {0..<NPROC} \<Longrightarrow> q \<in> qids (nextqid s) \<Longrightarrow> p \<in> set (Q q) \<longleftrightarrow> p \<notin> X \<and> belongs s (proctab s p) q"
    "key_order (\<lambda>p. qkey (queuetab s p)) (Q (readylist s))"
    "currpid s \<in> {0..<NPROC}" "NULLPROC \<notin> X"
    "p \<in> {0..<NPROC} \<Longrightarrow> prstate (proctab s p) = PR_CURR \<Longrightarrow> p = currpid s"
    "p \<in> {0..<NPROC} \<Longrightarrow> MINKEY < prprio (proctab s p)"
    "readylist s \<in> qids (nextqid s)" "sleepq s \<in> qids (nextqid s)"
    "i \<in> {0..<NSEM} \<Longrightarrow> squeue (semtab s i) \<in> qids (nextqid s)"
  using assms by (auto simp: kbase_def wiring_def kqueues_def)

lemma kbase_members: "kbase X s Q \<Longrightarrow> q \<in> qids (nextqid s) \<Longrightarrow> set (Q q) \<subseteq> {0..<NPROC}"
  by (auto simp: kbase_def qrep_def dlist_def)

lemma belongs_inj: "wiring s \<Longrightarrow> belongs s p q \<Longrightarrow> belongs s p q' \<Longrightarrow> q = q'"
  by (auto simp: belongs_def split: prstate.splits)

lemma belongs_cong:
  "readylist s' = readylist s \<Longrightarrow> sleepq s' = sleepq s \<Longrightarrow>
   (\<And>i. squeue (semtab s' i) = squeue (semtab s i)) \<Longrightarrow> belongs s' p q = belongs s p q"
  by (simp add: belongs_def split: prstate.splits)

lemma wiring_cong:
  "readylist s' = readylist s \<Longrightarrow> sleepq s' = sleepq s \<Longrightarrow> nextqid s' = nextqid s \<Longrightarrow>
   (\<And>i. squeue (semtab s' i) = squeue (semtab s i)) \<Longrightarrow> wiring s' = wiring s"
  by (simp add: wiring_def kqueues_def)

text \<open>The states in which a process is in no queue.\<close>

definition unqueued :: "prstate \<Rightarrow> bool" where
  "unqueued st \<longleftrightarrow> st \<notin> {PR_READY, PR_SLEEP, PR_RECTIM, PR_WAIT}"

lemma unqueued_simps [simp]:
  "unqueued PR_FREE" "unqueued PR_CURR" "unqueued PR_SUSP" "unqueued PR_RECV"
  "\<not> unqueued PR_READY" "\<not> unqueued PR_SLEEP" "\<not> unqueued PR_RECTIM" "\<not> unqueued PR_WAIT"
  by (simp_all add: unqueued_def)

lemma unqueued_belongs: "unqueued (prstate p) \<Longrightarrow> \<not> belongs s p q"
  by (auto simp: unqueued_def belongs_def split: prstate.splits)

lemma kbase_no_queue:
  assumes "kbase X s Q" "p \<in> {0..<NPROC}" "p \<in> X \<or> unqueued (prstate (proctab s p))"
  shows "in_no_queue p (nextqid s) Q"
  using assms kbaseD(3) [OF assms(1,2)] unqueued_belongs by (auto simp: in_no_queue_def)

text \<open>
  Changing one process and one queue together. All operations below are instances: the
  process joins the queue its new state belongs to, or leaves the one it was in.
\<close>

lemma kbase_move:
  assumes K: "kbase X s Q" and q: "qrep qt (nextqid s) Q'" and p: "p \<in> {0..<NPROC}"
    and s': "proctab s' = (proctab s)(p := e)" "queuetab s' = qt" "nextqid s' = nextqid s"
      "readylist s' = readylist s" "sleepq s' = sleepq s" "\<And>i. squeue (semtab s' i) = squeue (semtab s i)"
    and o: "\<And>r x. r \<in> qids (nextqid s) \<Longrightarrow> x \<noteq> p \<Longrightarrow> x \<in> set (Q' r) \<longleftrightarrow> x \<in> set (Q r)"
    and me: "\<And>r. r \<in> qids (nextqid s) \<Longrightarrow> p \<in> set (Q' r) \<longleftrightarrow> p \<notin> X' \<and> belongs s e r"
    and X: "X' - {p} = X - {p}" "NULLPROC \<notin> X'"
    and w: "p \<notin> X' \<Longrightarrow> prstate e = PR_WAIT \<Longrightarrow> 0 \<le> prsem e \<and> prsem e < NSEM"
    and ko: "key_order (\<lambda>p. qkey (qt p)) (Q' (readylist s))"
    and sk: "\<And>x. x \<in> set (Q' (sleepq s)) \<Longrightarrow> 0 \<le> qkey (qt x)"
    and pr: "MINKEY < prprio e"
    and cu: "\<And>x. x \<in> {0..<NPROC} \<Longrightarrow> x \<noteq> p \<Longrightarrow> prstate (proctab s x) = PR_CURR \<Longrightarrow> x = currpid s'"
      "prstate e = PR_CURR \<Longrightarrow> p = currpid s'" "currpid s' \<in> {0..<NPROC}"
    and nl: "p = NULLPROC \<Longrightarrow> prstate e \<in> {PR_CURR, PR_READY}"
  shows "kbase X' s' Q'"
proof -
  have b: "belongs s' = belongs s" by (intro ext belongs_cong) (use s' in auto)
  have "wiring s' = wiring s" by (rule wiring_cong) (use s' in auto)
  then have "qrep (queuetab s') (nextqid s') Q' \<and> wiring s'"
    using q s'(2,3) kbaseD(2) [OF K] by simp
  moreover have "\<forall>x \<in> {0..<NPROC}. \<forall>r \<in> qids (nextqid s').
      x \<in> set (Q' r) \<longleftrightarrow> x \<notin> X' \<and> belongs s' (proctab s' x) r"
  proof (intro ballI)
    fix x r assume x: "x \<in> {0..<NPROC}" and r: "r \<in> qids (nextqid s')"
    show "x \<in> set (Q' r) \<longleftrightarrow> x \<notin> X' \<and> belongs s' (proctab s' x) r"
    proof (cases "x = p")
      case True
      then show ?thesis using me r s' b by simp
    next
      case False
      then show ?thesis using o [of r x] kbaseD(3) [OF K x, of r] r s' b X by auto
    qed
  qed
  moreover have "\<forall>x \<in> {0..<NPROC} - X'. prstate (proctab s' x) = PR_WAIT \<longrightarrow>
      0 \<le> prsem (proctab s' x) \<and> prsem (proctab s' x) < NSEM"
    using K w X s'(1) by (auto simp: kbase_def)
  moreover have "\<forall>x \<in> {0..<NPROC}. MINKEY < prprio (proctab s' x)"
    using kbaseD(8) [OF K] pr s'(1) by auto
  moreover have "\<forall>x \<in> {0..<NPROC}. prstate (proctab s' x) = PR_CURR \<longrightarrow> x = currpid s'"
  proof (intro ballI impI)
    fix x assume x: "x \<in> {0..<NPROC}" "prstate (proctab s' x) = PR_CURR"
    show "x = currpid s'"
      by (cases "x = p") (use x s'(1) cu(1) [of x] cu(2) in simp_all)
  qed
  moreover have "prstate (proctab s' NULLPROC) \<in> {PR_CURR, PR_READY}"
    using K nl s'(1) by (auto simp: kbase_def)
  moreover have "key_order (\<lambda>p. qkey (queuetab s' p)) (Q' (readylist s'))"
    using ko s'(2,4) by simp
  moreover have "\<forall>x \<in> set (Q' (sleepq s')). 0 \<le> qkey (queuetab s' x)"
    using sk s'(2,5) by simp
  ultimately show ?thesis
    using cu(3) X(2) unfolding kbase_def by blast
qed

section \<open>Readying, dispatching, rescheduling\<close>

lemma key_order_tl: "key_order k (p # ps) \<Longrightarrow> key_order k ps"
  by (simp add: key_order_def)

lemma key_order_hd: "key_order k (p # ps) \<Longrightarrow> x \<in> set ps \<Longrightarrow> k x \<le> k p"
  by (simp add: key_order_def)

lemma upd_proc_simps [simp]:
  "queuetab (upd_proc p f s) = queuetab s" "nextqid (upd_proc p f s) = nextqid s"
  "readylist (upd_proc p f s) = readylist s" "sleepq (upd_proc p f s) = sleepq s"
  "semtab (upd_proc p f s) = semtab s" "currpid (upd_proc p f s) = currpid s"
  "ndefers (upd_proc p f s) = ndefers s" "attempt (upd_proc p f s) = attempt s"
  "proctab (upd_proc p f s) = (proctab s)(p := f (proctab s p))" "mem (upd_proc p f s) = mem s"
  by (simp_all add: upd_proc_def)

lemma insert_ready:
  assumes K: "kbase X s Q" and p: "p \<in> {0..<NPROC}" "p \<in> X \<or> unqueued (prstate (proctab s p))"
    and s1: "s1 = upd_proc p (\<lambda>p. p\<lparr>prstate := PR_READY\<rparr>) s"
    and prio: "prio = prprio (proctab s p)"
  obtains qt where "insertq p (readylist s) prio s1 = Some (OK, s1\<lparr>queuetab := qt\<rparr>)"
    "kbase (X - {p}) (s1\<lparr>queuetab := qt\<rparr>)
       (Q(readylist s := pri_insert (\<lambda>x. qkey (queuetab s x)) prio p (Q (readylist s))))"
    "\<forall>x. qkey (qt x) = (if x = p then prio else qkey (queuetab s x))"
proof -
  let ?r = "readylist s" and ?k = "\<lambda>x. qkey (queuetab s x)"
  let ?L = "pri_insert ?k prio p (Q ?r)"
  note D = kbaseD [OF K]
  have nq: "in_no_queue p (nextqid s) Q" by (rule kbase_no_queue [OF K p])
  then have pr: "p \<notin> set (Q ?r)" "p \<notin> set (Q (sleepq s))" using D(9,10) by (auto simp: in_no_queue_def)
  have bp: "\<not> isbadpid p s1" using p(1) by (simp add: isbadpid_def s1)
  have q1: "qrep (queuetab s1) (nextqid s1) Q" using D(1) s1 by simp
  have rq: "?r \<in> qids (nextqid s1)" using D(9) s1 by simp
  have nq1: "in_no_queue p (nextqid s1) Q" using nq s1 by simp
  have mk: "MINKEY < prio" using D(8) [OF p(1)] prio by simp
  obtain qt where i: "insertq p ?r prio s1 = Some (OK, s1\<lparr>queuetab := qt\<rparr>)"
    and q1: "qrep qt (nextqid s1) (Q(?r := pri_insert (\<lambda>x. qkey (queuetab s1 x)) prio p (Q ?r)))"
    and k1: "\<forall>x. qkey (qt x) = (if x = p then prio else qkey (queuetab s1 x))"
    using insertq_qrep [OF q1 rq bp nq1 mk] by blast
  have q: "qrep qt (nextqid s) (Q(?r := ?L))" and k: "\<forall>x. qkey (qt x) = (if x = p then prio else ?k x)"
    using q1 k1 s1 by simp_all
  have rs: "?r \<noteq> sleepq s" using D(2) by (simp add: wiring_def)
  have kb: "kbase (X - {p}) (s1\<lparr>queuetab := qt\<rparr>) (Q(?r := ?L))"
  proof (rule kbase_move [OF K q p(1), where e = "(proctab s p)\<lparr>prstate := PR_READY\<rparr>"])
    show "x \<in> set ((Q(?r := ?L)) r) \<longleftrightarrow> x \<in> set (Q r)" if "x \<noteq> p" for r x using that by simp
    show "p \<in> set ((Q(?r := ?L)) r) \<longleftrightarrow> p \<notin> X - {p} \<and> belongs s ((proctab s p)\<lparr>prstate := PR_READY\<rparr>) r"
      if "r \<in> qids (nextqid s)" for r
      using nq that by (auto simp: belongs_def in_no_queue_def)
    have "key_order (?k(p := prio)) ?L" by (rule key_order_pri_insert [OF D(4) pr(1)])
    moreover have "(\<lambda>x. qkey (qt x)) = ?k(p := prio)" using k by auto
    ultimately show "key_order (\<lambda>x. qkey (qt x)) ((Q(?r := ?L)) ?r)" by simp
    show "0 \<le> qkey (qt x)" if "x \<in> set ((Q(?r := ?L)) (sleepq s))" for x
      using that rs k pr(2) K by (auto simp: kbase_def)
    show "MINKEY < prprio ((proctab s p)\<lparr>prstate := PR_READY\<rparr>)" using D(8) [OF p(1)] by simp
    show "x = currpid (s1\<lparr>queuetab := qt\<rparr>)"
      if "x \<in> {0..<NPROC}" "x \<noteq> p" "prstate (proctab s x) = PR_CURR" for x
      using D(7) [OF that(1,3)] s1 by simp
  qed (use s1 D(5,6) in \<open>auto simp: upd_proc_def\<close>)
  from i kb k show ?thesis by (rule that)
qed

text \<open>Taking the head of the ready list and dispatching it.\<close>

lemma dispatch:
  assumes K: "kbase X s Q" and Qr: "Q (readylist s) = p # ps"
    and nc: "\<And>x. x \<in> {0..<NPROC} \<Longrightarrow> prstate (proctab s x) \<noteq> PR_CURR"
  obtains qt where "dequeue (readylist s) s = (p, s\<lparr>queuetab := qt\<rparr>)"
    "kbase X (upd_proc p (\<lambda>p. p\<lparr>prstate := PR_CURR\<rparr>) (s\<lparr>queuetab := qt, currpid := p, preempt := t\<rparr>))
       (Q(readylist s := ps))"
    "\<forall>x. qkey (qt x) = qkey (queuetab s x)"
proof -
  let ?r = "readylist s" and ?e = "(proctab s p)\<lparr>prstate := PR_CURR\<rparr>"
  note D = kbaseD [OF K]
  obtain qt where d: "dequeue ?r s = (p, s\<lparr>queuetab := qt\<rparr>)"
    and q: "qrep qt (nextqid s) (Q(?r := ps))" and k: "\<forall>x. qkey (qt x) = qkey (queuetab s x)"
    using dequeue_qrep [OF D(1,9) Qr] by blast
  have p: "p \<in> {0..<NPROC}" using kbase_members [OF K D(9)] Qr by auto
  have dist: "p \<notin> set ps" using qrep_dlist [OF D(1,9)] Qr by (auto simp: dlist_def)
  have pb: "p \<notin> X" "belongs s (proctab s p) ?r" using D(3) [OF p D(9)] Qr by simp_all
  let ?s' = "upd_proc p (\<lambda>p. p\<lparr>prstate := PR_CURR\<rparr>) (s\<lparr>queuetab := qt, currpid := p, preempt := t\<rparr>)"
  have kb: "kbase X ?s' (Q(?r := ps))"
  proof (rule kbase_move [OF K q p, where e = ?e])
    show "x \<in> set ((Q(?r := ps)) r) \<longleftrightarrow> x \<in> set (Q r)" if "x \<noteq> p" for r x using that Qr by simp
    show "p \<in> set ((Q(?r := ps)) r) \<longleftrightarrow> p \<notin> X \<and> belongs s ?e r" if r: "r \<in> qids (nextqid s)" for r
    proof -
      have "p \<notin> set ((Q(?r := ps)) r)"
        using dist D(3) [OF p r] pb belongs_inj [OF D(2) pb(2), of r] by auto
      then show ?thesis by (simp add: unqueued_belongs)
    qed
    show "key_order (\<lambda>x. qkey (qt x)) ((Q(?r := ps)) ?r)" using D(4) Qr k key_order_tl by simp
    show "0 \<le> qkey (qt x)" if "x \<in> set ((Q(?r := ps)) (sleepq s))" for x
      using that k D(2) K by (auto simp: kbase_def wiring_def)
    show "x = currpid ?s'" if "x \<in> {0..<NPROC}" "x \<noteq> p" "prstate (proctab s x) = PR_CURR" for x
      using nc that by blast
  qed (use D(6) D(8) [OF p] p in \<open>auto simp: upd_proc_def\<close>)
  from d kb k show ?thesis by (rule that)
qed

text \<open>What rescheduling may change: the ready list, and the processes it moves on and off it.\<close>

definition sched_frame :: "'a ks \<Rightarrow> (int \<Rightarrow> int list) \<Rightarrow> 'a ks \<Rightarrow> (int \<Rightarrow> int list) \<Rightarrow> bool" where
  "sched_frame s Q s' Q' \<longleftrightarrow>
     s' = s\<lparr>queuetab := queuetab s', proctab := proctab s', currpid := currpid s',
            preempt := preempt s', attempt := attempt s'\<rparr> \<and>
     (\<forall>p. proctab s' p = (proctab s p)\<lparr>prstate := prstate (proctab s' p)\<rparr>) \<and>
     (\<forall>p. prstate (proctab s' p) \<noteq> prstate (proctab s p) \<longrightarrow>
        {prstate (proctab s p), prstate (proctab s' p)} \<subseteq> {PR_READY, PR_CURR}) \<and>
     (\<forall>q. q \<noteq> readylist s \<longrightarrow> Q' q = Q q) \<and>
     (\<forall>p. prstate (proctab s p) \<noteq> PR_CURR \<longrightarrow> qkey (queuetab s' p) = qkey (queuetab s p)) \<and>
     (\<forall>p. prstate (proctab s p) = PR_CURR \<longrightarrow> prstate (proctab s' p) = PR_READY \<longrightarrow>
        qkey (queuetab s' p) = prprio (proctab s p))"

lemma sched_frame_refl [simp]: "sched_frame s Q s Q"
  by (simp add: sched_frame_def)

lemma firstkey_Nil: "dlist (queuetab s) q [] \<Longrightarrow> firstkey q s = MINKEY"
  by (simp add: firstkey_def firstid_Nil dlist_def)

lemma firstkey_Cons: "dlist (queuetab s) q (p # ps) \<Longrightarrow> firstkey q s = qkey (queuetab s p)"
  by (simp add: firstkey_def firstid_Cons)

lemma ready_has_null:
  assumes K: "kbase X s Q" and nc: "prstate (proctab s (currpid s)) \<noteq> PR_CURR"
  shows "NULLPROC \<in> set (Q (readylist s))"
proof -
  note D = kbaseD [OF K]
  have "prstate (proctab s NULLPROC) \<noteq> PR_CURR" using D(7) [of NULLPROC] nc by auto
  then have "prstate (proctab s NULLPROC) = PR_READY" using K by (auto simp: kbase_def)
  then show ?thesis using D(3) [of NULLPROC "readylist s"] D(6,9) by (auto simp: belongs_def)
qed

lemma sched_frame_state:
  assumes "sched_frame s Q s' Q'" "prstate (proctab s p) \<notin> {PR_READY, PR_CURR}"
  shows "prstate (proctab s' p) = prstate (proctab s p)"
  using assms unfolding sched_frame_def by blast

lemma sched_frameI:
  assumes "s' = s\<lparr>queuetab := qt, proctab := pt, currpid := c, preempt := t, attempt := a\<rparr>"
    and "\<And>p. pt p = (proctab s p)\<lparr>prstate := prstate (pt p)\<rparr>"
    and "\<And>p. prstate (pt p) \<noteq> prstate (proctab s p) \<Longrightarrow>
        {prstate (proctab s p), prstate (pt p)} \<subseteq> {PR_READY, PR_CURR}"
    and "\<And>q. q \<noteq> readylist s \<Longrightarrow> Q' q = Q q"
    and "\<And>p. prstate (proctab s p) \<noteq> PR_CURR \<Longrightarrow> qkey (qt p) = qkey (queuetab s p)"
    and "\<And>p. prstate (proctab s p) = PR_CURR \<Longrightarrow> prstate (pt p) = PR_READY \<Longrightarrow>
        qkey (qt p) = prprio (proctab s p)"
  shows "sched_frame s Q s' Q'"
  using assms unfolding sched_frame_def by simp

text \<open>The list the dispatcher takes its head from.\<close>

definition candidates :: "'a ks \<Rightarrow> (int \<Rightarrow> int list) \<Rightarrow> int list" where
  "candidates s Q =
     (if prstate (proctab s (currpid s)) = PR_CURR
      then pri_insert (\<lambda>x. qkey (queuetab s x)) (prprio (proctab s (currpid s))) (currpid s) (Q (readylist s))
      else Q (readylist s))"

lemma belongs_ready: "wiring s \<Longrightarrow> belongs s e (readylist s) \<longleftrightarrow> prstate e = PR_READY"
  by (force simp: belongs_def wiring_def split: prstate.splits)

lemma belongs_sleep: "wiring s \<Longrightarrow> belongs s e (sleepq s) \<longleftrightarrow> prstate e = PR_SLEEP \<or> prstate e = PR_RECTIM"
  by (force simp: belongs_def wiring_def split: prstate.splits)

lemma belongs_sem: "wiring s \<Longrightarrow> i \<in> {0..<NSEM} \<Longrightarrow>
   belongs s e (squeue (semtab s i)) \<longleftrightarrow> prstate e = PR_WAIT \<and> prsem e = i"
  by (force simp: belongs_def wiring_def inj_on_def split: prstate.splits)

lemma candidates_state:
  assumes "kbase X s Q" "p \<in> set (candidates s Q)" "p \<noteq> currpid s"
  shows "prstate (proctab s p) = PR_READY"
proof -
  note D = kbaseD [OF assms(1)]
  have p: "p \<in> set (Q (readylist s))" using assms(2,3) by (auto simp: candidates_def split: if_splits)
  then have "p \<in> {0..<NPROC}" using kbase_members [OF assms(1) D(9)] by auto
  from D(3) [OF this D(9)] p belongs_ready [OF D(2)] show ?thesis by simp
qed

lemma candidates_not_Nil: "kbase X s Q \<Longrightarrow> candidates s Q \<noteq> []"
  using ready_has_null [of X s Q] by (auto simp: candidates_def pri_insert_def)

lemma resched_switch:
  assumes K: "kbase {} s Q" and nd: "\<not> ndefers s > 0"
    and sw: "\<not> (prstate (proctab s (currpid s)) = PR_CURR \<and>
      prprio (proctab s (currpid s)) > firstkey (readylist s) s)"
  obtains s' where "resched s = Some s'" "kbase {} s' (Q(readylist s := tl (candidates s Q)))"
    "sched_frame s Q s' (Q(readylist s := tl (candidates s Q)))"
    "currpid s' = hd (candidates s Q)" "prstate (proctab s' (currpid s')) = PR_CURR"
    "preempt s' = QUANTUM"
proof -
  let ?c = "currpid s" and ?r = "readylist s"
  note D = kbaseD [OF K]
  obtain p ps where cd: "candidates s Q = p # ps" using candidates_not_Nil [OF K] by (cases "candidates s Q") auto
  have pst: "p \<noteq> ?c \<Longrightarrow> prstate (proctab s p) = PR_READY" "p = ?c \<Longrightarrow> prstate (proctab s p) \<noteq> PR_CURR \<Longrightarrow>
      prstate (proctab s p) = PR_READY"
  proof -
    show "p \<noteq> ?c \<Longrightarrow> prstate (proctab s p) = PR_READY" using candidates_state [OF K, of p] cd by simp
    assume p: "p = ?c" "prstate (proctab s p) \<noteq> PR_CURR"
    then have "p \<in> set (Q ?r)" using cd by (simp add: candidates_def)
    with D(3) [OF D(5,9)] belongs_ready [OF D(2)] p show "prstate (proctab s p) = PR_READY" by simp
  qed
  show ?thesis
  proof (cases "prstate (proctab s ?c) = PR_CURR")
    case True
    let ?s1 = "upd_proc ?c (\<lambda>p. p\<lparr>prstate := PR_READY\<rparr>) s"
    let ?prio = "prprio (proctab s ?c)"
    obtain qt where i: "insertq ?c ?r ?prio ?s1 = Some (OK, ?s1\<lparr>queuetab := qt\<rparr>)"
      and k1: "kbase {} (?s1\<lparr>queuetab := qt\<rparr>) (Q(?r := candidates s Q))"
      and kq: "\<forall>x. qkey (qt x) = (if x = ?c then ?prio else qkey (queuetab s x))"
      using insert_ready [OF K D(5) _ refl refl] True unfolding candidates_def by auto
    let ?s2 = "?s1\<lparr>queuetab := qt\<rparr>"
    have Qr: "(Q(?r := candidates s Q)) (readylist ?s2) = p # ps" using cd by simp
    have nc: "prstate (proctab ?s2 x) \<noteq> PR_CURR" if "x \<in> {0..<NPROC}" for x
      using D(7) [OF that] by auto
    let ?s' = "\<lambda>qt2. upd_proc p (\<lambda>p. p\<lparr>prstate := PR_CURR\<rparr>)
        (?s2\<lparr>queuetab := qt2, currpid := p, preempt := QUANTUM\<rparr>)"
    obtain qt2 where d: "dequeue ?r ?s2 = (p, ?s2\<lparr>queuetab := qt2\<rparr>)"
      and k2: "kbase {} (?s' qt2) (Q(?r := ps))" and kq2: "\<forall>x. qkey (qt2 x) = qkey (qt x)"
      using dispatch [where Q = "Q(?r := candidates s Q)" and t = QUANTUM, OF k1 Qr nc] by auto
    show ?thesis
    proof (rule that [of "?s' qt2"])
      show "resched s = Some (?s' qt2)"
        using nd sw True i d by (simp add: resched_def upd_proc_def Let_def)
      show "sched_frame s Q (?s' qt2) (Q(?r := tl (candidates s Q)))"
        by (rule sched_frameI [where qt = qt2 and c = p and t = QUANTUM and a = "attempt s"
              and pt = "((proctab s)(?c := (proctab s ?c)\<lparr>prstate := PR_READY\<rparr>))
                (p := ((proctab s)(?c := (proctab s ?c)\<lparr>prstate := PR_READY\<rparr>)) p\<lparr>prstate := PR_CURR\<rparr>)"])
          (use True kq kq2 D(7) pst in \<open>auto simp: upd_proc_def split: if_splits\<close>)
    qed (use k2 cd in \<open>simp_all add: upd_proc_def\<close>)
  next
    case False
    have Qr: "Q ?r = p # ps" using cd False by (simp add: candidates_def)
    have nc: "prstate (proctab s x) \<noteq> PR_CURR" if "x \<in> {0..<NPROC}" for x
      using D(7) [OF that] False by auto
    let ?s' = "\<lambda>qt2. upd_proc p (\<lambda>p. p\<lparr>prstate := PR_CURR\<rparr>)
        (s\<lparr>queuetab := qt2, currpid := p, preempt := QUANTUM\<rparr>)"
    obtain qt2 where d: "dequeue ?r s = (p, s\<lparr>queuetab := qt2\<rparr>)"
      and k2: "kbase {} (?s' qt2) (Q(?r := ps))" and kq2: "\<forall>x. qkey (qt2 x) = qkey (queuetab s x)"
      using dispatch [OF K Qr nc, of QUANTUM] by auto
    show ?thesis
    proof (rule that [of "?s' qt2"])
      show "resched s = Some (?s' qt2)"
        using nd False d by (simp add: resched_def upd_proc_def Let_def)
      show "sched_frame s Q (?s' qt2) (Q(?r := tl (candidates s Q)))"
        by (rule sched_frameI [where qt = qt2 and c = p and t = QUANTUM and a = "attempt s"
              and pt = "(proctab s)(p := proctab s p\<lparr>prstate := PR_CURR\<rparr>)"])
          (use kq2 pst False in \<open>auto simp: upd_proc_def split: if_splits\<close>)
    qed (use k2 cd in \<open>simp_all add: upd_proc_def\<close>)
  qed
qed

lemma resched_stay:
  assumes K: "kbase {} s Q" and st: "prstate (proctab s (currpid s)) = PR_CURR"
    "prprio (proctab s (currpid s)) > firstkey (readylist s) s"
  shows "\<forall>p \<in> set (Q (readylist s)). qkey (queuetab s p) < prprio (proctab s (currpid s))"
proof -
  note D = kbaseD [OF K]
  have dl: "dlist (queuetab s) (readylist s) (Q (readylist s))" by (rule qrep_dlist [OF D(1,9)])
  show ?thesis
  proof (cases "Q (readylist s)")
    case (Cons p ps)
    then have "firstkey (readylist s) s = qkey (queuetab s p)" using dl by (simp add: firstkey_Cons)
    with st(2) D(4) Cons key_order_hd show ?thesis by fastforce
  qed simp
qed

text \<open>Rescheduling under the invariant always returns, and keeps it.\<close>

lemma resched_ok:
  assumes K: "kbase {} s Q"
  obtains s' Q' where "resched s = Some s'" "kbase {} s' Q'" "sched_frame s Q s' Q'"
    "ndefers s > 0 \<longrightarrow> s' = s\<lparr>attempt := True\<rparr> \<and> Q' = Q"
    "\<not> ndefers s > 0 \<longrightarrow> prstate (proctab s' (currpid s')) = PR_CURR"
proof (cases "ndefers s > 0")
  case True
  have "kbase {} (s\<lparr>attempt := True\<rparr>) Q"
    using K belongs_cong [of "s\<lparr>attempt := True\<rparr>" s] wiring_cong [of "s\<lparr>attempt := True\<rparr>" s]
    by (simp add: kbase_def)
  then show ?thesis
    using True by (intro that [of "s\<lparr>attempt := True\<rparr>" Q]) (auto simp: resched_def sched_frame_def)
next
  case nd: False
  show ?thesis
  proof (cases "prstate (proctab s (currpid s)) = PR_CURR \<and>
      prprio (proctab s (currpid s)) > firstkey (readylist s) s")
    case True
    then have "resched s = Some s" using nd by (simp add: resched_def)
    then show ?thesis using K True nd by (intro that [of s Q]) auto
  next
    case False
    from resched_switch [OF K nd False] obtain s' where
      "resched s = Some s'" "kbase {} s' (Q(readylist s := tl (candidates s Q)))"
      "sched_frame s Q s' (Q(readylist s := tl (candidates s Q)))"
      "prstate (proctab s' (currpid s')) = PR_CURR" by blast
    then show ?thesis using nd by (intro that) auto
  qed
qed

text \<open>
  \<open>ops_frame\<close>: what every operation of this file leaves alone: all scalars but those of the
  scheduler, the semaphore table, everything of a process but its state, the other queues.
\<close>

definition ops_frame :: "'a ks \<Rightarrow> (int \<Rightarrow> int list) \<Rightarrow> 'a ks \<Rightarrow> (int \<Rightarrow> int list) \<Rightarrow> bool" where
  "ops_frame s Q s' Q' \<longleftrightarrow>
     s' = s\<lparr>queuetab := queuetab s', proctab := proctab s', currpid := currpid s',
            preempt := preempt s', attempt := attempt s'\<rparr> \<and>
     (\<forall>p. proctab s' p = (proctab s p)\<lparr>prstate := prstate (proctab s' p)\<rparr>) \<and>
     (\<forall>q. q \<noteq> readylist s \<longrightarrow> Q' q = Q q)"

lemma ops_frame_refl [simp]: "ops_frame s Q s Q"
  by (simp add: ops_frame_def)

lemma sched_ops_frame: "sched_frame s Q s' Q' \<Longrightarrow> ops_frame s Q s' Q'"
  unfolding sched_frame_def ops_frame_def by blast

lemma ops_frameD:
  assumes "ops_frame s Q s' Q'"
  shows "semtab s' = semtab s" "readylist s' = readylist s" "sleepq s' = sleepq s"
    "nextqid s' = nextqid s" "ndefers s' = ndefers s" "mem s' = mem s"
    "prsem (proctab s' p) = prsem (proctab s p)" "prprio (proctab s' p) = prprio (proctab s p)"
    "q \<noteq> readylist s \<Longrightarrow> Q' q = Q q"
proof -
  have e: "s' = s\<lparr>queuetab := queuetab s', proctab := proctab s', currpid := currpid s',
            preempt := preempt s', attempt := attempt s'\<rparr>"
    and p: "proctab s' p = (proctab s p)\<lparr>prstate := prstate (proctab s' p)\<rparr>" for p
    using assms unfolding ops_frame_def by blast+
  show "semtab s' = semtab s" by (subst e) simp
  show "readylist s' = readylist s" by (subst e) simp
  show "sleepq s' = sleepq s" by (subst e) simp
  show "nextqid s' = nextqid s" by (subst e) simp
  show "ndefers s' = ndefers s" by (subst e) simp
  show "mem s' = mem s" by (subst e) simp
  show "prsem (proctab s' p) = prsem (proctab s p)" by (subst p) simp
  show "prprio (proctab s' p) = prprio (proctab s p)" by (subst p) simp
  show "q \<noteq> readylist s \<Longrightarrow> Q' q = Q q" using assms unfolding ops_frame_def by blast
qed

lemma ops_frame_trans:
  assumes "ops_frame s Q s1 Q1" "ops_frame s1 Q1 s2 Q2"
  shows "ops_frame s Q s2 Q2"
proof -
  note A = assms [unfolded ops_frame_def]
  have "readylist s1 = readylist s" by (rule ops_frameD(2) [OF assms(1)])
  moreover have "s2 = s\<lparr>queuetab := queuetab s2, proctab := proctab s2, currpid := currpid s2,
            preempt := preempt s2, attempt := attempt s2\<rparr>"
    by (subst conjunct1 [OF A(2)], subst conjunct1 [OF A(1)]) simp
  moreover have "proctab s2 p = (proctab s p)\<lparr>prstate := prstate (proctab s2 p)\<rparr>" for p
  proof -
    have "proctab s2 p = (proctab s1 p)\<lparr>prstate := prstate (proctab s2 p)\<rparr>" using A(2) by blast
    also have "\<dots> = ((proctab s p)\<lparr>prstate := prstate (proctab s1 p)\<rparr>)\<lparr>prstate := prstate (proctab s2 p)\<rparr>"
      using A(1) by metis
    finally show ?thesis by simp
  qed
  ultimately show ?thesis using A unfolding ops_frame_def by metis
qed

text \<open>\<open>ready\<close> for a process that is in no queue.\<close>

lemma ready_ok:
  assumes K: "kbase X s Q" and p: "p \<in> {0..<NPROC}" "prstate (proctab s p) \<noteq> PR_FREE"
    and X: "X - {p} = {}" "p \<in> X \<or> unqueued (prstate (proctab s p))"
  obtains s' Q' where "ready p s = Some (OK, s')" "kbase {} s' Q'" "ops_frame s Q s' Q'"
    "ndefers s > 0 \<longrightarrow> currpid s' = currpid s \<and> attempt s' = True \<and>
       proctab s' = (proctab s)(p := (proctab s p)\<lparr>prstate := PR_READY\<rparr>) \<and>
       Q' = Q(readylist s := pri_insert (\<lambda>x. qkey (queuetab s x)) (prprio (proctab s p)) p (Q (readylist s))) \<and>
       (\<forall>x. x \<noteq> p \<longrightarrow> qkey (queuetab s' x) = qkey (queuetab s x))"
    "\<not> ndefers s > 0 \<longrightarrow> prstate (proctab s' (currpid s')) = PR_CURR"
    "prstate (proctab s' p) \<in> {PR_READY, PR_CURR} \<and>
     (\<forall>x. x \<noteq> p \<longrightarrow> prstate (proctab s x) \<notin> {PR_READY, PR_CURR} \<longrightarrow>
        prstate (proctab s' x) = prstate (proctab s x))"
proof -
  let ?s1 = "upd_proc p (\<lambda>p. p\<lparr>prstate := PR_READY\<rparr>) s"
  let ?Q1 = "Q(readylist s := pri_insert (\<lambda>x. qkey (queuetab s x)) (prprio (proctab s p)) p (Q (readylist s)))"
  obtain qt where i: "insertq p (readylist s) (prprio (proctab s p)) ?s1 = Some (OK, ?s1\<lparr>queuetab := qt\<rparr>)"
    and k1: "kbase {} (?s1\<lparr>queuetab := qt\<rparr>) ?Q1"
    and kq: "\<forall>x. qkey (qt x) = (if x = p then prprio (proctab s p) else qkey (queuetab s x))"
    using insert_ready [OF K p(1) X(2) refl refl] unfolding X(1) by blast
  obtain s' Q' where r: "resched (?s1\<lparr>queuetab := qt\<rparr>) = Some s'" "kbase {} s' Q'"
    "sched_frame (?s1\<lparr>queuetab := qt\<rparr>) ?Q1 s' Q'"
    "ndefers (?s1\<lparr>queuetab := qt\<rparr>) > 0 \<longrightarrow> s' = ?s1\<lparr>queuetab := qt\<rparr>\<lparr>attempt := True\<rparr> \<and> Q' = ?Q1"
    "\<not> ndefers (?s1\<lparr>queuetab := qt\<rparr>) > 0 \<longrightarrow> prstate (proctab s' (currpid s')) = PR_CURR"
    using resched_ok [OF k1] by blast
  have "\<not> isbadpid p s" using p by (simp add: isbadpid_def)
  then have "ready p s = Some (OK, s')" using i r(1) by (simp add: ready_def Let_def)
  moreover have "ops_frame s Q (?s1\<lparr>queuetab := qt\<rparr>) ?Q1"
    by (auto simp: ops_frame_def upd_proc_def)
  from ops_frame_trans [OF this sched_ops_frame [OF r(3)]] have "ops_frame s Q s' Q'" .
  moreover have "prstate (proctab s' p) \<in> {PR_READY, PR_CURR}"
  proof (rule ccontr)
    assume n: "prstate (proctab s' p) \<notin> {PR_READY, PR_CURR}"
    have "prstate (proctab (?s1\<lparr>queuetab := qt\<rparr>) p) = PR_READY" by simp
    with n r(3) show False unfolding sched_frame_def by (metis insert_subset insertI1)
  qed
  moreover have "prstate (proctab s' x) = prstate (proctab s x)"
    if "x \<noteq> p" "prstate (proctab s x) \<notin> {PR_READY, PR_CURR}" for x
    using sched_frame_state [OF r(3), of x] that by simp
  ultimately show ?thesis using r(2,4,5) kq by (intro that) auto
qed

text \<open>A process leaves its queue; a process in no queue changes its entry.\<close>

lemma kbase_leave:
  assumes K: "kbase X s Q" and q: "q \<in> qids (nextqid s)" "Q q = us @ p # vs"
    and R: "qrep qt (nextqid s) (Q(q := us @ vs))" and p: "p \<noteq> NULLPROC"
    and kr: "\<And>x. x \<in> set (Q (readylist s)) \<Longrightarrow> qkey (qt x) = qkey (queuetab s x)"
    and ks: "\<And>x. x \<in> set ((Q(q := us @ vs)) (sleepq s)) \<Longrightarrow> 0 \<le> qkey (qt x)"
  shows "kbase (insert p X) (s\<lparr>queuetab := qt\<rparr>) (Q(q := us @ vs))"
proof -
  note D = kbaseD [OF K]
  have pr: "p \<in> {0..<NPROC}" using kbase_members [OF K q(1)] q(2) by auto
  have pb: "p \<notin> X" "belongs s (proctab s p) q" using D(3) [OF pr q(1)] q(2) by auto
  have dist: "p \<notin> set (us @ vs)" using qrep_dlist [OF D(1) q(1)] q(2) by (auto simp: dlist_def)
  show ?thesis
  proof (rule kbase_move [OF K R pr, where e = "proctab s p"])
    show "x \<in> set ((Q(q := us @ vs)) r) \<longleftrightarrow> x \<in> set (Q r)" if "x \<noteq> p" for r x
      using that q(2) by auto
    show "p \<in> set ((Q(q := us @ vs)) r) \<longleftrightarrow> p \<notin> insert p X \<and> belongs s (proctab s p) r"
      if r: "r \<in> qids (nextqid s)" for r
      using dist D(3) [OF pr r] belongs_inj [OF D(2) pb(2), of r] by auto
    have "key_order (\<lambda>p. qkey (queuetab s p)) ((Q(q := us @ vs)) (readylist s))"
      using D(4) q(2) by (auto simp: key_order_def sorted_wrt_append)
    moreover have "set ((Q(q := us @ vs)) (readylist s)) \<subseteq> set (Q (readylist s))" using q(2) by auto
    ultimately show "key_order (\<lambda>p. qkey (qt p)) ((Q(q := us @ vs)) (readylist s))"
      using key_order_cong [of "(Q(q := us @ vs)) (readylist s)" "\<lambda>p. qkey (qt p)" "\<lambda>p. qkey (queuetab s p)"] kr
      by blast
    show "x = currpid (s\<lparr>queuetab := qt\<rparr>)"
      if "x \<in> {0..<NPROC}" "x \<noteq> p" "prstate (proctab s x) = PR_CURR" for x
      using D(7) [OF that(1,3)] by simp
    show "prstate (proctab s p) = PR_CURR \<Longrightarrow> p = currpid (s\<lparr>queuetab := qt\<rparr>)"
      using D(7) [OF pr] by simp
  qed (use p ks D(5,6) D(8) [OF pr] in auto)
qed

lemma kbase_set_proc:
  assumes K: "kbase X s Q" and p: "p \<in> {0..<NPROC}" "p \<noteq> NULLPROC"
    "p \<in> X \<or> unqueued (prstate (proctab s p))"
    and e: "unqueued (prstate (f (proctab s p)))" "prstate (f (proctab s p)) \<noteq> PR_CURR"
    "MINKEY < prprio (f (proctab s p))"
  shows "kbase (X - {p}) (upd_proc p f s) Q"
proof -
  note D = kbaseD [OF K]
  have nq: "in_no_queue p (nextqid s) Q" by (rule kbase_no_queue [OF K p(1,3)])
  show ?thesis
  proof (rule kbase_move [OF K D(1) p(1), where e = "f (proctab s p)"])
    show "p \<in> set (Q r) \<longleftrightarrow> p \<notin> X - {p} \<and> belongs s (f (proctab s p)) r"
      if "r \<in> qids (nextqid s)" for r
      using nq that unqueued_belongs [OF e(1)] by (auto simp: in_no_queue_def)
    show "x = currpid (upd_proc p f s)"
      if "x \<in> {0..<NPROC}" "x \<noteq> p" "prstate (proctab s x) = PR_CURR" for x
      using D(7) [OF that(1,3)] by simp
  qed (use p e K D(4-6) in \<open>auto simp: kbase_def\<close>)
qed

section \<open>The invariant between kernel calls\<close>

text \<open>
  \<open>sem_ok\<close>: a semaphore in use with a negative count has that many waiting processes, any
  other has none. \<open>kinv\<close> is the invariant of a kernel at rest: the caller is the one
  current process, and no rescheduling is deferred.
\<close>

definition sem_ok :: "'a ks \<Rightarrow> (int \<Rightarrow> int list) \<Rightarrow> bool" where
  "sem_ok s Q \<longleftrightarrow> (\<forall>i \<in> {0..<NSEM}. length (Q (squeue (semtab s i))) =
     (if sstate (semtab s i) = S_USED then nat (- scount (semtab s i)) else 0))"

definition running :: "'a ks \<Rightarrow> (int \<Rightarrow> int list) \<Rightarrow> bool" where
  "running s Q \<longleftrightarrow> kbase {} s Q \<and> sem_ok s Q \<and> prstate (proctab s (currpid s)) = PR_CURR \<and> ndefers s = 0"

definition kinv :: "'a ks \<Rightarrow> bool" where
  "kinv s \<longleftrightarrow> running s (queue_list (queuetab s))"

lemma kbase_cong_Q:
  assumes "kbase X s Q" "\<And>q. q \<in> qids (nextqid s) \<Longrightarrow> Q q = Q' q"
  shows "kbase X s Q'"
proof -
  note D = kbaseD [OF assms(1)]
  have "Q' (readylist s) = Q (readylist s)" "Q' (sleepq s) = Q (sleepq s)" using D(9,10) assms(2) by auto
  moreover have "qrep (queuetab s) (nextqid s) Q'" by (rule qrep_cong [OF D(1) assms(2)])
  ultimately show ?thesis using assms unfolding kbase_def by simp
qed

lemma running_cong_Q:
  assumes R: "running s Q" and e: "\<And>q. q \<in> qids (nextqid s) \<Longrightarrow> Q q = Q' q"
  shows "running s Q'"
proof -
  from R have K: "kbase {} s Q" by (simp add: running_def)
  note D = kbaseD [OF K]
  have "Q' (squeue (semtab s i)) = Q (squeue (semtab s i))" if "i \<in> {0..<NSEM}" for i
    using e [OF D(11) [OF that]] by simp
  with R kbase_cong_Q [OF K e] show ?thesis by (simp add: running_def sem_ok_def)
qed

lemma running_kinv: "running s Q \<Longrightarrow> kinv s"
  unfolding kinv_def
  by (rule running_cong_Q, assumption)
    (auto simp: running_def kbase_def dest!: queue_list_qrep)

lemma sem_ok_frame:
  assumes "sem_ok s Q" "wiring s" "ops_frame s Q s' Q'"
  shows "sem_ok s' Q'"
  using assms ops_frameD(1,9) [OF assms(3)] by (simp add: sem_ok_def wiring_def)

lemma kinv_running: "kinv s \<Longrightarrow> running s (queue_list (queuetab s))"
  by (simp add: kinv_def)

lemma runningD:
  assumes "running s Q"
  shows "kbase {} s Q" "sem_ok s Q" "prstate (proctab s (currpid s)) = PR_CURR" "ndefers s = 0"
    "wiring s"
  using assms kbaseD(2) by (auto simp: running_def)

text \<open>The invariant reads only the tables and queue ids.\<close>

lemma kbase_fields:
  assumes "queuetab s' = queuetab s" "nextqid s' = nextqid s" "readylist s' = readylist s"
    "sleepq s' = sleepq s" "\<And>i. squeue (semtab s' i) = squeue (semtab s i)" "proctab s' = proctab s"
    "currpid s' = currpid s"
  shows "kbase X s' Q = kbase X s Q"
proof -
  have "belongs s' = belongs s" by (intro ext belongs_cong) (use assms in auto)
  moreover have "wiring s' = wiring s" by (rule wiring_cong) (use assms in auto)
  ultimately show ?thesis using assms by (simp add: kbase_def)
qed

lemma kbase_scalar [simp]:
  "kbase X (s\<lparr>ndefers := n\<rparr>) Q = kbase X s Q" "kbase X (s\<lparr>attempt := a\<rparr>) Q = kbase X s Q"
  "kbase X (s\<lparr>preempt := t\<rparr>) Q = kbase X s Q" "kbase X (s\<lparr>mem := m\<rparr>) Q = kbase X s Q"
  "kbase X (s\<lparr>clktime := t\<rparr>) Q = kbase X s Q" "kbase X (s\<lparr>count1000 := t\<rparr>) Q = kbase X s Q"
  "kbase X (s\<lparr>nextsem := i\<rparr>) Q = kbase X s Q" "kbase X (s\<lparr>prcount := i\<rparr>) Q = kbase X s Q"
  "kbase X (s\<lparr>nextpid := i\<rparr>) Q = kbase X s Q"
  by (rule kbase_fields; simp)+

lemma kbase_upd_sem: "(\<And>e. squeue (f e) = squeue e) \<Longrightarrow> kbase X (upd_sem i f s) Q = kbase X s Q"
  by (rule kbase_fields) (simp_all add: upd_sem_def)

lemma defer_start:
  "ndefers s = 0 \<Longrightarrow> resched_cntl DEFER_START s = Some (OK, s\<lparr>ndefers := 1, attempt := False\<rparr>)"
  by (simp add: resched_cntl_def Let_def)

section \<open>Each operation keeps the invariant\<close>

lemma resched_running:
  assumes K: "kbase {} s Q" "sem_ok s Q" "ndefers s = 0"
  obtains s' Q' where "resched s = Some s'" "running s' Q'" "ops_frame s Q s' Q'"
proof -
  obtain s' Q' where r: "resched s = Some s'" "kbase {} s' Q'" "sched_frame s Q s' Q'"
    "prstate (proctab s' (currpid s')) = PR_CURR"
    using resched_ok [OF K(1)] K(3) by (metis less_irrefl)
  have f: "ops_frame s Q s' Q'" by (rule sched_ops_frame [OF r(3)])
  have "running s' Q'"
    using r sem_ok_frame [OF K(2) kbaseD(2) [OF K(1)] f] ops_frameD(5) [OF f] K(3)
    by (simp add: running_def)
  with r(1) f show ?thesis by (intro that)
qed

lemma ready_running:
  assumes K: "kbase X s Q" "sem_ok s Q" "ndefers s = 0"
    and p: "p \<in> {0..<NPROC}" "prstate (proctab s p) \<noteq> PR_FREE"
    and X: "X - {p} = {}" "p \<in> X \<or> unqueued (prstate (proctab s p))"
  obtains s' Q' where "ready p s = Some (OK, s')" "running s' Q'" "ops_frame s Q s' Q'"
proof -
  obtain s' Q' where r: "ready p s = Some (OK, s')" "kbase {} s' Q'" "ops_frame s Q s' Q'"
    "prstate (proctab s' (currpid s')) = PR_CURR"
    using ready_ok [OF K(1) p X] K(3) by (metis less_irrefl)
  then have "running s' Q'"
    using sem_ok_frame [OF K(2) kbaseD(2) [OF K(1)] r(3)] ops_frameD(5) [OF r(3)] K(3)
    by (simp add: running_def)
  with r show ?thesis by (intro that)
qed

lemma defer_stop:
  assumes K: "kbase {} s Q" "sem_ok s Q" and n: "ndefers s = 1"
    and c: "prstate (proctab s (currpid s)) = PR_CURR"
  obtains s' Q' where "resched_cntl DEFER_STOP s = Some (OK, s')" "running s' Q'"
    "ops_frame (s\<lparr>ndefers := 0\<rparr>) Q s' Q'" "sched_frame (s\<lparr>ndefers := 0\<rparr>) Q s' Q'"
proof (cases "attempt s")
  case True
  let ?s = "s\<lparr>ndefers := 0\<rparr>"
  have k: "kbase {} ?s Q" "sem_ok ?s Q" using K by (simp_all add: sem_ok_def)
  obtain s' Q' where r: "resched ?s = Some s'" "kbase {} s' Q'" "sched_frame ?s Q s' Q'"
    "\<not> ndefers ?s > 0 \<longrightarrow> prstate (proctab s' (currpid s')) = PR_CURR"
    using resched_ok [OF k(1)] by blast
  note fr = sched_ops_frame [OF r(3)]
  have "running s' Q'"
    using r sem_ok_frame [OF k(2) kbaseD(2) [OF k(1)] fr] ops_frameD(5) [OF fr]
    by (simp add: running_def)
  with r(1,3) fr True n show ?thesis by (intro that) (auto simp: resched_cntl_def)
next
  case False
  then show ?thesis using K n c
    by (intro that [of "s\<lparr>ndefers := 0\<rparr>" Q]) (auto simp: resched_cntl_def running_def sem_ok_def)
qed

text \<open>
  The contract the kernel calls share: under the invariant a call returns, and keeps it. The
  lemmas are what a caller gets from it: whatever is reached by allowed calls satisfies the
  invariant, and every call allowed there returns.
\<close>

inductive reaches :: "('c \<Rightarrow> 's \<Rightarrow> ('r \<times> 's) option) \<Rightarrow> ('c \<Rightarrow> 's \<Rightarrow> bool) \<Rightarrow> 's \<Rightarrow> 's \<Rightarrow> bool"
  for call allowed s where
  here: "reaches call allowed s s"
| call: "reaches call allowed s t \<Longrightarrow> allowed c t \<Longrightarrow> call c t = Some (r, t') \<Longrightarrow> reaches call allowed s t'"

inductive_cases reachesE: "reaches call allowed s t"

locale kernel_call =
  fixes call :: "'c \<Rightarrow> 's \<Rightarrow> ('r \<times> 's) option"
    and allowed :: "'c \<Rightarrow> 's \<Rightarrow> bool"
    and inv :: "'s \<Rightarrow> bool"
  assumes keeps: "inv s \<Longrightarrow> allowed c s \<Longrightarrow> \<exists>r s'. call c s = Some (r, s') \<and> inv s'"
begin

lemma call_SomeD: "inv s \<Longrightarrow> allowed c s \<Longrightarrow> call c s = Some (r, s') \<Longrightarrow> inv s'"
  using keeps by fastforce

lemma reaches_inv: "reaches call allowed s t \<Longrightarrow> inv s \<Longrightarrow> inv t"
  by (induction rule: reaches.induct) (auto intro: call_SomeD)

lemma reaches_progress:
  "reaches call allowed s t \<Longrightarrow> inv s \<Longrightarrow> allowed c t \<Longrightarrow> \<exists>r t'. call c t = Some (r, t') \<and> reaches call allowed s t'"
  using keeps [OF reaches_inv] reaches.call by meson

lemma reaches_trans:
  assumes "reaches call allowed t u" "reaches call allowed s t"
  shows "reaches call allowed s u"
  using assms by (induction rule: reaches.induct) (auto intro: reaches.call)

end

lemma yield_kinv: "kinv s \<Longrightarrow> \<exists>s'. yield s = Some (OK, s') \<and> kinv s'"
proof -
  assume "kinv s"
  note R = runningD [OF kinv_running [OF this]]
  obtain s' Q' where "resched s = Some s'" "running s' Q'" using resched_running [OF R(1,2,4)] by blast
  then show ?thesis by (simp add: yield_def running_kinv)
qed

lemma resume_ok:
  assumes I: "kinv s" and p: "\<not> isbadpid pid s" "prstate (proctab s pid) = PR_SUSP"
  obtains s' Q' where "resume pid s = Some (prprio (proctab s pid), s')" "running s' Q'"
    "ops_frame s (queue_list (queuetab s)) s' Q'"
proof -
  note R = runningD [OF kinv_running [OF I]]
  have pr: "pid \<in> {0..<NPROC}" using p by (auto simp: isbadpid_def)
  obtain s' Q' where "ready pid s = Some (OK, s')" "running s' Q'"
    "ops_frame s (queue_list (queuetab s)) s' Q'"
    using ready_running [OF R(1,2,4) pr] p(2) by auto
  then show ?thesis using p by (intro that) (auto simp: resume_def Let_def)
qed

lemma resume_kinv: "kinv s \<Longrightarrow> \<exists>r s'. resume pid s = Some (r, s') \<and> kinv s'"
proof (cases "isbadpid pid s \<or> prstate (proctab s pid) \<noteq> PR_SUSP")
  case False
  assume "kinv s"
  from resume_ok [OF this, of pid] False obtain s' Q' where
    "resume pid s = Some (prprio (proctab s pid), s')" "running s' Q'" by blast
  then show ?thesis using running_kinv by blast
qed (auto simp: resume_def)

text \<open>Suspending a ready process takes it off the ready list; the rest of the list stays.\<close>

lemma suspend_ready:
  assumes I: "kinv s" and p: "pid \<noteq> NULLPROC" "\<not> isbadpid pid s" "prstate (proctab s pid) = PR_READY"
  obtains s' where "suspend pid s = Some (Ret (prprio (proctab s pid)), s')"
    "running s' ((queue_list (queuetab s))
       (readylist s := remove1 pid (queue_list (queuetab s) (readylist s))))"
    "proctab s' = (proctab s)(pid := (proctab s pid)\<lparr>prstate := PR_SUSP\<rparr>)" "currpid s' = currpid s"
proof -
  let ?Q = "queue_list (queuetab s)" and ?r = "readylist s"
  note R = runningD [OF kinv_running [OF I]]
  note D = kbaseD [OF R(1)]
  have pr: "pid \<in> {0..<NPROC}" using p by (auto simp: isbadpid_def)
  have pin: "pid \<in> set (?Q ?r)" using D(3) [OF pr D(9)] belongs_ready [OF D(2)] p(3) by simp
  obtain qt where g: "getitem pid s = (pid, s\<lparr>queuetab := qt\<rparr>)"
    and q: "qrep qt (nextqid s) (?Q(?r := remove1 pid (?Q ?r)))" and k: "\<forall>x. qkey (qt x) = qkey (queuetab s x)"
    using getitem_qrep [OF D(1,9) pin] by blast
  from pin obtain us vs where uv: "?Q ?r = us @ pid # vs" "pid \<notin> set us" by (metis split_list_first)
  then have rem: "remove1 pid (?Q ?r) = us @ vs" by (simp add: remove1_append)
  let ?s1 = "s\<lparr>queuetab := qt\<rparr>" and ?Q1 = "?Q(?r := us @ vs)"
  have k1: "kbase {pid} ?s1 ?Q1"
    using kbase_leave [OF R(1) D(9) uv(1), of qt] q p(1) k R(1) unfolding rem
    by (auto simp: kbase_def wiring_def)
  let ?f = "\<lambda>p. p\<lparr>prstate := PR_SUSP\<rparr>"
  let ?s2 = "upd_proc pid ?f ?s1"
  have k2: "kbase {} ?s2 ?Q1"
    using kbase_set_proc [OF k1 pr p(1), of ?f] D(8) [OF pr] by simp
  have c: "currpid s \<noteq> pid" using R(3) p(3) by auto
  have "sem_ok ?s2 ?Q1" using R(2) D(2) by (auto simp: sem_ok_def wiring_def)
  then have "running ?s2 ?Q1" using k2 R(3,4) c by (simp add: running_def)
  moreover have "suspend pid s = Some (Ret (prprio (proctab s pid)), ?s2)"
    using p g by (simp add: suspend_def Let_def)
  ultimately show ?thesis by (intro that [of ?s2]) (auto simp: rem)
qed

lemma suspend_self:
  assumes I: "kinv s" and p: "currpid s \<noteq> NULLPROC"
  obtains s' Q' where "suspend (currpid s) s = Some (Blocked, s')" "running s' Q'"
    "prstate (proctab s' (currpid s)) = PR_SUSP"
proof -
  let ?c = "currpid s" and ?Q = "queue_list (queuetab s)" and ?f = "\<lambda>p. p\<lparr>prstate := PR_SUSP\<rparr>"
  note R = runningD [OF kinv_running [OF I]]
  note D = kbaseD [OF R(1)]
  let ?s1 = "upd_proc ?c ?f s"
  have k1: "kbase {} ?s1 ?Q"
    using kbase_set_proc [OF R(1) D(5) p, of ?f] R(3) D(8) [OF D(5)] by simp
  have s1: "sem_ok ?s1 ?Q" using R(2) by (simp add: sem_ok_def)
  have nd: "\<not> ndefers ?s1 > 0" using R(4) by simp
  obtain s' Q' where r: "resched ?s1 = Some s'" "kbase {} s' Q'" "sched_frame ?s1 ?Q s' Q'"
    "ndefers ?s1 > 0 \<longrightarrow> s' = ?s1\<lparr>attempt := True\<rparr> \<and> Q' = ?Q"
    "\<not> ndefers ?s1 > 0 \<longrightarrow> prstate (proctab s' (currpid s')) = PR_CURR"
    using resched_ok [OF k1] by blast
  note fr = sched_ops_frame [OF r(3)]
  have "running s' Q'"
    using r nd sem_ok_frame [OF s1 kbaseD(2) [OF k1] fr] ops_frameD(5) [OF fr] R(4)
    by (simp add: running_def)
  moreover have su: "prstate (proctab s' ?c) = PR_SUSP"
    using sched_frame_state [OF r(3), of ?c] by simp
  moreover have "currpid s' \<noteq> ?c" using r(5) nd su by auto
  moreover have "\<not> isbadpid ?c s" using D(5) R(3) by (auto simp: isbadpid_def)
  ultimately show ?thesis
    using r(1) p R(3) by (intro that) (auto simp: suspend_def)
qed

lemma suspend_kinv: "kinv s \<Longrightarrow> \<exists>r s'. suspend pid s = Some (r, s') \<and> kinv s'"
proof -
  assume I: "kinv s"
  note R = runningD [OF kinv_running [OF I]]
  show ?thesis
  proof (cases "isbadpid pid s \<or> pid = NULLPROC \<or>
      (prstate (proctab s pid) \<noteq> PR_CURR \<and> prstate (proctab s pid) \<noteq> PR_READY)")
    case True
    then have "suspend pid s = Some (Ret SYSERR, s)" unfolding suspend_def by auto
    with I show ?thesis by blast
  next
    case False
    then have p: "pid \<noteq> NULLPROC" "\<not> isbadpid pid s" by blast+
    show ?thesis
    proof (cases "prstate (proctab s pid) = PR_READY")
      case True
      from suspend_ready [OF I p True] obtain s' Q' where
        "suspend pid s = Some (Ret (prprio (proctab s pid)), s')" "running s' Q'" by blast
      then show ?thesis using running_kinv by blast
    next
      case nr: False
      have "pid \<in> {0..<NPROC}" using p(2) by (auto simp: isbadpid_def)
      then have "pid = currpid s" using kbaseD(7) [OF R(1)] False nr by blast
      with suspend_self [OF I] p(1) obtain s' Q' where
        "suspend pid s = Some (Blocked, s')" "running s' Q'" by blast
      then show ?thesis using running_kinv by blast
    qed
  qed
qed

lemma chprio_kinv:
  assumes I: "kinv s" and n: "MINKEY < newprio"
  shows "kinv (snd (chprio pid newprio s))"
proof (cases "isbadpid pid s")
  case False
  let ?f = "\<lambda>p. p\<lparr>prprio := newprio\<rparr>" and ?Q = "queue_list (queuetab s)"
  let ?s' = "upd_proc pid ?f s"
  note R = runningD [OF kinv_running [OF I]]
  have b: "belongs ?s' (proctab ?s' p) q = belongs s (proctab s p) q" for p q
    by (simp add: belongs_def split: prstate.splits)
  have "wiring ?s' = wiring s" by (rule wiring_cong) simp_all
  then have "kbase {} ?s' ?Q" using R(1) n b unfolding kbase_def by auto
  then have "running ?s' ?Q" using R(2-4) by (auto simp: running_def sem_ok_def)
  with False show ?thesis by (auto simp: chprio_def Let_def intro: running_kinv)
qed (simp add: chprio_def I)

section \<open>Which process runs\<close>

text \<open>
  \<open>keyed\<close>: ready processes are queued under their priority. Every operation keeps this but
  \<open>chprio\<close>, which changes the priority and leaves the key.
\<close>

definition keyed :: "'a ks \<Rightarrow> bool" where
  "keyed s \<longleftrightarrow> (\<forall>p \<in> {0..<NPROC}. prstate (proctab s p) = PR_READY \<longrightarrow>
     qkey (queuetab s p) = prprio (proctab s p))"

lemma candidates_key:
  assumes K: "kbase {} s Q" and k: "keyed s" and c: "candidates s Q = p # ps"
  shows "\<forall>x \<in> set ps. prprio (proctab s x) \<le> prprio (proctab s p)"
proof -
  let ?c = "currpid s" and ?r = "readylist s" and ?k = "\<lambda>x. qkey (queuetab s x)"
  let ?k' = "if prstate (proctab s ?c) = PR_CURR then ?k(?c := prprio (proctab s ?c)) else ?k"
  note D = kbaseD [OF K]
  have ko: "key_order ?k' (candidates s Q)"
  proof (cases "prstate (proctab s ?c) = PR_CURR")
    case True
    then have "?c \<notin> set (Q ?r)" using D(3) [OF D(5,9)] belongs_ready [OF D(2)] by simp
    from key_order_pri_insert [OF D(4) this] True show ?thesis by (simp add: candidates_def)
  qed (use D(4) in \<open>simp add: candidates_def\<close>)
  have key: "?k' x = prprio (proctab s x)" if x: "x \<in> set (candidates s Q)" for x
  proof (cases "x = ?c \<and> prstate (proctab s ?c) = PR_CURR")
    case False
    have "x \<in> set (Q ?r)" using x False by (auto simp: candidates_def split: if_splits)
    then have "x \<in> {0..<NPROC}" "prstate (proctab s x) = PR_READY"
      using kbase_members [OF K D(9)] D(3) [of x ?r] D(9) belongs_ready [OF D(2)] by auto
    then show ?thesis using k False by (auto simp: keyed_def)
  qed auto
  have "?k' x \<le> ?k' p" if "x \<in> set ps" for x
    using key_order_hd ko that unfolding c by metis
  then show ?thesis using key [of p] key c by simp
qed

lemma sched_frame_keyed:
  assumes "sched_frame s Q s' Q'" "keyed s"
  shows "keyed s'"
  unfolding keyed_def
proof (intro ballI impI)
  fix p assume p: "p \<in> {0..<NPROC}" "prstate (proctab s' p) = PR_READY"
  note f = assms(1) [unfolded sched_frame_def]
  have e: "prprio (proctab s' p) = prprio (proctab s p)"
    by (rule ops_frameD(8) [OF sched_ops_frame [OF assms(1)]])
  show "qkey (queuetab s' p) = prprio (proctab s' p)"
  proof (cases "prstate (proctab s p) = PR_CURR")
    case True
    then have "qkey (queuetab s' p) = prprio (proctab s p)" using f p(2) by blast
    then show ?thesis using e by simp
  next
    case False
    then have "qkey (queuetab s' p) = qkey (queuetab s p)" using f by blast
    moreover have "prstate (proctab s p) = PR_READY"
      using sched_frame_state [OF assms(1), of p] False p(2) by auto
    ultimately show ?thesis using e assms(2) p(1) by (simp add: keyed_def)
  qed
qed

lemma running_kinvD: "running s Q \<Longrightarrow> q \<in> qids (nextqid s) \<Longrightarrow> queue_list (queuetab s) q = Q q"
  by (rule queue_list_qrep) (auto simp: running_def kbase_def)

lemma resched_cases:
  assumes I: "kinv s"
  obtains (stay) "resched s = Some s" "prstate (proctab s (currpid s)) = PR_CURR"
      "\<forall>p \<in> set (queue_list (queuetab s) (readylist s)). qkey (queuetab s p) < prprio (proctab s (currpid s))"
  | (switch) s' where "resched s = Some s'" "kinv s'"
      "sched_frame s (queue_list (queuetab s)) s'
         ((queue_list (queuetab s))(readylist s := tl (candidates s (queue_list (queuetab s)))))"
      "currpid s' = hd (candidates s (queue_list (queuetab s)))"
      "queue_list (queuetab s') (readylist s') = tl (candidates s (queue_list (queuetab s)))"
      "queue_list (queuetab s) (readylist s) \<noteq> []"
      "prprio (proctab s (currpid s)) \<le> qkey (queuetab s (hd (queue_list (queuetab s) (readylist s))))"
      "preempt s' = QUANTUM"
proof -
  let ?Q = "queue_list (queuetab s)" and ?r = "readylist s"
  note R = runningD [OF kinv_running [OF I]]
  note D = kbaseD [OF R(1)]
  have nd: "\<not> ndefers s > 0" using R(4) by simp
  have dl: "dlist (queuetab s) ?r (?Q ?r)" by (rule qrep_dlist [OF D(1,9)])
  show ?thesis
  proof (cases "prstate (proctab s (currpid s)) = PR_CURR \<and> prprio (proctab s (currpid s)) > firstkey ?r s")
    case True
    moreover have "resched s = Some s" using True nd by (simp add: resched_def)
    ultimately show ?thesis using resched_stay [OF R(1)] by (intro stay) auto
  next
    case False
    then have le: "prprio (proctab s (currpid s)) \<le> firstkey ?r s" using R(3) by simp
    have ne: "?Q ?r \<noteq> []"
    proof
      assume "?Q ?r = []"
      then have "firstkey ?r s = MINKEY" using dl firstkey_Nil by metis
      then show False using le D(8) [OF D(5)] by simp
    qed
    then have fk: "firstkey ?r s = qkey (queuetab s (hd (?Q ?r)))"
      using dl firstkey_Cons by (metis list.exhaust_sel)
    let ?Q' = "?Q(?r := tl (candidates s ?Q))"
    obtain s' where r: "resched s = Some s'" "kbase {} s' ?Q'" "sched_frame s ?Q s' ?Q'"
      "currpid s' = hd (candidates s ?Q)" "prstate (proctab s' (currpid s')) = PR_CURR"
      "preempt s' = QUANTUM" using resched_switch [OF R(1) nd False] by blast
    note fr = sched_ops_frame [OF r(3)]
    have run: "running s' ?Q'"
      using r sem_ok_frame [OF R(2) D(2) fr] ops_frameD(5) [OF fr] R(4) by (simp add: running_def)
    have "queue_list (queuetab s') (readylist s') = tl (candidates s ?Q)"
      using running_kinvD [OF run, of ?r] D(9) ops_frameD(2,4) [OF fr] by simp
    with r run fk le ne show ?thesis by (intro switch [OF r(1)]) (auto intro: running_kinv)
  qed
qed

section \<open>Properties\<close>


text \<open>
  C4: round robin. When a ready process has at least the priority of the current one,
  rescheduling gives the CPU to the first of them, and the current process goes behind every
  ready process of its own priority, before every process of a lower one.
\<close>

theorem resched_round_robin:
  assumes "kinv s" "queue_list (queuetab s) (readylist s) = p # ps"
    "prprio (proctab s (currpid s)) \<le> qkey (queuetab s p)"
  shows "\<exists>s'. resched s = Some s' \<and> currpid s' = p \<and> preempt s' = QUANTUM \<and>
    queue_list (queuetab s') (readylist s') =
      takeWhile (\<lambda>x. qkey (queuetab s x) \<ge> prprio (proctab s (currpid s))) ps @ currpid s #
      dropWhile (\<lambda>x. qkey (queuetab s x) \<ge> prprio (proctab s (currpid s))) ps"
  using assms(1)
proof (cases rule: resched_cases)
  case stay
  then show ?thesis using assms(2,3) by fastforce
next
  case (switch s')
  note R = runningD [OF kinv_running [OF assms(1)]]
  have "candidates s (queue_list (queuetab s)) =
      p # pri_insert (\<lambda>x. qkey (queuetab s x)) (prprio (proctab s (currpid s))) (currpid s) ps"
    using R(3) assms(2,3) by (simp add: candidates_def pri_insert_Cons)
  with switch show ?thesis by (simp add: pri_insert_def)
qed

end
