(* ===== verification/Semaphores.thy ===== *)
theory Semaphores
  imports Scheduler
begin

text \<open>
  Counting semaphores: \<^verbatim>\<open>system/semcreate.c\<close>, \<^verbatim>\<open>semcount.c\<close>, \<^verbatim>\<open>wait.c\<close>, \<^verbatim>\<open>signal.c\<close>, \<^verbatim>\<open>signaln.c\<close>,
  \<^verbatim>\<open>semreset.c\<close>, \<^verbatim>\<open>semdelete.c\<close>. The loops that release several processes run with
  rescheduling deferred. Counts are mathematical integers; an \<open>int32\<close> holds every count that
  fewer than \<open>2\<^sup>3\<^sup>1\<close> signals reach.

  The lemmas show that each operation keeps the kernel invariant, that waiting processes are
  released in the order in which they waited, and by how many each operation changes the count.
\<close>

section \<open>Operations\<close>

text \<open>The search of \<open>newsem\<close>; the first argument is the number of entries left to try.\<close>

fun newsem_loop :: "nat \<Rightarrow> 'a ks \<Rightarrow> int \<times> 'a ks" where
  "newsem_loop 0 s = (SYSERR, s)"
| "newsem_loop (Suc n) s =
     (let sem = nextsem s;
          s = s\<lparr>nextsem := (if nextsem s + 1 \<ge> NSEM then 0 else nextsem s + 1)\<rparr>
      in if sstate (semtab s sem) = S_FREE
         then (sem, upd_sem sem (\<lambda>e. e\<lparr>sstate := S_USED\<rparr>) s)
         else newsem_loop n s)"

definition newsem :: "'a ks \<Rightarrow> int \<times> 'a ks" where
  "newsem s = newsem_loop 100 s"

definition semcreate :: "int \<Rightarrow> 'a ks \<Rightarrow> int \<times> 'a ks" where
  "semcreate count s =
     (if count < 0 then (SYSERR, s)
      else
        let (sem, s) = newsem s in
        if sem = SYSERR then (SYSERR, s)
        else (sem, upd_sem sem (\<lambda>e. e\<lparr>scount := count\<rparr>) s))"

definition semcount :: "int \<Rightarrow> 'a ks \<Rightarrow> int" where
  "semcount semid s =
     (if isbadsem semid \<or> sstate (semtab s semid) = S_FREE then SYSERR else scount (semtab s semid))"

definition wait_sem :: "int \<Rightarrow> 'a ks \<Rightarrow> (int \<times> 'a ks) option" where
  "wait_sem sem s =
     (if isbadsem sem then Some (SYSERR, s)
      else if sstate (semtab s sem) = S_FREE then Some (SYSERR, s)
      else do {
        let s = upd_sem sem (\<lambda>e. e\<lparr>scount := scount e - 1\<rparr>) s;
        s \<leftarrow> (if scount (semtab s sem) < 0 then do {
                let s = upd_proc (currpid s) (\<lambda>p. p\<lparr>prstate := PR_WAIT\<rparr>) s;
                let s = upd_proc (currpid s) (\<lambda>p. p\<lparr>prsem := sem\<rparr>) s;
                let (_, s) = enqueue (currpid s) (squeue (semtab s sem)) s;
                resched s
              }
              else Some s);
        Some (OK, s)
      })"

definition signal :: "int \<Rightarrow> 'a ks \<Rightarrow> (int \<times> 'a ks) option" where
  "signal sem s =
     (if isbadsem sem then Some (SYSERR, s)
      else if sstate (semtab s sem) = S_FREE then Some (SYSERR, s)
      else do {
        let c = scount (semtab s sem);
        let s = upd_sem sem (\<lambda>e. e\<lparr>scount := c + 1\<rparr>) s;
        s \<leftarrow> (if c < 0 then do {
                let (pid, s) = dequeue (squeue (semtab s sem)) s;
                (_, s) \<leftarrow> ready pid s;
                Some s
              }
              else Some s);
        Some (OK, s)
      })"

fun signaln_loop :: "int \<Rightarrow> nat \<Rightarrow> 'a ks \<Rightarrow> 'a ks option" where
  "signaln_loop sem 0 s = Some s"
| "signaln_loop sem (Suc n) s = do {
     let c = scount (semtab s sem);
     let s = upd_sem sem (\<lambda>e. e\<lparr>scount := c + 1\<rparr>) s;
     s \<leftarrow> (if c < 0 then do {
             let (pid, s) = dequeue (squeue (semtab s sem)) s;
             (_, s) \<leftarrow> ready pid s;
             Some s
           }
           else Some s);
     signaln_loop sem n s
   }"

definition signaln :: "int \<Rightarrow> int \<Rightarrow> 'a ks \<Rightarrow> (int \<times> 'a ks) option" where
  "signaln sem count s =
     (if isbadsem sem \<or> count < 0 then Some (SYSERR, s)
      else if sstate (semtab s sem) = S_FREE then Some (SYSERR, s)
      else do {
        (_, s) \<leftarrow> resched_cntl DEFER_START s;
        s \<leftarrow> signaln_loop sem (nat count) s;
        (_, s) \<leftarrow> resched_cntl DEFER_STOP s;
        Some (OK, s)
      })"

partial_function (option) semreset_loop :: "int \<Rightarrow> 'a ks \<Rightarrow> 'a ks option" where
  "semreset_loop q s =
     (let (pid, s) = getfirst q s in
      if pid = EMPTY then Some s
      else do {
        (_, s) \<leftarrow> ready pid s;
        semreset_loop q s
      })"

definition semreset :: "int \<Rightarrow> int \<Rightarrow> 'a ks \<Rightarrow> (int \<times> 'a ks) option" where
  "semreset sem count s =
     (if count < 0 \<or> isbadsem sem \<or> sstate (semtab s sem) = S_FREE then Some (SYSERR, s)
      else do {
        let semqueue = squeue (semtab s sem);
        (_, s) \<leftarrow> resched_cntl DEFER_START s;
        s \<leftarrow> semreset_loop semqueue s;
        let s = upd_sem sem (\<lambda>e. e\<lparr>scount := count\<rparr>) s;
        (_, s) \<leftarrow> resched_cntl DEFER_STOP s;
        Some (OK, s)
      })"

partial_function (option) semdelete_loop :: "int \<Rightarrow> 'a ks \<Rightarrow> 'a ks option" where
  "semdelete_loop sem s =
     (let c = scount (semtab s sem);
          s = upd_sem sem (\<lambda>e. e\<lparr>scount := c + 1\<rparr>) s
      in if c < 0 then do {
           let (pid, s) = getfirst (squeue (semtab s sem)) s;
           (_, s) \<leftarrow> ready pid s;
           semdelete_loop sem s
         }
         else Some s)"

definition semdelete :: "int \<Rightarrow> 'a ks \<Rightarrow> (int \<times> 'a ks) option" where
  "semdelete sem s =
     (if isbadsem sem then Some (SYSERR, s)
      else if sstate (semtab s sem) = S_FREE then Some (SYSERR, s)
      else do {
        let s = upd_sem sem (\<lambda>e. e\<lparr>sstate := S_FREE\<rparr>) s;
        (_, s) \<leftarrow> resched_cntl DEFER_START s;
        s \<leftarrow> semdelete_loop sem s;
        (_, s) \<leftarrow> resched_cntl DEFER_STOP s;
        Some (OK, s)
      })"

section \<open>Releasing one waiting process\<close>

lemma upd_sem_simps [simp]:
  "queuetab (upd_sem i f s) = queuetab s" "nextqid (upd_sem i f s) = nextqid s"
  "readylist (upd_sem i f s) = readylist s" "sleepq (upd_sem i f s) = sleepq s"
  "proctab (upd_sem i f s) = proctab s" "currpid (upd_sem i f s) = currpid s"
  "ndefers (upd_sem i f s) = ndefers s" "attempt (upd_sem i f s) = attempt s"
  "semtab (upd_sem i f s) = (semtab s)(i := f (semtab s i))"
  by (simp_all add: upd_sem_def)

lemma waiting_state:
  assumes K: "kbase X s Q" and i: "i \<in> {0..<NSEM}" and p: "p \<in> set (Q (squeue (semtab s i)))"
  shows "p \<in> {0..<NPROC}" "prstate (proctab s p) = PR_WAIT" "prsem (proctab s p) = i" "p \<noteq> NULLPROC"
proof -
  note D = kbaseD [OF K]
  show pr: "p \<in> {0..<NPROC}" using kbase_members [OF K D(11) [OF i]] p by auto
  from D(3) [OF pr D(11) [OF i]] p belongs_sem [OF D(2) i]
  show w: "prstate (proctab s p) = PR_WAIT" "prsem (proctab s p) = i" by auto
  show "p \<noteq> NULLPROC" using w(1) K by (auto simp: kbase_def)
qed

text \<open>
  The head of the semaphore's queue, unlinked by \<open>dequeue\<close> or by \<open>getfirst\<close> (\<open>qt\<close> is the
  table either leaves), is made ready.
\<close>

lemma release_ok:
  assumes K: "kbase {} s Q" and i: "i \<in> {0..<NSEM}" and Qi: "Q (squeue (semtab s i)) = p # ps"
    and qt: "qrep qt (nextqid s) (Q(squeue (semtab s i) := ps))" "\<forall>x. qkey (qt x) = qkey (queuetab s x)"
  obtains s' Q' where "ready p (s\<lparr>queuetab := qt\<rparr>) = Some (OK, s')" "kbase {} s' Q'"
    "ops_frame s (Q(squeue (semtab s i) := ps)) s' Q'"
    "ndefers s > 0 \<longrightarrow> currpid s' = currpid s \<and> attempt s' = True \<and>
       proctab s' = (proctab s)(p := (proctab s p)\<lparr>prstate := PR_READY\<rparr>)"
    "\<not> ndefers s > 0 \<longrightarrow> prstate (proctab s' (currpid s')) = PR_CURR"
    "prstate (proctab s' p) \<in> {PR_READY, PR_CURR}"
    "Q' (squeue (semtab s i)) = ps"
proof -
  let ?q = "squeue (semtab s i)" and ?s1 = "s\<lparr>queuetab := qt\<rparr>" and ?Q1 = "Q(squeue (semtab s i) := ps)"
  note D = kbaseD [OF K]
  have "p \<in> set (Q ?q)" using Qi by simp
  note w = waiting_state [OF K i this]
  have qr: "?q \<noteq> readylist s" "?q \<noteq> sleepq s" using D(2) i by (auto simp: wiring_def)
  have k1: "kbase {p} ?s1 ?Q1"
    using kbase_leave [OF K D(11) [OF i], of "[]" p ps qt] Qi qt w(4) qr K by (auto simp: kbase_def)
  obtain s' Q' where r: "ready p ?s1 = Some (OK, s')" "kbase {} s' Q'" "ops_frame ?s1 ?Q1 s' Q'"
    "ndefers ?s1 > 0 \<longrightarrow> currpid s' = currpid ?s1 \<and> attempt s' = True \<and>
       proctab s' = (proctab ?s1)(p := (proctab ?s1 p)\<lparr>prstate := PR_READY\<rparr>) \<and>
       Q' = ?Q1(readylist ?s1 := pri_insert (\<lambda>x. qkey (queuetab ?s1 x)) (prprio (proctab ?s1 p)) p (?Q1 (readylist ?s1))) \<and>
       (\<forall>x. x \<noteq> p \<longrightarrow> qkey (queuetab s' x) = qkey (queuetab ?s1 x))"
    "\<not> ndefers ?s1 > 0 \<longrightarrow> prstate (proctab s' (currpid s')) = PR_CURR"
    "prstate (proctab s' p) \<in> {PR_READY, PR_CURR} \<and>
     (\<forall>x. x \<noteq> p \<longrightarrow> prstate (proctab ?s1 x) \<notin> {PR_READY, PR_CURR} \<longrightarrow>
        prstate (proctab s' x) = prstate (proctab ?s1 x))"
    using ready_ok [OF k1 w(1)] w(2) by (auto split del: if_split)
  have f: "ops_frame s ?Q1 s' Q'"
    by (rule ops_frame_trans [OF _ r(3)]) (auto simp: ops_frame_def)
  have "Q' ?q = ps" using ops_frameD(9) [OF f, of ?q] qr by simp
  then show ?thesis using r(1,2) f r(4-6) by (intro that [of s' Q']) auto
qed

section \<open>Signalling\<close>

text \<open>\<open>scount\<close> and the length of the queue move together.\<close>

definition sem_ok_but :: "int \<Rightarrow> 'a ks \<Rightarrow> (int \<Rightarrow> int list) \<Rightarrow> bool" where
  "sem_ok_but j s Q \<longleftrightarrow> (\<forall>i \<in> {0..<NSEM} - {j}. length (Q (squeue (semtab s i))) =
     (if sstate (semtab s i) = S_USED then nat (- scount (semtab s i)) else 0))"

lemma sem_ok_split: "j \<in> {0..<NSEM} \<Longrightarrow> sem_ok s Q \<longleftrightarrow> sem_ok_but j s Q \<and>
    length (Q (squeue (semtab s j))) =
     (if sstate (semtab s j) = S_USED then nat (- scount (semtab s j)) else 0)"
  unfolding sem_ok_def sem_ok_but_def by blast

lemma squeue_other:
  "wiring s \<Longrightarrow> i \<in> {0..<NSEM} \<Longrightarrow> j \<in> {0..<NSEM} \<Longrightarrow> i \<noteq> j \<Longrightarrow> squeue (semtab s i) \<noteq> squeue (semtab s j)"
  unfolding wiring_def inj_on_def by blast

lemma sem_ok_but_frame:
  assumes "sem_ok_but j s Q" "wiring s" "j \<in> {0..<NSEM}"
    "ops_frame s (Q(squeue (semtab s j) := ps)) s' Q'"
  shows "sem_ok_but j s' Q'"
  unfolding sem_ok_but_def
proof
  fix i assume i: "i \<in> {0..<NSEM} - {j}"
  have "squeue (semtab s i) \<noteq> readylist s" using assms(2) i by (auto simp: wiring_def)
  then have "Q' (squeue (semtab s i)) = Q (squeue (semtab s i))"
    using ops_frameD(9) [OF assms(4)] squeue_other [OF assms(2), of i j] i assms(3) by simp
  then show "length (Q' (squeue (semtab s' i))) =
     (if sstate (semtab s' i) = S_USED then nat (- scount (semtab s' i)) else 0)"
    using assms(1) i ops_frameD(1) [OF assms(4)] by (simp add: sem_ok_but_def)
qed

lemma sem_ok_but_upd [simp]: "sem_ok_but j (upd_sem j f s) Q = sem_ok_but j s Q"
  by (auto simp: sem_ok_but_def)

text \<open>The step \<open>signal\<close> and \<open>signaln\<close> share, with rescheduling deferred or not.\<close>

lemma signal_step:
  assumes K: "kbase {} s Q" "sem_ok s Q" and i: "sem \<in> {0..<NSEM}" and u: "sstate (semtab s sem) = S_USED"
    and c: "prstate (proctab s (currpid s)) = PR_CURR"
    and s1: "s1 = upd_sem sem (\<lambda>e. e\<lparr>scount := scount (semtab s sem) + 1\<rparr>) s"
  obtains s' Q' where
    "(if scount (semtab s sem) < 0 then do {
         let (pid, s) = dequeue (squeue (semtab s1 sem)) s1;
         (_, s) \<leftarrow> ready pid s;
         Some s
       } else Some s1) = Some s'"
    "kbase {} s' Q'" "sem_ok s' Q'" "prstate (proctab s' (currpid s')) = PR_CURR"
    "semtab s' = semtab s1" "ndefers s' = ndefers s"
    "Q' (squeue (semtab s sem)) = tl (Q (squeue (semtab s sem)))"
    "Q (squeue (semtab s sem)) \<noteq> [] \<longrightarrow>
       prstate (proctab s' (hd (Q (squeue (semtab s sem))))) \<in> {PR_READY, PR_CURR}"
proof -
  let ?q = "squeue (semtab s sem)" and ?n = "scount (semtab s sem)"
  have k1: "kbase {} s1 Q" unfolding s1 using K(1) by (subst kbase_upd_sem) simp_all
  note D = kbaseD [OF k1]
  have len: "length (Q ?q) = nat (- ?n)" and but: "sem_ok_but sem s Q"
    using K(2) u i by (auto simp: sem_ok_split [OF i])
  have q1: "squeue (semtab s1 sem) = ?q" by (simp add: s1)
  show ?thesis
  proof (cases "?n < 0")
    case True
    then obtain p ps where Qq: "Q ?q = p # ps" using len by (cases "Q ?q") auto
    have qq: "?q \<in> qids (nextqid s1)" using D(11) [OF i] q1 by simp
    obtain qt where d: "dequeue ?q s1 = (p, s1\<lparr>queuetab := qt\<rparr>)"
      and R: "qrep qt (nextqid s1) (Q(?q := ps))" "\<forall>x. qkey (qt x) = qkey (queuetab s1 x)"
      using dequeue_qrep [OF D(1) qq Qq] by blast
    obtain s' Q' where r: "ready p (s1\<lparr>queuetab := qt\<rparr>) = Some (OK, s')" "kbase {} s' Q'"
      "ops_frame s1 (Q(?q := ps)) s' Q'"
      "ndefers s1 > 0 \<longrightarrow> currpid s' = currpid s1 \<and> attempt s' = True \<and>
         proctab s' = (proctab s1)(p := (proctab s1 p)\<lparr>prstate := PR_READY\<rparr>)"
      "\<not> ndefers s1 > 0 \<longrightarrow> prstate (proctab s' (currpid s')) = PR_CURR"
      "prstate (proctab s' p) \<in> {PR_READY, PR_CURR}" "Q' ?q = ps"
      using release_ok [OF k1 i, of p ps qt] Qq R unfolding q1 by blast
    have w: "prstate (proctab s p) = PR_WAIT" using waiting_state(2) [OF K(1) i, of p] Qq by simp
    have cu: "prstate (proctab s' (currpid s')) = PR_CURR"
    proof (cases "ndefers s1 > 0")
      case True
      then show ?thesis using r(4) c w by (auto simp: s1)
    qed (use r(5) in simp)
    have st: "semtab s' = semtab s1" by (rule ops_frameD(1) [OF r(3)])
    have "sem_ok_but sem s1 Q" using but by (simp add: s1)
    then have "sem_ok_but sem s' Q'"
      using sem_ok_but_frame [OF _ D(2) i, of Q ps s' Q'] r(3) q1 by simp
    moreover have "length ps = nat (- (?n + 1))" using len Qq True by simp
    ultimately have "sem_ok s' Q'"
      using r(7) st u by (simp add: sem_ok_split [OF i] s1)
    then show ?thesis
      using True d r(1,2,6,7) cu st Qq ops_frameD(5) [OF r(3)] q1 by (intro that [of s' Q']) (auto simp: s1)
  next
    case False
    then have "Q ?q = []" using len by simp
    moreover from this have "sem_ok s1 Q"
      using but u False by (simp add: sem_ok_split [OF i] s1)
    ultimately show ?thesis using False k1 c by (intro that [of s1 Q]) (auto simp: s1)
  qed
qed

lemma kinv_not_used:
  "isbadsem sem \<or> sstate (semtab s sem) = S_FREE \<or> (sem \<in> {0..<NSEM} \<and> sstate (semtab s sem) = S_USED)"
  by (cases "sstate (semtab s sem)") (auto simp: isbadsem_def)

lemma signal_ok:
  assumes I: "kinv s" and i: "\<not> isbadsem sem" and u: "sstate (semtab s sem) = S_USED"
  obtains s' Q' where "signal sem s = Some (OK, s')" "running s' Q'"
    "semtab s' = (semtab s)(sem := (semtab s sem)\<lparr>scount := scount (semtab s sem) + 1\<rparr>)"
    "Q' (squeue (semtab s sem)) = tl (queue_list (queuetab s) (squeue (semtab s sem)))"
    "queue_list (queuetab s) (squeue (semtab s sem)) \<noteq> [] \<longrightarrow>
       prstate (proctab s' (hd (queue_list (queuetab s) (squeue (semtab s sem))))) \<in> {PR_READY, PR_CURR}"
proof -
  note R = runningD [OF kinv_running [OF I]]
  have im: "sem \<in> {0..<NSEM}" using i by (auto simp: isbadsem_def)
  let ?s1 = "upd_sem sem (\<lambda>e. e\<lparr>scount := scount (semtab s sem) + 1\<rparr>) s"
  obtain s' Q' where r: "(if scount (semtab s sem) < 0 then do {
         let (pid, s) = dequeue (squeue (semtab ?s1 sem)) ?s1;
         (_, s) \<leftarrow> ready pid s;
         Some s
       } else Some ?s1) = Some s'"
    "kbase {} s' Q'" "sem_ok s' Q'" "prstate (proctab s' (currpid s')) = PR_CURR"
    "semtab s' = semtab ?s1" "ndefers s' = ndefers s"
    "Q' (squeue (semtab s sem)) = tl (queue_list (queuetab s) (squeue (semtab s sem)))"
    "queue_list (queuetab s) (squeue (semtab s sem)) \<noteq> [] \<longrightarrow>
       prstate (proctab s' (hd (queue_list (queuetab s) (squeue (semtab s sem))))) \<in> {PR_READY, PR_CURR}"
    using signal_step [OF R(1,2) im u R(3) refl] by blast
  have "signal sem s = Some (OK, s')"
    using i u r(1) by (simp add: signal_def Let_def)
  moreover have "running s' Q'" using r R(4) by (simp add: running_def)
  ultimately show ?thesis using r(5,7,8) by (intro that [of s' Q']) auto
qed

lemma signal_kinv: "kinv s \<Longrightarrow> \<exists>r s'. signal sem s = Some (r, s') \<and> kinv s'"
proof (cases "isbadsem sem \<or> sstate (semtab s sem) = S_FREE")
  case False
  assume I: "kinv s"
  from False kinv_not_used [of sem s] have "\<not> isbadsem sem" "sstate (semtab s sem) = S_USED" by auto
  from signal_ok [OF I this] obtain s' Q' where "signal sem s = Some (OK, s')" "running s' Q'" by blast
  then show ?thesis using running_kinv by blast
qed (auto simp: signal_def)

section \<open>Waiting\<close>

lemma wait_block:
  assumes I: "kinv s" and i: "\<not> isbadsem sem" and u: "sstate (semtab s sem) = S_USED"
    and c: "scount (semtab s sem) \<le> 0" and nz: "currpid s \<noteq> NULLPROC"
  obtains s' Q' where "wait_sem sem s = Some (OK, s')" "running s' Q'"
    "scount (semtab s' sem) = scount (semtab s sem) - 1"
    "Q' (squeue (semtab s sem)) = queue_list (queuetab s) (squeue (semtab s sem)) @ [currpid s]"
    "prstate (proctab s' (currpid s)) = PR_WAIT" "currpid s' \<noteq> currpid s"
    "squeue (semtab s' sem) = squeue (semtab s sem)"
proof -
  let ?Q = "queue_list (queuetab s)" and ?q = "squeue (semtab s sem)" and ?c = "currpid s"
  note R = runningD [OF kinv_running [OF I]]
  note D = kbaseD [OF R(1)]
  have im: "sem \<in> {0..<NSEM}" using i by (auto simp: isbadsem_def)
  have qr: "?q \<noteq> readylist s" "?q \<noteq> sleepq s" using D(2) im by (auto simp: wiring_def)
  let ?s1 = "upd_sem sem (\<lambda>e. e\<lparr>scount := scount e - 1\<rparr>) s"
  let ?e = "(proctab s ?c)\<lparr>prstate := PR_WAIT, prsem := sem\<rparr>"
  let ?s2 = "upd_proc ?c (\<lambda>p. p\<lparr>prsem := sem\<rparr>) (upd_proc ?c (\<lambda>p. p\<lparr>prstate := PR_WAIT\<rparr>) ?s1)"
  have nq: "in_no_queue ?c (nextqid s) ?Q" by (rule kbase_no_queue [OF R(1) D(5)]) (simp add: R(3))
  have bp: "\<not> isbadpid ?c ?s2" using D(5) by (simp add: isbadpid_def)
  have "qrep (queuetab ?s2) (nextqid ?s2) ?Q" "?q \<in> qids (nextqid ?s2)" "in_no_queue ?c (nextqid ?s2) ?Q"
    using D(1) D(11) [OF im] nq by simp_all
  from enqueue_qrep [OF this(1,2) bp this(3)] obtain qt where
    e: "enqueue ?c ?q ?s2 = (?c, ?s2\<lparr>queuetab := qt\<rparr>)"
    and q: "qrep qt (nextqid ?s2) (?Q(?q := ?Q ?q @ [?c]))" and k: "\<forall>x. qkey (qt x) = qkey (queuetab ?s2 x)"
    by blast
  let ?s3 = "?s2\<lparr>queuetab := qt\<rparr>" and ?Q3 = "?Q(?q := ?Q ?q @ [?c])"
  have K3: "kbase {} ?s3 ?Q3"
  proof (rule kbase_move [OF R(1), where e = ?e and p = ?c and qt = qt])
    show "qrep qt (nextqid s) ?Q3" using q by simp
    show "?c \<in> {0..<NPROC}" by (rule D(5))
    show "x \<in> set (?Q3 r) \<longleftrightarrow> x \<in> set (?Q r)" if "x \<noteq> ?c" for r x using that by auto
    show "?c \<in> set (?Q3 r) \<longleftrightarrow> ?c \<notin> {} \<and> belongs s ?e r" if "r \<in> qids (nextqid s)" for r
      using nq that im by (auto simp: in_no_queue_def belongs_def)
    show "key_order (\<lambda>p. qkey (qt p)) (?Q3 (readylist s))" using D(4) k qr by simp
    show "0 \<le> qkey (qt x)" if "x \<in> set (?Q3 (sleepq s))" for x
      using that k qr R(1) by (simp add: kbase_def)
    show "x = currpid ?s3" if "x \<in> {0..<NPROC}" "x \<noteq> ?c" "prstate (proctab s x) = PR_CURR" for x
      using D(7) [OF that(1,3)] by simp
    show "squeue (semtab ?s3 i) = squeue (semtab s i)" for i by simp
  qed (use nz im D(5) D(8) [OF D(5)] in auto)
  obtain s' Q' where r: "resched ?s3 = Some s'" "kbase {} s' Q'" "sched_frame ?s3 ?Q3 s' Q'"
    "\<not> ndefers ?s3 > 0 \<longrightarrow> prstate (proctab s' (currpid s')) = PR_CURR"
    using resched_ok [OF K3] by blast
  note fr = sched_ops_frame [OF r(3)]
  have st: "prstate (proctab s' ?c) = PR_WAIT" using sched_frame_state [OF r(3), of ?c] by simp
  have cu: "prstate (proctab s' (currpid s')) = PR_CURR" using r(4) R(4) by simp
  have sm: "semtab s' = semtab ?s1" using ops_frameD(1) [OF fr] by simp
  have Qq: "Q' ?q = ?Q ?q @ [?c]" using ops_frameD(9) [OF fr, of ?q] qr by simp
  have but: "sem_ok_but sem s ?Q" and len: "length (?Q ?q) = nat (- scount (semtab s sem))"
    using R(2) u by (auto simp: sem_ok_split [OF im])
  have "sem_ok_but sem ?s3 ?Q" using but by (auto simp: sem_ok_but_def)
  moreover have f3: "ops_frame ?s3 (?Q(squeue (semtab ?s3 sem) := ?Q ?q @ [?c])) s' Q'" using fr by simp
  ultimately have "sem_ok_but sem s' Q'" using sem_ok_but_frame kbaseD(2) [OF K3] im by blast
  then have "sem_ok s' Q'" using sm Qq len u c by (simp add: sem_ok_split [OF im])
  then have run: "running s' Q'" using r(2) cu R(4) ops_frameD(5) [OF fr] by (simp add: running_def)
  have "wait_sem sem s = Some (OK, s')"
    using i u c e r(1) by (simp add: wait_sem_def Let_def)
  with run st cu Qq sm show ?thesis by (intro that [of s' Q']) auto
qed

lemma wait_pass:
  assumes I: "kinv s" and i: "\<not> isbadsem sem" and u: "sstate (semtab s sem) = S_USED"
    and c: "0 < scount (semtab s sem)"
  shows "wait_sem sem s = Some (OK, upd_sem sem (\<lambda>e. e\<lparr>scount := scount e - 1\<rparr>) s)"
    "kinv (upd_sem sem (\<lambda>e. e\<lparr>scount := scount e - 1\<rparr>) s)"
proof -
  let ?s = "upd_sem sem (\<lambda>e. e\<lparr>scount := scount e - 1\<rparr>) s" and ?Q = "queue_list (queuetab s)"
  note R = runningD [OF kinv_running [OF I]]
  have im: "sem \<in> {0..<NSEM}" using i by (auto simp: isbadsem_def)
  show "wait_sem sem s = Some (OK, ?s)" using i u c by (simp add: wait_sem_def Let_def)
  have "kbase {} ?s ?Q" using R(1) by (subst kbase_upd_sem) simp_all
  moreover have "sem_ok ?s ?Q" using R(2) u c by (simp add: sem_ok_split [OF im])
  ultimately have "running ?s ?Q" using R(3,4) by (simp add: running_def)
  then show "kinv ?s" by (rule running_kinv)
qed

lemma wait_kinv: "kinv s \<Longrightarrow> currpid s \<noteq> NULLPROC \<Longrightarrow> \<exists>r s'. wait_sem sem s = Some (r, s') \<and> kinv s'"
proof (cases "isbadsem sem \<or> sstate (semtab s sem) = S_FREE")
  case False
  assume I: "kinv s" and nz: "currpid s \<noteq> NULLPROC"
  from False kinv_not_used [of sem s] have u: "\<not> isbadsem sem" "sstate (semtab s sem) = S_USED" by auto
  show ?thesis
  proof (cases "0 < scount (semtab s sem)")
    case True
    with wait_pass [OF I u] show ?thesis by blast
  next
    case False
    then have "scount (semtab s sem) \<le> 0" by simp
    from wait_block [OF I u this nz] obtain s' Q' where "wait_sem sem s = Some (OK, s')" "running s' Q'"
      by blast
    then show ?thesis using running_kinv by blast
  qed
qed (auto simp: wait_sem_def)

section \<open>Releasing several processes\<close>

lemma signaln_loop_ok:
  assumes "kbase {} s Q" "sem_ok s Q" "sem \<in> {0..<NSEM}" "sstate (semtab s sem) = S_USED"
    "prstate (proctab s (currpid s)) = PR_CURR"
  shows "\<exists>s' Q'. signaln_loop sem n s = Some s' \<and> kbase {} s' Q' \<and> sem_ok s' Q' \<and>
     prstate (proctab s' (currpid s')) = PR_CURR \<and> ndefers s' = ndefers s \<and>
     semtab s' = (semtab s)(sem := (semtab s sem)\<lparr>scount := scount (semtab s sem) + int n\<rparr>) \<and>
     Q' (squeue (semtab s sem)) = drop n (Q (squeue (semtab s sem)))"
  using assms
proof (induction n arbitrary: s Q)
  case 0
  then show ?case by auto
next
  case (Suc n)
  let ?s1 = "upd_sem sem (\<lambda>e. e\<lparr>scount := scount (semtab s sem) + 1\<rparr>) s" and ?q = "squeue (semtab s sem)"
  obtain s1 Q1 where r: "(if scount (semtab s sem) < 0 then do {
         let (pid, s) = dequeue (squeue (semtab ?s1 sem)) ?s1;
         (_, s) \<leftarrow> ready pid s;
         Some s
       } else Some ?s1) = Some s1"
    "kbase {} s1 Q1" "sem_ok s1 Q1" "prstate (proctab s1 (currpid s1)) = PR_CURR"
    "semtab s1 = semtab ?s1" "ndefers s1 = ndefers s" "Q1 ?q = tl (Q ?q)"
    using signal_step [OF Suc.prems refl] by blast
  have u1: "sstate (semtab s1 sem) = S_USED" "squeue (semtab s1 sem) = ?q" using Suc.prems(4) r(5) by simp_all
  obtain s2 Q2 where l: "signaln_loop sem n s1 = Some s2" "kbase {} s2 Q2" "sem_ok s2 Q2"
    "prstate (proctab s2 (currpid s2)) = PR_CURR" "ndefers s2 = ndefers s1"
    "semtab s2 = (semtab s1)(sem := (semtab s1 sem)\<lparr>scount := scount (semtab s1 sem) + int n\<rparr>)"
    "Q2 ?q = drop n (Q1 ?q)"
    using Suc.IH [OF r(2,3) Suc.prems(3) u1(1) r(4)] unfolding u1(2) by blast
  have "signaln_loop sem (Suc n) s = Some s2" using r(1) l(1) by (simp add: Let_def)
  moreover have "semtab s2 = (semtab s)(sem := (semtab s sem)\<lparr>scount := scount (semtab s sem) + int (Suc n)\<rparr>)"
    using l(6) r(5) by (simp add: add.assoc)
  moreover have "Q2 ?q = drop (Suc n) (Q ?q)" using l(7) r(7) by (simp add: drop_Suc)
  moreover have "ndefers s2 = ndefers s" using l(5) r(6) by simp
  ultimately show ?case using l(2-4) by blast
qed

text \<open>The loops of \<open>semreset\<close> and \<open>semdelete\<close>: one pass, with rescheduling deferred.\<close>

lemma release_deferred:
  assumes K: "kbase {} s Q" "sem_ok_but sem s Q" and i: "sem \<in> {0..<NSEM}"
    and c: "prstate (proctab s (currpid s)) = PR_CURR" and d: "ndefers s > 0"
    and Qq: "Q (squeue (semtab s sem)) = p # ps"
  obtains qt s' Q' where "getfirst (squeue (semtab s sem)) s = (p, s\<lparr>queuetab := qt\<rparr>)"
    "ready p (s\<lparr>queuetab := qt\<rparr>) = Some (OK, s')" "kbase {} s' Q'" "sem_ok_but sem s' Q'"
    "prstate (proctab s' (currpid s')) = PR_CURR" "ndefers s' = ndefers s" "semtab s' = semtab s"
    "Q' (squeue (semtab s sem)) = ps" "p \<noteq> EMPTY"
proof -
  let ?q = "squeue (semtab s sem)"
  note D = kbaseD [OF K(1)]
  obtain qt where g: "getfirst ?q s = (p, s\<lparr>queuetab := qt\<rparr>)"
    and R: "qrep qt (nextqid s) (Q(?q := ps))" "\<forall>x. qkey (qt x) = qkey (queuetab s x)"
    using getfirst_qrep [OF D(1) D(11) [OF i] Qq] by blast
  obtain s' Q' where r: "ready p (s\<lparr>queuetab := qt\<rparr>) = Some (OK, s')" "kbase {} s' Q'"
    "ops_frame s (Q(?q := ps)) s' Q'"
    "ndefers s > 0 \<longrightarrow> currpid s' = currpid s \<and> attempt s' = True \<and>
       proctab s' = (proctab s)(p := (proctab s p)\<lparr>prstate := PR_READY\<rparr>)" "Q' ?q = ps"
    using release_ok [OF K(1) i Qq R] by blast
  have w: "prstate (proctab s p) = PR_WAIT" "p \<in> {0..<NPROC}" using waiting_state [OF K(1) i, of p] Qq by simp_all
  have "currpid s \<noteq> p" using c w(1) by auto
  then have "prstate (proctab s' (currpid s')) = PR_CURR" using r(4) d c by simp
  moreover have "sem_ok_but sem s' Q'" by (rule sem_ok_but_frame [OF K(2) D(2) i r(3)])
  ultimately show ?thesis
    using g r(1,2,5) w(2) ops_frameD(1,5) [OF r(3)] by (intro that [of qt s' Q']) auto
qed

lemma semreset_loop_ok:
  assumes "kbase {} s Q" "sem_ok_but sem s Q" "sem \<in> {0..<NSEM}"
    "prstate (proctab s (currpid s)) = PR_CURR" "ndefers s > 0"
  shows "\<exists>s' Q'. semreset_loop (squeue (semtab s sem)) s = Some s' \<and> kbase {} s' Q' \<and> sem_ok_but sem s' Q' \<and>
     prstate (proctab s' (currpid s')) = PR_CURR \<and> ndefers s' = ndefers s \<and> semtab s' = semtab s \<and>
     Q' (squeue (semtab s sem)) = []"
  using assms
proof (induction "Q (squeue (semtab s sem))" arbitrary: s Q)
  case Nil
  note D = kbaseD [OF Nil(2)]
  have "getfirst (squeue (semtab s sem)) s = (EMPTY, s)"
    using getfirst_empty [OF D(1) D(11) [OF Nil(4)]] Nil(1) by simp
  then have "semreset_loop (squeue (semtab s sem)) s = Some s"
    by (subst semreset_loop.simps) simp
  then show ?case using Nil by (intro exI [of _ s] exI [of _ Q]) simp
next
  case (Cons p ps)
  obtain qt s1 Q1 where r: "getfirst (squeue (semtab s sem)) s = (p, s\<lparr>queuetab := qt\<rparr>)"
    "ready p (s\<lparr>queuetab := qt\<rparr>) = Some (OK, s1)" "kbase {} s1 Q1" "sem_ok_but sem s1 Q1"
    "prstate (proctab s1 (currpid s1)) = PR_CURR" "ndefers s1 = ndefers s" "semtab s1 = semtab s"
    "Q1 (squeue (semtab s sem)) = ps" "p \<noteq> EMPTY"
    using release_deferred [OF Cons(3-7)] Cons(2) by metis
  have "\<exists>s' Q'. semreset_loop (squeue (semtab s1 sem)) s1 = Some s' \<and> kbase {} s' Q' \<and> sem_ok_but sem s' Q' \<and>
     prstate (proctab s' (currpid s')) = PR_CURR \<and> ndefers s' = ndefers s1 \<and> semtab s' = semtab s1 \<and>
     Q' (squeue (semtab s1 sem)) = []"
    by (rule Cons(1)) (use r Cons(5,7) in auto)
  moreover have "semreset_loop (squeue (semtab s sem)) s = semreset_loop (squeue (semtab s sem)) s1"
    using r(1,2,9) by (subst semreset_loop.simps) simp
  ultimately show ?case using r(6,7) by simp
qed

lemma sem_ok_but_scount: "sem_ok_but j s' Q = sem_ok_but j s Q"
  if "semtab s' = (semtab s)(j := e)"
  using that by (auto simp: sem_ok_but_def)

lemma semdelete_loop_ok:
  assumes "kbase {} s Q" "sem_ok_but sem s Q" "sem \<in> {0..<NSEM}"
    "prstate (proctab s (currpid s)) = PR_CURR" "ndefers s > 0"
    "length (Q (squeue (semtab s sem))) = nat (- scount (semtab s sem))"
  shows "\<exists>s' Q' c. semdelete_loop sem s = Some s' \<and> kbase {} s' Q' \<and> sem_ok_but sem s' Q' \<and>
     prstate (proctab s' (currpid s')) = PR_CURR \<and> ndefers s' = ndefers s \<and>
     semtab s' = (semtab s)(sem := (semtab s sem)\<lparr>scount := c\<rparr>) \<and>
     Q' (squeue (semtab s sem)) = []"
  using assms
proof (induction "Q (squeue (semtab s sem))" arbitrary: s Q)
  case Nil
  let ?s1 = "upd_sem sem (\<lambda>e. e\<lparr>scount := scount (semtab s sem) + 1\<rparr>) s"
  have "\<not> scount (semtab s sem) < 0" using Nil(1,7) by (auto simp: Nil(1) [symmetric])
  then have "semdelete_loop sem s = Some ?s1" by (subst semdelete_loop.simps) (simp add: Let_def)
  moreover have "kbase {} ?s1 Q" using Nil(2) by (subst kbase_upd_sem) simp_all
  ultimately show ?case
    using Nil by (intro exI [of _ ?s1] exI [of _ Q] exI [of _ "scount (semtab s sem) + 1"]) simp
next
  case (Cons p ps)
  let ?s1 = "upd_sem sem (\<lambda>e. e\<lparr>scount := scount (semtab s sem) + 1\<rparr>) s"
  have c: "scount (semtab s sem) < 0" using Cons(2,8) by (cases "scount (semtab s sem) < 0") (auto simp: Cons(2) [symmetric])
  have k1: "kbase {} ?s1 Q" using Cons(3) by (subst kbase_upd_sem) simp_all
  have b1: "sem_ok_but sem ?s1 Q" using Cons(4) by simp
  have q1: "squeue (semtab ?s1 sem) = squeue (semtab s sem)" by simp
  have "prstate (proctab ?s1 (currpid ?s1)) = PR_CURR" "ndefers ?s1 > 0"
    "Q (squeue (semtab ?s1 sem)) = p # ps" using Cons(2,6,7) by simp_all
  from release_deferred [OF k1 b1 Cons(5) this] obtain qt s1 Q1 where
    r0: "getfirst (squeue (semtab ?s1 sem)) ?s1 = (p, ?s1\<lparr>queuetab := qt\<rparr>)"
    "ready p (?s1\<lparr>queuetab := qt\<rparr>) = Some (OK, s1)" "kbase {} s1 Q1" "sem_ok_but sem s1 Q1"
    "prstate (proctab s1 (currpid s1)) = PR_CURR" "ndefers s1 = ndefers ?s1" "semtab s1 = semtab ?s1"
    "Q1 (squeue (semtab ?s1 sem)) = ps" by blast
  note r = r0(1) [unfolded q1] r0(2-5) r0(6) [simplified] r0(7) r0(8) [unfolded q1]
  have "\<exists>s' Q' c. semdelete_loop sem s1 = Some s' \<and> kbase {} s' Q' \<and> sem_ok_but sem s' Q' \<and>
     prstate (proctab s' (currpid s')) = PR_CURR \<and> ndefers s' = ndefers s1 \<and>
     semtab s' = (semtab s1)(sem := (semtab s1 sem)\<lparr>scount := c\<rparr>) \<and>
     Q' (squeue (semtab s1 sem)) = []"
  proof (rule Cons(1))
    show "length (Q1 (squeue (semtab s1 sem))) = nat (- scount (semtab s1 sem))"
      using r(7,8) Cons(2,8) c by (simp add: Cons(2) [symmetric])
  qed (use r Cons(5,7) in auto)
  moreover have "semdelete_loop sem s = semdelete_loop sem s1"
    using r(1,2) c by (subst semdelete_loop.simps) (simp add: Let_def)
  ultimately show ?case using r(6,7) by auto
qed

section \<open>The operations that release several processes\<close>

lemma ndefers_sem_ok [simp]: "sem_ok (s\<lparr>ndefers := n, attempt := a\<rparr>) Q = sem_ok s Q"
  "sem_ok_but j (s\<lparr>ndefers := n, attempt := a\<rparr>) Q = sem_ok_but j s Q"
  by (simp_all add: sem_ok_def sem_ok_but_def)

lemma signaln_ok:
  assumes I: "kinv s" and i: "\<not> isbadsem sem" and u: "sstate (semtab s sem) = S_USED" and n: "0 \<le> n"
  obtains s' Q' where "signaln sem n s = Some (OK, s')" "running s' Q'"
    "scount (semtab s' sem) = scount (semtab s sem) + n"
    "Q' (squeue (semtab s sem)) = drop (nat n) (queue_list (queuetab s) (squeue (semtab s sem)))"
    "squeue (semtab s' sem) = squeue (semtab s sem)"
proof -
  let ?Q = "queue_list (queuetab s)" and ?q = "squeue (semtab s sem)"
  note R = runningD [OF kinv_running [OF I]]
  have im: "sem \<in> {0..<NSEM}" using i by (auto simp: isbadsem_def)
  let ?s1 = "s\<lparr>ndefers := 1, attempt := False\<rparr>"
  have p: "kbase {} ?s1 ?Q" "sem_ok ?s1 ?Q" "sstate (semtab ?s1 sem) = S_USED"
    "prstate (proctab ?s1 (currpid ?s1)) = PR_CURR" using R u by simp_all
  obtain s2 Q2 where l: "signaln_loop sem (nat n) ?s1 = Some s2" "kbase {} s2 Q2" "sem_ok s2 Q2"
    "prstate (proctab s2 (currpid s2)) = PR_CURR" "ndefers s2 = ndefers ?s1"
    "semtab s2 = (semtab ?s1)(sem := (semtab ?s1 sem)\<lparr>scount := scount (semtab ?s1 sem) + int (nat n)\<rparr>)"
    "Q2 (squeue (semtab ?s1 sem)) = drop (nat n) (?Q (squeue (semtab ?s1 sem)))"
    using signaln_loop_ok [OF p(1,2) im p(3,4), of "nat n"] by blast
  have nd: "ndefers s2 = 1" using l(5) by simp
  obtain s3 Q3 where d: "resched_cntl DEFER_STOP s2 = Some (OK, s3)" "running s3 Q3"
    "ops_frame (s2\<lparr>ndefers := 0\<rparr>) Q2 s3 Q3" using defer_stop [OF l(2,3) nd l(4)] by blast
  have qr: "?q \<noteq> readylist (s2\<lparr>ndefers := 0\<rparr>)"
  proof -
    have "wiring s2" by (rule kbaseD(2) [OF l(2)])
    moreover have "squeue (semtab s2 sem) = ?q" using l(6) by simp
    ultimately show ?thesis using im unfolding wiring_def by fastforce
  qed
  have "signaln sem n s = Some (OK, s3)"
    using i n u defer_start [OF R(4)] l(1) d(1) by (simp add: signaln_def)
  moreover have "scount (semtab s3 sem) = scount (semtab s sem) + n"
    using ops_frameD(1) [OF d(3)] l(6) n by simp
  moreover have "Q3 ?q = drop (nat n) (?Q ?q)" using ops_frameD(9) [OF d(3) qr] l(7) by simp
  moreover have "squeue (semtab s3 sem) = ?q" using ops_frameD(1) [OF d(3)] l(6) by simp
  ultimately show ?thesis using d(2) by (intro that [of s3 Q3])
qed

lemma semreset_ok:
  assumes I: "kinv s" and i: "\<not> isbadsem sem" and u: "sstate (semtab s sem) = S_USED" and n: "0 \<le> n"
  obtains s' Q' where "semreset sem n s = Some (OK, s')" "running s' Q'"
    "scount (semtab s' sem) = n" "Q' (squeue (semtab s sem)) = []"
    "squeue (semtab s' sem) = squeue (semtab s sem)"
proof -
  let ?Q = "queue_list (queuetab s)" and ?q = "squeue (semtab s sem)"
  note R = runningD [OF kinv_running [OF I]]
  have im: "sem \<in> {0..<NSEM}" using i by (auto simp: isbadsem_def)
  let ?s1 = "s\<lparr>ndefers := 1, attempt := False\<rparr>"
  have p: "kbase {} ?s1 ?Q" "sem_ok_but sem ?s1 ?Q"
    "prstate (proctab ?s1 (currpid ?s1)) = PR_CURR" "ndefers ?s1 > 0"
    using R by (simp_all add: sem_ok_split [OF im])
  obtain s2 Q2 where l: "semreset_loop (squeue (semtab ?s1 sem)) ?s1 = Some s2" "kbase {} s2 Q2" "sem_ok_but sem s2 Q2"
    "prstate (proctab s2 (currpid s2)) = PR_CURR" "ndefers s2 = ndefers ?s1" "semtab s2 = semtab ?s1"
    "Q2 (squeue (semtab ?s1 sem)) = []"
    using semreset_loop_ok [OF p(1,2) im p(3,4)] by blast
  let ?s3 = "upd_sem sem (\<lambda>e. e\<lparr>scount := n\<rparr>) s2"
  have k3: "kbase {} ?s3 Q2" using l(2) by (subst kbase_upd_sem) simp_all
  have "sem_ok ?s3 Q2" using l(3,6,7) u n by (simp add: sem_ok_split [OF im])
  moreover have "ndefers ?s3 = 1" "prstate (proctab ?s3 (currpid ?s3)) = PR_CURR" using l(4,5) by simp_all
  ultimately obtain s4 Q4 where d: "resched_cntl DEFER_STOP ?s3 = Some (OK, s4)" "running s4 Q4"
    "ops_frame (?s3\<lparr>ndefers := 0\<rparr>) Q2 s4 Q4" using defer_stop [OF k3] by blast
  have qr: "?q \<noteq> readylist (?s3\<lparr>ndefers := 0\<rparr>)"
  proof -
    have "wiring s2" by (rule kbaseD(2) [OF l(2)])
    moreover have "squeue (semtab s2 sem) = ?q" using l(6) by simp
    ultimately show ?thesis using im unfolding wiring_def by fastforce
  qed
  have "semreset sem n s = Some (OK, s4)"
    using i n u defer_start [OF R(4)] l(1) d(1) by (simp add: semreset_def Let_def)
  moreover have "scount (semtab s4 sem) = n" using ops_frameD(1) [OF d(3)] by simp
  moreover have "Q4 ?q = []" using ops_frameD(9) [OF d(3) qr] l(7) by simp
  moreover have "squeue (semtab s4 sem) = ?q" using ops_frameD(1) [OF d(3)] l(6) by simp
  ultimately show ?thesis using d(2) by (intro that [of s4 Q4])
qed

lemma semdelete_ok:
  assumes I: "kinv s" and i: "\<not> isbadsem sem" and u: "sstate (semtab s sem) = S_USED"
  obtains s' Q' where "semdelete sem s = Some (OK, s')" "running s' Q'"
    "sstate (semtab s' sem) = S_FREE" "Q' (squeue (semtab s sem)) = []"
    "squeue (semtab s' sem) = squeue (semtab s sem)"
proof -
  let ?Q = "queue_list (queuetab s)" and ?q = "squeue (semtab s sem)"
  note R = runningD [OF kinv_running [OF I]]
  have im: "sem \<in> {0..<NSEM}" using i by (auto simp: isbadsem_def)
  let ?s0 = "upd_sem sem (\<lambda>e. e\<lparr>sstate := S_FREE\<rparr>) s"
  let ?s1 = "?s0\<lparr>ndefers := 1, attempt := False\<rparr>"
  have "kbase {} ?s0 ?Q" using R(1) by (subst kbase_upd_sem) simp_all
  then have p: "kbase {} ?s1 ?Q" "sem_ok_but sem ?s1 ?Q"
    "prstate (proctab ?s1 (currpid ?s1)) = PR_CURR" "ndefers ?s1 > 0"
    "length (?Q (squeue (semtab ?s1 sem))) = nat (- scount (semtab ?s1 sem))"
    using R u by (simp_all add: sem_ok_split [OF im])
  obtain s2 Q2 c where l: "semdelete_loop sem ?s1 = Some s2" "kbase {} s2 Q2" "sem_ok_but sem s2 Q2"
    "prstate (proctab s2 (currpid s2)) = PR_CURR" "ndefers s2 = ndefers ?s1"
    "semtab s2 = (semtab ?s1)(sem := (semtab ?s1 sem)\<lparr>scount := c\<rparr>)"
    "Q2 (squeue (semtab ?s1 sem)) = []"
    using semdelete_loop_ok [OF p(1,2) im p(3,4,5)] by blast
  have "sem_ok s2 Q2" using l(3,6,7) by (simp add: sem_ok_split [OF im])
  moreover have "ndefers s2 = 1" using l(5) by simp
  ultimately obtain s3 Q3 where d: "resched_cntl DEFER_STOP s2 = Some (OK, s3)" "running s3 Q3"
    "ops_frame (s2\<lparr>ndefers := 0\<rparr>) Q2 s3 Q3" using defer_stop [OF l(2)] l(4) by blast
  have qr: "?q \<noteq> readylist (s2\<lparr>ndefers := 0\<rparr>)"
  proof -
    have "wiring s2" by (rule kbaseD(2) [OF l(2)])
    moreover have "squeue (semtab s2 sem) = ?q" using l(6) by simp
    ultimately show ?thesis using im unfolding wiring_def by fastforce
  qed
  have "semdelete sem s = Some (OK, s3)"
    using i u defer_start [of ?s0] R(4) l(1) d(1) by (simp add: semdelete_def Let_def)
  moreover have "sstate (semtab s3 sem) = S_FREE" using ops_frameD(1) [OF d(3)] l(6) by simp
  moreover have "Q3 ?q = []" using ops_frameD(9) [OF d(3) qr] l(7) by simp
  moreover have "squeue (semtab s3 sem) = ?q" using ops_frameD(1) [OF d(3)] l(6) by simp
  ultimately show ?thesis using d(2) by (intro that [of s3 Q3])
qed

section \<open>Creating a semaphore\<close>

lemma newsem_loop_found:
  assumes "nextsem s \<in> {0..<NSEM}" "k < n" "sstate (semtab s ((nextsem s + int k) mod NSEM)) = S_FREE"
  shows "\<exists>i j. newsem_loop n s = (i, upd_sem i (\<lambda>e. e\<lparr>sstate := S_USED\<rparr>) (s\<lparr>nextsem := j\<rparr>)) \<and>
     i \<in> {0..<NSEM} \<and> j \<in> {0..<NSEM} \<and> sstate (semtab s i) = S_FREE"
  using assms
proof (induction n arbitrary: s k)
  case (Suc n)
  let ?j = "if nextsem s + 1 \<ge> NSEM then 0 else nextsem s + 1"
  let ?s = "s\<lparr>nextsem := ?j\<rparr>"
  have j: "?j \<in> {0..<NSEM}" "?j = (nextsem s + 1) mod NSEM"
    using Suc.prems(1) by (cases "nextsem s = 99"; simp)+
  show ?case
  proof (cases "sstate (semtab s (nextsem s)) = S_FREE")
    case True
    then show ?thesis using Suc.prems(1) j(1)
      by (intro exI [of _ "nextsem s"] exI [of _ ?j]) (simp add: Let_def)
  next
    case False
    then have "k \<noteq> 0" using Suc.prems by (cases k) auto
    then obtain k' where k: "k = Suc k'" by (cases k) auto
    have "(?j + int k') mod NSEM = (nextsem s + int k) mod NSEM"
      unfolding j(2) k by (simp add: mod_simps algebra_simps)
    then have "sstate (semtab ?s ((nextsem ?s + int k') mod NSEM)) = S_FREE" using Suc.prems(3) by simp
    from Suc.IH [OF _ _ this] j(1) k Suc.prems(2) obtain i i' where
      "newsem_loop n ?s = (i, upd_sem i (\<lambda>e. e\<lparr>sstate := S_USED\<rparr>) (?s\<lparr>nextsem := i'\<rparr>))"
      "i \<in> {0..<NSEM}" "i' \<in> {0..<NSEM}" "sstate (semtab s i) = S_FREE" by auto
    then show ?thesis using False
      by (intro exI [of _ i] exI [of _ i']) (simp add: Let_def)
  qed
qed simp

lemma newsem_loop_full:
  assumes "nextsem s \<in> {0..<NSEM}" "\<And>i. i \<in> {0..<NSEM} \<Longrightarrow> sstate (semtab s i) = S_USED"
  shows "\<exists>j. newsem_loop n s = (SYSERR, s\<lparr>nextsem := j\<rparr>) \<and> j \<in> {0..<NSEM}"
  using assms
proof (induction n arbitrary: s)
  case 0
  then show ?case by (intro exI [of _ "nextsem s"]) simp
next
  case (Suc n)
  let ?j = "if nextsem s + 1 \<ge> NSEM then 0 else nextsem s + 1"
  let ?s = "s\<lparr>nextsem := ?j\<rparr>"
  have "?j \<in> {0..<NSEM}" using Suc.prems(1) by auto
  then obtain j where "newsem_loop n ?s = (SYSERR, ?s\<lparr>nextsem := j\<rparr>)" "j \<in> {0..<NSEM}"
    using Suc.IH [of ?s] Suc.prems(2) by auto
  then show ?case using Suc.prems by (intro exI [of _ j]) (simp add: Let_def)
qed

lemma semcreate_ok:
  assumes I: "kinv s" and n: "nextsem s \<in> {0..<NSEM}" and c: "0 \<le> count"
    and f: "i \<in> {0..<NSEM}" "sstate (semtab s i) = S_FREE"
  shows "\<exists>sem s'. semcreate count s = (sem, s') \<and> sem \<in> {0..<NSEM} \<and> sstate (semtab s sem) = S_FREE \<and>
     sstate (semtab s' sem) = S_USED \<and> scount (semtab s' sem) = count \<and> kinv s' \<and>
     nextsem s' \<in> {0..<NSEM}"
proof -
  let ?Q = "queue_list (queuetab s)"
  note R = runningD [OF kinv_running [OF I]]
  let ?k = "nat ((i - nextsem s) mod NSEM)"
  have "?k < 100" by simp
  moreover have "(nextsem s + int ?k) mod NSEM = i" using f(1) by (simp add: mod_simps)
  ultimately obtain sem j where l: "newsem s = (sem, upd_sem sem (\<lambda>e. e\<lparr>sstate := S_USED\<rparr>) (s\<lparr>nextsem := j\<rparr>))"
    and sm: "sem \<in> {0..<NSEM}" "j \<in> {0..<NSEM}" "sstate (semtab s sem) = S_FREE"
    using newsem_loop_found [OF n, of ?k 100] f(2) unfolding newsem_def by auto
  let ?s' = "upd_sem sem (\<lambda>e. e\<lparr>scount := count\<rparr>) (upd_sem sem (\<lambda>e. e\<lparr>sstate := S_USED\<rparr>) (s\<lparr>nextsem := j\<rparr>))"
  have k: "kbase {} ?s' ?Q" using R(1) by (subst kbase_upd_sem, simp, subst kbase_upd_sem) simp_all
  have "sem_ok_but sem ?s' ?Q" using R(2) by (simp add: sem_ok_split [OF sm(1)]) (simp add: sem_ok_but_def)
  moreover have "?Q (squeue (semtab s sem)) = []"
    using bspec [OF R(2) [unfolded sem_ok_def] sm(1)] sm(3) by simp
  ultimately have "sem_ok ?s' ?Q" using c by (simp add: sem_ok_split [OF sm(1)])
  then have "running ?s' ?Q" using k R(3,4) by (simp add: running_def upd_sem_def)
  then have "kinv ?s'" by (rule running_kinv)
  moreover have "semcreate count s = (sem, ?s')" using c l sm(1) by (simp add: semcreate_def)
  ultimately show ?thesis using sm by (simp add: upd_sem_def)
qed

lemma semcreate_full:
  assumes "nextsem s \<in> {0..<NSEM}" "\<And>i. i \<in> {0..<NSEM} \<Longrightarrow> sstate (semtab s i) = S_USED"
  shows "fst (semcreate count s) = SYSERR"
  using newsem_loop_full [OF assms, of 100] by (auto simp: semcreate_def newsem_def)

section \<open>Properties\<close>

lemma sem_queue_list:
  assumes "running s Q" "sem \<in> {0..<NSEM}"
  shows "queue_list (queuetab s) (squeue (semtab s sem)) = Q (squeue (semtab s sem))"
  by (rule running_kinvD [OF assms(1) kbaseD(11) [OF runningD(1) [OF assms(1)] assms(2)]])

text \<open>
  C6: waiting on a semaphore whose count is not positive blocks the caller at the tail of
  the semaphore's queue and takes one off the count; the CPU goes to another process.
\<close>

theorem wait_blocks_at_tail:
  assumes "kinv s" "sem \<in> {0..<NSEM}" "sstate (semtab s sem) = S_USED" "scount (semtab s sem) \<le> 0"
    "currpid s \<noteq> NULLPROC"
  shows "\<exists>s'. wait_sem sem s = Some (OK, s') \<and> kinv s' \<and> currpid s' \<noteq> currpid s \<and>
    prstate (proctab s' (currpid s)) = PR_WAIT \<and> scount (semtab s' sem) = scount (semtab s sem) - 1 \<and>
    queue_list (queuetab s') (squeue (semtab s' sem)) =
      queue_list (queuetab s) (squeue (semtab s sem)) @ [currpid s]"
proof -
  have i: "\<not> isbadsem sem" using assms(2) by (simp add: isbadsem_def)
  obtain s' Q' where w: "wait_sem sem s = Some (OK, s')" "running s' Q'"
    "scount (semtab s' sem) = scount (semtab s sem) - 1"
    "Q' (squeue (semtab s sem)) = queue_list (queuetab s) (squeue (semtab s sem)) @ [currpid s]"
    "prstate (proctab s' (currpid s)) = PR_WAIT" "currpid s' \<noteq> currpid s"
    "squeue (semtab s' sem) = squeue (semtab s sem)"
    by (rule wait_block [OF assms(1) i assms(3-5)])
  with running_kinv [OF w(2)] sem_queue_list [OF w(2) assms(2)] show ?thesis by auto
qed

text \<open>
  \<open>signaln\<close> with a count of \<open>n\<close> releases the first \<open>n\<close> waiting processes, or all of them
  when fewer wait, and adds \<open>n\<close> to the count.
\<close>

theorem signaln_releases:
  assumes "kinv s" "sem \<in> {0..<NSEM}" "sstate (semtab s sem) = S_USED" "0 \<le> n"
  shows "\<exists>s'. signaln sem n s = Some (OK, s') \<and> kinv s' \<and>
    scount (semtab s' sem) = scount (semtab s sem) + n \<and>
    queue_list (queuetab s') (squeue (semtab s' sem)) =
      drop (nat n) (queue_list (queuetab s) (squeue (semtab s sem)))"
proof -
  have i: "\<not> isbadsem sem" using assms(2) by (simp add: isbadsem_def)
  obtain s' Q' where w: "signaln sem n s = Some (OK, s')" "running s' Q'"
    "scount (semtab s' sem) = scount (semtab s sem) + n"
    "Q' (squeue (semtab s sem)) = drop (nat n) (queue_list (queuetab s) (squeue (semtab s sem)))"
    "squeue (semtab s' sem) = squeue (semtab s sem)"
    by (rule signaln_ok [OF assms(1) i assms(3,4)])
  with running_kinv [OF w(2)] sem_queue_list [OF w(2) assms(2)] show ?thesis by auto
qed

text \<open>
  resetting a semaphore sets its count and empties its queue.
\<close>

theorem semreset_empties:
  assumes "kinv s" "sem \<in> {0..<NSEM}" "sstate (semtab s sem) = S_USED" "0 \<le> n"
  shows "\<exists>s'. semreset sem n s = Some (OK, s') \<and> kinv s' \<and> scount (semtab s' sem) = n \<and>
    queue_list (queuetab s') (squeue (semtab s' sem)) = []"
proof -
  have i: "\<not> isbadsem sem" using assms(2) by (simp add: isbadsem_def)
  obtain s' Q' where w: "semreset sem n s = Some (OK, s')" "running s' Q'"
    "scount (semtab s' sem) = n" "Q' (squeue (semtab s sem)) = []"
    "squeue (semtab s' sem) = squeue (semtab s sem)"
    by (rule semreset_ok [OF assms(1) i assms(3,4)])
  with running_kinv [OF w(2)] sem_queue_list [OF w(2) assms(2)] show ?thesis by auto
qed

text \<open>
  C10: deleting a semaphore frees its entry and leaves nobody on its queue.
\<close>

theorem semdelete_empties:
  assumes "kinv s" "sem \<in> {0..<NSEM}" "sstate (semtab s sem) = S_USED"
  shows "\<exists>s'. semdelete sem s = Some (OK, s') \<and> kinv s' \<and> sstate (semtab s' sem) = S_FREE \<and>
    queue_list (queuetab s') (squeue (semtab s' sem)) = []"
proof -
  have i: "\<not> isbadsem sem" using assms(2) by (simp add: isbadsem_def)
  obtain s' Q' where w: "semdelete sem s = Some (OK, s')" "running s' Q'"
    "sstate (semtab s' sem) = S_FREE" "Q' (squeue (semtab s sem)) = []"
    "squeue (semtab s' sem) = squeue (semtab s sem)"
    by (rule semdelete_ok [OF assms(1) i assms(3)])
  with running_kinv [OF w(2)] sem_queue_list [OF w(2) assms(2)] show ?thesis by auto
qed

text \<open>
  creating a semaphore while an entry is free takes a free one, with the given count,
  and leaves the search index in range for the next call.
\<close>

theorem semcreate_takes_free:
  assumes "kinv s" "nextsem s \<in> {0..<NSEM}" "0 \<le> count" "i \<in> {0..<NSEM}" "sstate (semtab s i) = S_FREE"
  shows "\<exists>sem s'. semcreate count s = (sem, s') \<and> sem \<in> {0..<NSEM} \<and> sstate (semtab s sem) = S_FREE \<and>
    sstate (semtab s' sem) = S_USED \<and> scount (semtab s' sem) = count \<and> kinv s' \<and> nextsem s' \<in> {0..<NSEM}"
  using semcreate_ok [OF assms] .

text \<open>
  C11: a semaphore id out of range or not in use makes every semaphore call return \<open>SYSERR\<close> and
  leave the kernel as it was.
\<close>

theorem semaphore_errors:
  "isbadsem sem \<or> sstate (semtab s sem) = S_FREE \<Longrightarrow>
     wait_sem sem s = Some (SYSERR, s) \<and> signal sem s = Some (SYSERR, s) \<and>
     signaln sem n s = Some (SYSERR, s) \<and> semreset sem n s = Some (SYSERR, s) \<and>
     semdelete sem s = Some (SYSERR, s) \<and> semcount sem s = SYSERR"
  by (auto simp: wait_sem_def signal_def signaln_def semreset_def semdelete_def semcount_def)

text \<open>
  C5: a signal releases the process that has waited longest: the head of the semaphore's
  queue becomes ready or current, the others stay in order, the count goes up by one, and
  the kernel invariant holds again.
\<close>

theorem signal_releases_first:
  assumes "kinv s" "sem \<in> {0..<NSEM}" "sstate (semtab s sem) = S_USED"
    "queue_list (queuetab s) (squeue (semtab s sem)) = p # ps"
  shows "\<exists>s'. signal sem s = Some (OK, s') \<and> kinv s' \<and>
     prstate (proctab s' p) \<in> {PR_READY, PR_CURR} \<and>
     queue_list (queuetab s') (squeue (semtab s' sem)) = ps \<and>
     scount (semtab s' sem) = scount (semtab s sem) + 1"
proof -
  have nb: "\<not> isbadsem sem" using assms(2) by (auto simp: isbadsem_def)
  note D = kbaseD [OF runningD(1) [OF kinv_running [OF assms(1)]]]
  obtain s' Q' where r: "signal sem s = Some (OK, s')" "running s' Q'"
    "semtab s' = (semtab s)(sem := (semtab s sem)\<lparr>scount := scount (semtab s sem) + 1\<rparr>)"
    "Q' (squeue (semtab s sem)) = ps" "prstate (proctab s' p) \<in> {PR_READY, PR_CURR}"
    using signal_ok [OF assms(1) nb assms(3)] assms(4) by (metis list.sel(1,3) list.distinct(1))
  have "squeue (semtab s' sem) \<in> qids (nextqid s')"
    by (rule kbaseD(11) [OF runningD(1) [OF r(2)] assms(2)])
  then have "queue_list (queuetab s') (squeue (semtab s' sem)) = ps"
    using running_kinvD [OF r(2)] r(3,4) by simp
  with r running_kinv [OF r(2)] show ?thesis by simp
qed

end
