(* ===== verification/Clock.thy ===== *)
theory Clock
  imports Semaphores
begin

text \<open>
  Time: \<^verbatim>\<open>system/sleep.c\<close>, \<^verbatim>\<open>unsleep.c\<close>, \<^verbatim>\<open>wakeup.c\<close>, \<^verbatim>\<open>clkhandler.c\<close>, \<^verbatim>\<open>clkinit.c\<close>. Sleeping
  processes are kept in a delta list: the key of a process is its delay relative to the
  process in front. Of \<open>clkinit\<close> the hardware part (interrupt vector, timer ports) is left out.

  \<open>sleepers s\<close> is the abstract view, the sleeping processes with the milliseconds each has
  left. The lemmas show that going to sleep adds the caller with its own delay and changes
  nobody else's, that leaving early changes nobody else's either, and that one clock tick takes
  one millisecond off every sleeper and readies exactly those whose time is up.
\<close>

section \<open>Operations\<close>

definition MAXSECONDS :: int where "MAXSECONDS = 2147483"

definition sleepms :: "int \<Rightarrow> 'a ks \<Rightarrow> (int \<times> 'a ks) option" where
  "sleepms delay s =
     (if delay < 0 then Some (SYSERR, s)
      else if delay = 0 then do {
        (_, s) \<leftarrow> yield s;
        Some (OK, s)
      }
      else do {
        (r, s) \<leftarrow> insertd (currpid s) (sleepq s) delay s;
        if r = SYSERR then Some (SYSERR, s)
        else do {
          s \<leftarrow> resched (upd_proc (currpid s) (\<lambda>p. p\<lparr>prstate := PR_SLEEP\<rparr>) s);
          Some (OK, s)
        }
      })"

definition sleep :: "int \<Rightarrow> 'a ks \<Rightarrow> (int \<times> 'a ks) option" where
  "sleep delay s =
     (if delay < 0 \<or> delay > MAXSECONDS then Some (SYSERR, s)
      else do {
        (_, s) \<leftarrow> sleepms (1000 * delay) s;
        Some (OK, s)
      })"

definition unsleep :: "int \<Rightarrow> 'a ks \<Rightarrow> int \<times> 'a ks" where
  "unsleep pid s =
     (if isbadpid pid s then (SYSERR, s)
      else if prstate (proctab s pid) \<noteq> PR_SLEEP \<and> prstate (proctab s pid) \<noteq> PR_RECTIM then (SYSERR, s)
      else
        let pidnext = qnext (queuetab s pid);
            s = (if pidnext < NPROC
                 then upd_q pidnext (\<lambda>e. e\<lparr>qkey := qkey e + qkey (queuetab s pid)\<rparr>) s else s);
            (_, s) = getitem pid s
        in (OK, s))"

partial_function (option) wakeup_loop :: "'a ks \<Rightarrow> 'a ks option" where
  "wakeup_loop s =
     (if nonempty (sleepq s) s \<and> firstkey (sleepq s) s \<le> 0 then do {
        let (pid, s) = dequeue (sleepq s) s;
        (_, s) \<leftarrow> ready pid s;
        wakeup_loop s
      }
      else Some s)"

definition wakeup :: "'a ks \<Rightarrow> 'a ks option" where
  "wakeup s = do {
     (_, s) \<leftarrow> resched_cntl DEFER_START s;
     s \<leftarrow> wakeup_loop s;
     (_, s) \<leftarrow> resched_cntl DEFER_STOP s;
     Some s
   }"

text \<open>\<open>count1000\<close> and \<open>preempt\<close> are unsigned: \<open>\<le> 0\<close> is \<open>= 0\<close>.\<close>

definition clkhandler :: "'a ks \<Rightarrow> 'a ks option" where
  "clkhandler s = do {
     let s = s\<lparr>count1000 := count1000 s - 1\<rparr>;
     let s = (if count1000 s \<le> 0 then s\<lparr>clktime := clktime s + 1, count1000 := 1000\<rparr> else s);
     s \<leftarrow> (if \<not> isempty (sleepq s) s then do {
             let first = firstid (sleepq s) s;
             let s = upd_q first (\<lambda>e. e\<lparr>qkey := qkey e - 1\<rparr>) s;
             if qkey (queuetab s first) \<le> 0 then wakeup s else Some s
           }
           else Some s);
     let s = s\<lparr>preempt := preempt s - 1\<rparr>;
     if preempt s \<le> 0 then resched (s\<lparr>preempt := QUANTUM\<rparr>) else Some s
   }"

definition clkinit :: "'a ks \<Rightarrow> 'a ks" where
  "clkinit s =
     (let (q, s) = newqueue s;
          s = s\<lparr>sleepq := q\<rparr>;
          s = s\<lparr>preempt := QUANTUM\<rparr>
      in s\<lparr>clktime := 0\<rparr>)"

section \<open>Who sleeps, and for how long\<close>

definition sleepers :: "'a ks \<Rightarrow> (int \<times> int) list" where
  "sleepers s = wake (\<lambda>p. qkey (queuetab s p)) 0 (queue_list (queuetab s) (sleepq s))"

lemma upd_q_simps [simp]:
  "nextqid (upd_q i f s) = nextqid s" "readylist (upd_q i f s) = readylist s"
  "sleepq (upd_q i f s) = sleepq s" "semtab (upd_q i f s) = semtab s" "proctab (upd_q i f s) = proctab s"
  "currpid (upd_q i f s) = currpid s" "ndefers (upd_q i f s) = ndefers s"
  "queuetab (upd_q i f s) = (queuetab s)(i := f (queuetab s i))"
  by (simp_all add: upd_q_def)

lemma sleeping_state:
  assumes K: "kbase X s Q" and p: "p \<in> set (Q (sleepq s))"
  shows "p \<in> {0..<NPROC}" "prstate (proctab s p) = PR_SLEEP \<or> prstate (proctab s p) = PR_RECTIM" "p \<noteq> NULLPROC"
proof -
  note D = kbaseD [OF K]
  show pr: "p \<in> {0..<NPROC}" using kbase_members [OF K D(10)] p by auto
  from D(3) [OF pr D(10)] p belongs_sleep [OF D(2)]
  show w: "prstate (proctab s p) = PR_SLEEP \<or> prstate (proctab s p) = PR_RECTIM" by auto
  show "p \<noteq> NULLPROC" using w K by (auto simp: kbase_def)
qed

lemma sleep_keys: "kbase X s Q \<Longrightarrow> \<forall>p \<in> set (Q (sleepq s)). 0 \<le> qkey (queuetab s p)"
  by (simp add: kbase_def)

lemma wake_shift: "wake k (t + d) ps = map (\<lambda>(p, w). (p, w + d)) (wake k t ps)"
proof (induction ps arbitrary: t)
  case (Cons p ps)
  have "t + d + k p = (t + k p) + d" by simp
  then show ?case using Cons.IH [of "t + k p"] by (simp only: wake.simps list.map prod.case)
qed simp

lemma wake_ge: "\<forall>p \<in> set ps. 0 \<le> k p \<Longrightarrow> (p, w) \<in> set (wake k t ps) \<Longrightarrow> t \<le> w"
  by (induction ps arbitrary: t) fastforce+

lemma map_fst_wake [simp]: "map fst (wake k t ps) = ps"
  by (induction ps arbitrary: t) auto

text \<open>The semaphores do not notice what happens on the sleep queue.\<close>

lemma sem_ok_sleepq: "wiring s \<Longrightarrow> sem_ok s (Q(sleepq s := ps)) = sem_ok s Q"
  unfolding sem_ok_def wiring_def by auto


lemma ops_frame_upd:
  assumes "ops_frame s (Q(q := a)) s' Q'" "q \<noteq> readylist s"
  shows "ops_frame s (Q(q := b)) s' (Q'(q := b))"
  using assms unfolding ops_frame_def by (metis fun_upd_apply)

lemma ops_frame_queuetab:
  "ops_frame (s\<lparr>queuetab := qt\<rparr>) Q s' Q' \<Longrightarrow> ops_frame s Q s' Q'"
  by (rule ops_frame_trans [of s Q "s\<lparr>queuetab := qt\<rparr>" Q]) (simp_all add: ops_frame_def)

section \<open>Waking processes up\<close>

text \<open>One pass of \<open>wakeup\<close>: \<open>qt\<close> is the table without the first sleeper.\<close>

lemma wake_one:
  assumes K: "kbase {} s Q" "sem_ok s Q" and c: "prstate (proctab s (currpid s)) = PR_CURR"
    and d: "ndefers s > 0" and Qs: "Q (sleepq s) = p # ps"
    and qt: "qrep qt (nextqid s) (Q(sleepq s := ps))" "\<And>x. x \<noteq> p \<Longrightarrow> qkey (qt x) = qkey (queuetab s x)"
  obtains s' Q' where "ready p (s\<lparr>queuetab := qt\<rparr>) = Some (OK, s')" "kbase {} s' Q'" "sem_ok s' Q'"
    "prstate (proctab s' (currpid s')) = PR_CURR" "ops_frame s (Q(sleepq s := ps)) s' Q'"
    "proctab s' = (proctab s)(p := (proctab s p)\<lparr>prstate := PR_READY\<rparr>)"
    "\<forall>x. x \<noteq> p \<longrightarrow> qkey (queuetab s' x) = qkey (queuetab s x)" "Q' (sleepq s) = ps"
proof -
  let ?s1 = "s\<lparr>queuetab := qt\<rparr>" and ?Q1 = "Q(sleepq s := ps)"
  note D = kbaseD [OF K(1)]
  have rs: "readylist s \<noteq> sleepq s" using D(2) by (simp add: wiring_def)
  have "p \<in> set (Q (sleepq s))" using Qs by simp
  note w = sleeping_state [OF K(1) this]
  have nr: "x \<noteq> p" if "x \<in> set (Q (readylist s))" for x
  proof -
    have "x \<in> {0..<NPROC}" using that kbase_members [OF K(1) D(9)] by auto
    then have "prstate (proctab s x) = PR_READY" using that D(3) [OF _ D(9)] belongs_ready [OF D(2)] by auto
    with w(2) show ?thesis by auto
  qed
  have dist: "p \<notin> set ps" using qrep_dlist [OF D(1,10)] Qs by (auto simp: dlist_def)
  have k1: "kbase {p} ?s1 ?Q1"
  proof -
    have "kbase (insert p {}) ?s1 (Q(sleepq s := [] @ ps))"
    proof (rule kbase_leave [OF K(1) D(10) _ _ w(3)])
      show "qkey (qt x) = qkey (queuetab s x)" if "x \<in> set (Q (readylist s))" for x
        using qt(2) nr [OF that] by simp
      show "0 \<le> qkey (qt x)" if "x \<in> set ((Q(sleepq s := [] @ ps)) (sleepq s))" for x
      proof -
        have "x \<in> set ps" "x \<noteq> p" using that dist by auto
        then show ?thesis using qt(2) sleep_keys [OF K(1)] Qs by simp
      qed
    qed (use Qs qt(1) in simp_all)
    then show ?thesis by simp
  qed
  have pf: "prstate (proctab ?s1 p) \<noteq> PR_FREE" "{p} - {p} = {}" "p \<in> {p} \<or> unqueued (prstate (proctab ?s1 p))"
    using w(2) by auto
  obtain s' Q' where r: "ready p ?s1 = Some (OK, s')" "kbase {} s' Q'" "ops_frame ?s1 ?Q1 s' Q'"
    "ndefers ?s1 > 0 \<longrightarrow> currpid s' = currpid ?s1 \<and> attempt s' = True \<and>
       proctab s' = (proctab ?s1)(p := (proctab ?s1 p)\<lparr>prstate := PR_READY\<rparr>) \<and>
       Q' = ?Q1(readylist ?s1 := pri_insert (\<lambda>x. qkey (queuetab ?s1 x)) (prprio (proctab ?s1 p)) p (?Q1 (readylist ?s1))) \<and>
       (\<forall>x. x \<noteq> p \<longrightarrow> qkey (queuetab s' x) = qkey (queuetab ?s1 x))"
    by (rule ready_ok [OF k1 _ pf]) (use w(1) in assumption, rule that)
  have f: "ops_frame s ?Q1 s' Q'" by (rule ops_frame_queuetab [OF r(3)])
  have "sem_ok s ?Q1" using K(2) sem_ok_sleepq [OF D(2)] by simp
  then have so: "sem_ok s' Q'" by (rule sem_ok_frame [OF _ D(2) f])
  have cp: "currpid s \<noteq> p" using c w(2) by auto
  have d1: "ndefers ?s1 > 0" using d by simp
  note r4 = mp [OF r(4) d1]
  have e1: "currpid s' = currpid s" by (rule trans [OF conjunct1 [OF r4]]) simp
  have e2: "proctab s' = (proctab s)(p := (proctab s p)\<lparr>prstate := PR_READY\<rparr>)"
    by (rule trans [OF conjunct1 [OF conjunct2 [OF conjunct2 [OF r4]]]]) simp
  have qe: "queuetab ?s1 = qt" by simp
  have e3: "\<forall>x. x \<noteq> p \<longrightarrow> qkey (queuetab s' x) = qkey (qt x)"
    using conjunct2 [OF conjunct2 [OF conjunct2 [OF conjunct2 [OF r4]]]] unfolding qe .
  note e = e1 e2 e3
  show ?thesis
  proof (rule that [OF r(1,2) so _ f e(2)])
    show "prstate (proctab s' (currpid s')) = PR_CURR" using e(1,2) cp c by simp
    show "\<forall>x. x \<noteq> p \<longrightarrow> qkey (queuetab s' x) = qkey (queuetab s x)" using e(3) qt(2) by simp
    show "Q' (sleepq s) = ps" using ops_frameD(9) [OF f, of "sleepq s"] rs by simp
  qed
qed

lemma first_sleeper:
  assumes K: "kbase {} s Q"
  shows "nonempty (sleepq s) s \<longleftrightarrow> Q (sleepq s) \<noteq> []"
    "Q (sleepq s) = p # ps \<Longrightarrow> firstkey (sleepq s) s = qkey (queuetab s p) \<and> firstid (sleepq s) s = p"
proof -
  note D = kbaseD [OF K]
  have dl: "dlist (queuetab s) (sleepq s) (Q (sleepq s))" by (rule qrep_dlist [OF D(1,10)])
  show "nonempty (sleepq s) s \<longleftrightarrow> Q (sleepq s) \<noteq> []"
    using isempty_Nil [OF dl] D(10) by (auto simp: nonempty_not_isempty qids_def)
  show "Q (sleepq s) = p # ps \<Longrightarrow> firstkey (sleepq s) s = qkey (queuetab s p) \<and> firstid (sleepq s) s = p"
    using dl by (simp add: firstkey_Cons firstid_Cons)
qed

lemma wakeup_loop_ok:
  assumes "kbase {} s Q" "sem_ok s Q" "prstate (proctab s (currpid s)) = PR_CURR" "ndefers s > 0"
    "Q (sleepq s) = ps"
  shows "\<exists>s' Q'. wakeup_loop s = Some s' \<and> kbase {} s' Q' \<and> sem_ok s' Q' \<and>
     prstate (proctab s' (currpid s')) = PR_CURR \<and>
     ops_frame s (Q(sleepq s := dropWhile (\<lambda>p. qkey (queuetab s p) \<le> 0) ps)) s' Q' \<and>
     (\<forall>p \<in> set (takeWhile (\<lambda>p. qkey (queuetab s p) \<le> 0) ps). prstate (proctab s' p) = PR_READY) \<and>
     (\<forall>p. p \<notin> set (takeWhile (\<lambda>p. qkey (queuetab s p) \<le> 0) ps) \<longrightarrow> proctab s' p = proctab s p \<and>
        qkey (queuetab s' p) = qkey (queuetab s p))"
  using assms
proof (induction ps arbitrary: s Q)
  case Nil
  then have "wakeup_loop s = Some s" using first_sleeper(1) [OF Nil(1)]
    by (subst wakeup_loop.simps) simp
  then show ?case using Nil by (intro exI [of _ s] exI [of _ Q]) (simp add: fun_upd_idem)
next
  case (Cons p ps)
  note D = kbaseD [OF Cons.prems(1)]
  note fs = first_sleeper [OF Cons.prems(1)]
  show ?case
  proof (cases "qkey (queuetab s p) \<le> 0")
    case False
    then have "wakeup_loop s = Some s"
      using fs(1) fs(2) [OF Cons.prems(5)] by (subst wakeup_loop.simps) simp
    then show ?thesis using False Cons.prems by (intro exI [of _ s] exI [of _ Q]) (simp add: fun_upd_idem)
  next
    case True
    obtain qt where q: "dequeue (sleepq s) s = (p, s\<lparr>queuetab := qt\<rparr>)"
      "qrep qt (nextqid s) (Q(sleepq s := ps))" "\<forall>x. qkey (qt x) = qkey (queuetab s x)"
      using dequeue_qrep [OF D(1,10) Cons.prems(5)] by blast
    have q3: "\<And>x. x \<noteq> p \<Longrightarrow> qkey (qt x) = qkey (queuetab s x)" using q(3) by simp
    obtain s1 Q1 where r: "ready p (s\<lparr>queuetab := qt\<rparr>) = Some (OK, s1)" "kbase {} s1 Q1" "sem_ok s1 Q1"
      "prstate (proctab s1 (currpid s1)) = PR_CURR" "ops_frame s (Q(sleepq s := ps)) s1 Q1"
      "proctab s1 = (proctab s)(p := (proctab s p)\<lparr>prstate := PR_READY\<rparr>)"
      "\<forall>x. x \<noteq> p \<longrightarrow> qkey (queuetab s1 x) = qkey (queuetab s x)" "Q1 (sleepq s) = ps"
      using wake_one [OF Cons.prems q(2) q3] by blast
    note fr = ops_frameD [OF r(5)]
    have dist: "p \<notin> set ps" using qrep_dlist [OF D(1,10)] Cons.prems(5) by (auto simp: dlist_def)
    have tw: "takeWhile (\<lambda>p. qkey (queuetab s1 p) \<le> 0) ps = takeWhile (\<lambda>p. qkey (queuetab s p) \<le> 0) ps"
      "dropWhile (\<lambda>p. qkey (queuetab s1 p) \<le> 0) ps = dropWhile (\<lambda>p. qkey (queuetab s p) \<le> 0) ps"
      using r(7) dist by (auto intro!: takeWhile_cong dropWhile_cong)
    have "ndefers s1 > 0" "Q1 (sleepq s1) = ps" using fr(3,5) Cons.prems(4) r(8) by simp_all
    from Cons.IH [OF r(2-4) this] obtain s2 Q2 where l: "wakeup_loop s1 = Some s2" "kbase {} s2 Q2"
      "sem_ok s2 Q2" "prstate (proctab s2 (currpid s2)) = PR_CURR"
      "ops_frame s1 (Q1(sleepq s1 := dropWhile (\<lambda>p. qkey (queuetab s p) \<le> 0) ps)) s2 Q2"
      "\<forall>p \<in> set (takeWhile (\<lambda>p. qkey (queuetab s p) \<le> 0) ps). prstate (proctab s2 p) = PR_READY"
      "\<forall>p. p \<notin> set (takeWhile (\<lambda>p. qkey (queuetab s p) \<le> 0) ps) \<longrightarrow> proctab s2 p = proctab s1 p \<and>
        qkey (queuetab s2 p) = qkey (queuetab s1 p)"
      unfolding tw by blast
    have rs: "sleepq s \<noteq> readylist s" using D(2) by (simp add: wiring_def)
    have "wakeup_loop s = Some s2"
      using fs(1) fs(2) [OF Cons.prems(5)] Cons.prems(5) True q(1) r(1) l(1)
      by (subst wakeup_loop.simps) simp
    moreover have "ops_frame s (Q(sleepq s := dropWhile (\<lambda>p. qkey (queuetab s p) \<le> 0) ps)) s2 Q2"
      using ops_frame_trans [OF ops_frame_upd [OF r(5) rs] l(5) [unfolded fr(3)]] .
    moreover have np: "p \<notin> set (takeWhile (\<lambda>p. qkey (queuetab s p) \<le> 0) ps)"
      using dist by (auto dest: set_takeWhileD)
    have "prstate (proctab s2 p) = PR_READY" using l(7) np r(6) by simp
    then have "\<forall>x \<in> insert p (set (takeWhile (\<lambda>p. qkey (queuetab s p) \<le> 0) ps)).
        prstate (proctab s2 x) = PR_READY" using l(6) by blast
    moreover have "\<forall>x. x \<notin> insert p (set (takeWhile (\<lambda>p. qkey (queuetab s p) \<le> 0) ps)) \<longrightarrow>
        proctab s2 x = proctab s x \<and> qkey (queuetab s2 x) = qkey (queuetab s x)"
      using l(7) r(6,7) by simp
    moreover have "takeWhile (\<lambda>p. qkey (queuetab s p) \<le> 0) (p # ps) =
        p # takeWhile (\<lambda>p. qkey (queuetab s p) \<le> 0) ps"
      "dropWhile (\<lambda>p. qkey (queuetab s p) \<le> 0) (p # ps) = dropWhile (\<lambda>p. qkey (queuetab s p) \<le> 0) ps"
      using True by simp_all
    ultimately show ?thesis using l(2-4) by (simp only: list.set) blast
  qed
qed

text \<open>
  The loop started on a table whose first sleeper has just been counted down to zero or below.
\<close>

lemma wakeup_first:
  assumes K: "kbase {} s Q" "sem_ok s Q" and c: "prstate (proctab s (currpid s)) = PR_CURR"
    and d: "ndefers s > 0" and Qs: "Q (sleepq s) = p # ps" and k: "qkey (queuetab s p) \<le> 1"
  shows "\<exists>s' Q'. wakeup_loop (upd_q p (\<lambda>e. e\<lparr>qkey := qkey e - 1\<rparr>) s) = Some s' \<and> kbase {} s' Q' \<and>
     sem_ok s' Q' \<and> prstate (proctab s' (currpid s')) = PR_CURR \<and>
     ops_frame s (Q(sleepq s := dropWhile (\<lambda>p. qkey (queuetab s p) \<le> 0) ps)) s' Q' \<and>
     (\<forall>x \<in> set (p # takeWhile (\<lambda>p. qkey (queuetab s p) \<le> 0) ps). prstate (proctab s' x) = PR_READY) \<and>
     (\<forall>x. x \<notin> set (p # takeWhile (\<lambda>p. qkey (queuetab s p) \<le> 0) ps) \<longrightarrow> proctab s' x = proctab s x \<and>
        qkey (queuetab s' x) = qkey (queuetab s x))"
proof -
  let ?d = "upd_q p (\<lambda>e. e\<lparr>qkey := qkey e - 1\<rparr>) s"
  note D = kbaseD [OF K(1)]
  have dl: "dlist (queuetab s) (sleepq s) (p # ps)" using qrep_dlist [OF D(1,10)] Qs by simp
  have pr: "p \<in> {0..<NPROC}" using sleeping_state(1) [OF K(1)] Qs by simp
  have qd: "qrep (queuetab ?d) (nextqid ?d) Q"
    by (rule qrep_keys_irrelevant [where qt = "queuetab s"]) (use D(1) pr in auto)
  have sq: "sleepq ?d \<in> qids (nextqid ?d)" "Q (sleepq ?d) = p # ps" using D(10) Qs by simp_all
  have dd: "dlist (queuetab ?d) (sleepq s) (p # ps)" using qrep_dlist [OF qd sq(1)] Qs by simp
  have fst: "nonempty (sleepq ?d) ?d" "firstkey (sleepq ?d) ?d \<le> 0"
    using isempty_Nil [OF dd] D(10) firstkey_Cons [OF dd] k by (auto simp: nonempty_not_isempty qids_def)
  obtain qt where q: "dequeue (sleepq ?d) ?d = (p, ?d\<lparr>queuetab := qt\<rparr>)"
    "qrep qt (nextqid ?d) (Q(sleepq ?d := ps))" "\<forall>x. qkey (qt x) = qkey (queuetab ?d x)"
    using dequeue_qrep [OF qd sq] by blast
  have e: "?d\<lparr>queuetab := qt\<rparr> = s\<lparr>queuetab := qt\<rparr>" by (simp add: upd_q_def)
  have q2: "qrep qt (nextqid s) (Q(sleepq s := ps))" using q(2) by simp
  have q3: "\<And>x. x \<noteq> p \<Longrightarrow> qkey (qt x) = qkey (queuetab s x)" using q(3) by simp
  obtain s1 Q1 where r: "ready p (s\<lparr>queuetab := qt\<rparr>) = Some (OK, s1)" "kbase {} s1 Q1" "sem_ok s1 Q1"
    "prstate (proctab s1 (currpid s1)) = PR_CURR" "ops_frame s (Q(sleepq s := ps)) s1 Q1"
    "proctab s1 = (proctab s)(p := (proctab s p)\<lparr>prstate := PR_READY\<rparr>)"
    "\<forall>x. x \<noteq> p \<longrightarrow> qkey (queuetab s1 x) = qkey (queuetab s x)" "Q1 (sleepq s) = ps"
    using wake_one [OF K c d Qs q2 q3] by blast
  note fr = ops_frameD [OF r(5)]
  have dist: "p \<notin> set ps" using dl by (auto simp: dlist_def)
  have tw: "takeWhile (\<lambda>p. qkey (queuetab s1 p) \<le> 0) ps = takeWhile (\<lambda>p. qkey (queuetab s p) \<le> 0) ps"
    "dropWhile (\<lambda>p. qkey (queuetab s1 p) \<le> 0) ps = dropWhile (\<lambda>p. qkey (queuetab s p) \<le> 0) ps"
    using r(7) dist by (auto intro!: takeWhile_cong dropWhile_cong)
  have "ndefers s1 > 0" "Q1 (sleepq s1) = ps" using fr(3,5) d r(8) by simp_all
  from wakeup_loop_ok [OF r(2-4) this] obtain s2 Q2 where l: "wakeup_loop s1 = Some s2" "kbase {} s2 Q2"
    "sem_ok s2 Q2" "prstate (proctab s2 (currpid s2)) = PR_CURR"
    "ops_frame s1 (Q1(sleepq s1 := dropWhile (\<lambda>p. qkey (queuetab s p) \<le> 0) ps)) s2 Q2"
    "\<forall>p \<in> set (takeWhile (\<lambda>p. qkey (queuetab s p) \<le> 0) ps). prstate (proctab s2 p) = PR_READY"
    "\<forall>p. p \<notin> set (takeWhile (\<lambda>p. qkey (queuetab s p) \<le> 0) ps) \<longrightarrow> proctab s2 p = proctab s1 p \<and>
      qkey (queuetab s2 p) = qkey (queuetab s1 p)"
    unfolding tw by blast
  have rs: "sleepq s \<noteq> readylist s" using D(2) by (simp add: wiring_def)
  have w: "wakeup_loop ?d = Some s2"
    using fst q(1) r(1) l(1) unfolding e by (subst wakeup_loop.simps) simp
  have f: "ops_frame s (Q(sleepq s := dropWhile (\<lambda>p. qkey (queuetab s p) \<le> 0) ps)) s2 Q2"
    using ops_frame_trans [OF ops_frame_upd [OF r(5) rs] l(5) [unfolded fr(3)]] .
  have np: "p \<notin> set (takeWhile (\<lambda>p. qkey (queuetab s p) \<le> 0) ps)"
    using dist by (auto dest: set_takeWhileD)
  have "prstate (proctab s2 p) = PR_READY" using l(7) np r(6) by simp
  then have a: "\<forall>x \<in> set (p # takeWhile (\<lambda>p. qkey (queuetab s p) \<le> 0) ps). prstate (proctab s2 x) = PR_READY"
    using l(6) by simp
  have b: "\<forall>x. x \<notin> set (p # takeWhile (\<lambda>p. qkey (queuetab s p) \<le> 0) ps) \<longrightarrow>
      proctab s2 x = proctab s x \<and> qkey (queuetab s2 x) = qkey (queuetab s x)"
    using l(7) r(6,7) by simp
  show ?thesis using w l(2-4) f a b by blast
qed

section \<open>The clock tick\<close>

definition eligible :: "'a ks \<Rightarrow> int \<Rightarrow> bool" where
  "eligible s p \<longleftrightarrow> prstate (proctab s p) \<in> {PR_READY, PR_CURR}"

lemma sched_frame_eligible:
  assumes "sched_frame s Q s' Q'"
  shows "eligible s' p = eligible s p"
proof -
  have "prstate (proctab s' p) \<noteq> prstate (proctab s p) \<longrightarrow>
      {prstate (proctab s p), prstate (proctab s' p)} \<subseteq> {PR_READY, PR_CURR}"
    using assms unfolding sched_frame_def by blast
  then show ?thesis by (cases "prstate (proctab s' p) = prstate (proctab s p)") (simp_all add: eligible_def)
qed

lemma sched_frame_sleep_keys:
  assumes "sched_frame s Q s' Q'" "kbase {} s Q"
  shows "\<forall>x \<in> set (Q (sleepq s)). qkey (queuetab s' x) = qkey (queuetab s x)"
proof
  fix x assume "x \<in> set (Q (sleepq s))"
  then have "prstate (proctab s x) \<noteq> PR_CURR" using sleeping_state(2) [OF assms(2)] by fastforce
  then show "qkey (queuetab s' x) = qkey (queuetab s x)"
    using assms(1) unfolding sched_frame_def by blast
qed

lemma running_sleepers:
  assumes "running s Q"
  shows "sleepers s = wake (\<lambda>p. qkey (queuetab s p)) 0 (Q (sleepq s))"
  using running_kinvD [OF assms] kbaseD(10) [OF runningD(1) [OF assms]] by (simp add: sleepers_def)

lemma sleepers_same:
  assumes R: "running s Q" "running s' Q'" and q: "sleepq s' = sleepq s" "Q' (sleepq s) = Q (sleepq s)"
    and k: "\<forall>x \<in> set (Q (sleepq s)). qkey (queuetab s' x) = qkey (queuetab s x)"
  shows "sleepers s' = sleepers s"
  unfolding running_sleepers [OF R(1)] running_sleepers [OF R(2)] q
  by (rule wake_cong) (use k in simp)

lemma wake_pass:
  "\<forall>p \<in> set ps. 0 \<le> k p \<Longrightarrow>
     filter (\<lambda>(p, w). w > t) (wake k t ps) = wake k t (dropWhile (\<lambda>p. k p \<le> 0) ps)"
proof (induction ps)
  case (Cons p ps)
  show ?case
  proof (cases "k p \<le> 0")
    case True
    then have "k p = 0" using Cons.prems by simp
    then show ?thesis using Cons by simp
  next
    case False
    have "\<forall>(q, w) \<in> set (wake k t (p # ps)). w > t"
    proof safe
      fix q w assume "(q, w) \<in> set (wake k t (p # ps))"
      then have "t + k p \<le> w" using Cons.prems wake_ge [of ps k q w "t + k p"] by auto
      with False show "w > t" by simp
    qed
    then have "filter (\<lambda>(p, w). w > t) (wake k t (p # ps)) = wake k t (p # ps)"
      by (auto simp only: filter_id_conv)
    with False show ?thesis by simp
  qed
qed simp

lemma wakeup_ok:
  assumes R: "running s Q" and Qs: "Q (sleepq s) = p # ps" and k: "qkey (queuetab s p) \<le> 1"
  shows "\<exists>s' Q'. wakeup (upd_q p (\<lambda>e. e\<lparr>qkey := qkey e - 1\<rparr>) s) = Some s' \<and> running s' Q' \<and>
     sleepers s' = wake (\<lambda>p. qkey (queuetab s p)) 0 (dropWhile (\<lambda>p. qkey (queuetab s p) \<le> 0) ps) \<and>
     (\<forall>x. eligible s x \<longrightarrow> eligible s' x) \<and>
     (\<forall>x \<in> set (p # takeWhile (\<lambda>p. qkey (queuetab s p) \<le> 0) ps). eligible s' x)"
proof -
  let ?f = "\<lambda>e. e\<lparr>qkey := qkey e - 1\<rparr>"
  let ?s = "s\<lparr>ndefers := 1, attempt := False\<rparr>"
  let ?W = "takeWhile (\<lambda>p. qkey (queuetab s p) \<le> 0) ps" and ?D = "dropWhile (\<lambda>p. qkey (queuetab s p) \<le> 0) ps"
  note r = runningD [OF R]
  have d1: "resched_cntl DEFER_START (upd_q p ?f s) = Some (OK, upd_q p ?f ?s)"
    using r(4) by (simp add: resched_cntl_def upd_q_def Let_def)
  have h: "kbase {} ?s Q" "sem_ok ?s Q" "prstate (proctab ?s (currpid ?s)) = PR_CURR" "ndefers ?s > 0"
    "Q (sleepq ?s) = p # ps" "qkey (queuetab ?s p) \<le> 1"
    using r Qs k by (simp_all add: sem_ok_def)
  have e: "queuetab ?s = queuetab s" "proctab ?s = proctab s" "sleepq ?s = sleepq s" by simp_all
  obtain s1 Q1 where l: "wakeup_loop (upd_q p ?f ?s) = Some s1" "kbase {} s1 Q1" "sem_ok s1 Q1"
    "prstate (proctab s1 (currpid s1)) = PR_CURR" "ops_frame ?s (Q(sleepq s := ?D)) s1 Q1"
    "\<forall>x \<in> set (p # ?W). prstate (proctab s1 x) = PR_READY"
    "\<forall>x. x \<notin> set (p # ?W) \<longrightarrow> proctab s1 x = proctab s x \<and> qkey (queuetab s1 x) = qkey (queuetab s x)"
    using wakeup_first [OF h] unfolding e by blast
  note fr = ops_frameD [OF l(5)]
  have n1: "ndefers s1 = 1" "sleepq s1 = sleepq s" using fr(3,5) by simp_all
  have rs: "sleepq s \<noteq> readylist s" using r(5) by (simp add: wiring_def)
  have Q1: "Q1 (sleepq s) = ?D" using fr(9) [of "sleepq s"] rs by simp
  obtain s2 Q2 where st: "resched_cntl DEFER_STOP s1 = Some (OK, s2)" "running s2 Q2"
    "ops_frame (s1\<lparr>ndefers := 0\<rparr>) Q1 s2 Q2" "sched_frame (s1\<lparr>ndefers := 0\<rparr>) Q1 s2 Q2"
    by (rule defer_stop [OF l(2,3) n1(1) l(4)])
  note fr2 = ops_frameD [OF st(3)]
  have Q2: "Q2 (sleepq s) = ?D" "sleepq s2 = sleepq s"
    using fr2(9) [of "sleepq s"] fr2(3) fr(2) rs n1(2) Q1 by simp_all
  have el: "eligible s2 x = eligible s1 x" for x
    using sched_frame_eligible [OF st(4)] by (simp add: eligible_def)
  have k2: "\<forall>x \<in> set ?D. qkey (queuetab s2 x) = qkey (queuetab s1 x)"
    using sched_frame_sleep_keys [OF st(4)] l(2) n1(2) Q1 by simp
  have dist: "distinct (p # ps)"
    using qrep_dlist [OF kbaseD(1,10) [OF r(1)]] Qs by (simp add: dlist_def)
  have out: "x \<notin> set (p # ?W)" if "x \<in> set ?D" for x
    using dist that distinct_append [of ?W ?D] by (auto simp: takeWhile_dropWhile_id dest: set_dropWhileD)
  have "sleepers s2 = wake (\<lambda>p. qkey (queuetab s2 p)) 0 ?D"
    using running_sleepers [OF st(2)] Q2 by simp
  also have "\<dots> = wake (\<lambda>p. qkey (queuetab s p)) 0 ?D"
    by (rule wake_cong) (use k2 l(7) out in metis)
  finally have sl: "sleepers s2 = wake (\<lambda>p. qkey (queuetab s p)) 0 ?D" .
  have e1: "eligible s1 x" if "eligible s x" for x
    using l(6,7) that by (cases "x \<in> set (p # ?W)") (auto simp: eligible_def)
  have e2: "\<forall>x \<in> set (p # ?W). eligible s1 x" using l(6) by (simp add: eligible_def)
  have "wakeup (upd_q p ?f s) = Some s2"
    unfolding wakeup_def d1 using l(1) st(1) by simp
  then show ?thesis using st(2) sl e1 e2 el by metis
qed

text \<open>Counting down the first sleeper, when it still has to wait.\<close>

lemma countdown_running:
  assumes R: "running s Q" and Qs: "Q (sleepq s) = p # ps" and k: "1 \<le> qkey (queuetab s p)"
  shows "running (upd_q p (\<lambda>e. e\<lparr>qkey := qkey e - 1\<rparr>) s) Q"
    "sleepers (upd_q p (\<lambda>e. e\<lparr>qkey := qkey e - 1\<rparr>) s) = map (\<lambda>(p, w). (p, w - 1)) (sleepers s)"
proof -
  let ?d = "upd_q p (\<lambda>e. e\<lparr>qkey := qkey e - 1\<rparr>) s"
  note r = runningD [OF R]
  note D = kbaseD [OF r(1)]
  have p: "p \<in> set (Q (sleepq s))" using Qs by simp
  note sp = sleeping_state [OF r(1) p]
  have b: "belongs ?d = belongs s" by (intro ext belongs_cong) simp_all
  have w: "wiring ?d" using r(5) wiring_cong [of ?d s] by simp
  have q: "qrep (queuetab ?d) (nextqid ?d) Q"
    by (rule qrep_keys_irrelevant [where qt = "queuetab s"]) (use D(1) sp(1) in auto)
  have "p \<notin> set (Q (readylist s))"
    using D(3) [OF sp(1) D(9)] belongs_ready [OF D(2)] sp(2) by auto
  then have e: "qkey (queuetab ?d x) = qkey (queuetab s x)" if "x \<in> set (Q (readylist s))" for x
    using that by (cases "x = p") auto
  have ko: "key_order (\<lambda>p. qkey (queuetab ?d p)) (Q (readylist s))"
    using D(4) key_order_cong [where ps = "Q (readylist s)" and k = "\<lambda>p. qkey (queuetab ?d p)", OF e] by blast
  have sk: "\<forall>x \<in> set (Q (sleepq s)). 0 \<le> qkey (queuetab ?d x)"
    using sleep_keys [OF r(1)] k by auto
  have "kbase {} ?d Q"
    using r(1) b w q ko sk unfolding kbase_def by (simp only: upd_q_simps) blast
  moreover have "sem_ok ?d Q" using r(2) by (simp add: sem_ok_def)
  ultimately show R': "running ?d Q" using r by (simp add: running_def)
  have dist: "p \<notin> set ps" using qrep_dlist [OF D(1,10)] Qs by (auto simp: dlist_def)
  have e2: "qkey (queuetab ?d x) = qkey (queuetab s x)" if "x \<in> set ps" for x
    using that dist by (cases "x = p") auto
  have "wake (\<lambda>x. qkey (queuetab ?d x)) (qkey (queuetab s p) + - 1) ps =
      wake (\<lambda>x. qkey (queuetab s x)) (qkey (queuetab s p) + - 1) ps"
    by (rule wake_cong [where k = "\<lambda>x. qkey (queuetab ?d x)", OF e2])
  also have "\<dots> = map (\<lambda>(p, w). (p, w + - 1)) (wake (\<lambda>x. qkey (queuetab s x)) (qkey (queuetab s p)) ps)"
    by (rule wake_shift)
  finally show "sleepers ?d = map (\<lambda>(p, w). (p, w - 1)) (sleepers s)"
    using running_sleepers [OF R] running_sleepers [OF R'] Qs by simp
qed

lemma running_kept:
  assumes "running s Q" "queuetab s' = queuetab s" "nextqid s' = nextqid s" "readylist s' = readylist s"
    "sleepq s' = sleepq s" "semtab s' = semtab s" "proctab s' = proctab s" "currpid s' = currpid s"
    "ndefers s' = ndefers s"
  shows "running s' Q" "sleepers s' = sleepers s" "eligible s' = eligible s"
proof -
  have "kbase {} s' Q = kbase {} s Q" by (rule kbase_fields) (use assms in auto)
  moreover have "sem_ok s' Q = sem_ok s Q" using assms by (simp add: sem_ok_def)
  ultimately show "running s' Q" using assms by (simp add: running_def)
  show "sleepers s' = sleepers s" using assms by (simp add: sleepers_def)
  show "eligible s' = eligible s" using assms by (intro ext) (simp add: eligible_def)
qed

text \<open>The last step of the handler: pre-emption when the time slice is used up.\<close>

lemma preempt_step:
  assumes R: "running s Q"
  shows "\<exists>s'. (let s = s\<lparr>preempt := preempt s - 1\<rparr>
      in if preempt s \<le> 0 then resched (s\<lparr>preempt := QUANTUM\<rparr>) else Some s) = Some s' \<and>
    kinv s' \<and> sleepers s' = sleepers s \<and> eligible s' = eligible s"
proof (cases "preempt s - 1 \<le> 0")
  case True
  let ?s = "s\<lparr>preempt := QUANTUM\<rparr>"
  have k: "running ?s Q" "sleepers ?s = sleepers s" "eligible ?s = eligible s"
    by (rule running_kept [OF R]; simp)+
  note r = runningD [OF k(1)]
  note D = kbaseD [OF r(1)]
  obtain s' Q' where a: "resched ?s = Some s'" "kbase {} s' Q'" "sched_frame ?s Q s' Q'"
    "\<not> ndefers ?s > 0 \<longrightarrow> prstate (proctab s' (currpid s')) = PR_CURR"
    using resched_ok [OF r(1)] by blast
  note f = sched_ops_frame [OF a(3)]
  have run: "running s' Q'"
    using a(2,4) sem_ok_frame [OF r(2,5) f] ops_frameD(5) [OF f] r(4) by (simp add: running_def)
  have q: "sleepq s' = sleepq ?s" "Q' (sleepq ?s) = Q (sleepq ?s)"
    using ops_frameD(3,9) [OF f] D(2) by (auto simp: wiring_def)
  have "sleepers s' = sleepers s"
    using sleepers_same [OF k(1) run q sched_frame_sleep_keys [OF a(3) r(1)]] k(2) by simp
  moreover have "eligible s' = eligible s" using sched_frame_eligible [OF a(3)] k(3) by (intro ext) simp
  ultimately show ?thesis using True a(1) running_kinv [OF run] by simp
next
  case False
  let ?s = "s\<lparr>preempt := preempt s - 1\<rparr>"
  have "running ?s Q" "sleepers ?s = sleepers s" "eligible ?s = eligible s"
    by (rule running_kept [OF R]; simp)+
  with False show ?thesis by (intro exI [of _ ?s]) (simp add: running_kinv)
qed

text \<open>The middle of the handler: counting down the first sleeper and waking the due ones.\<close>

definition countdown :: "'a ks \<Rightarrow> 'a ks option" where
  "countdown s =
     (if \<not> isempty (sleepq s) s then do {
        let first = firstid (sleepq s) s;
        let s = upd_q first (\<lambda>e. e\<lparr>qkey := qkey e - 1\<rparr>) s;
        if qkey (queuetab s first) \<le> 0 then wakeup s else Some s
      }
      else Some s)"

lemma img_fst: "(q, v) \<in> set xs \<Longrightarrow> q \<in> set (map fst xs)"
  by (force simp: image_iff)

lemma countdown_ok:
  assumes R: "running s Q"
  shows "\<exists>s' Q'. countdown s = Some s' \<and> running s' Q' \<and> (\<forall>x. eligible s x \<longrightarrow> eligible s' x) \<and>
    ((\<forall>(p, w) \<in> set (sleepers s). 0 < w) \<longrightarrow>
       sleepers s' = map (\<lambda>(p, w). (p, w - 1)) (filter (\<lambda>(p, w). w > 1) (sleepers s)) \<and>
       (\<forall>(p, w) \<in> set (sleepers s). w \<le> 1 \<longrightarrow> eligible s' p))"
proof (cases "Q (sleepq s)")
  case Nil
  then have "isempty (sleepq s) s"
    using first_sleeper(1) [OF runningD(1) [OF R]] by (simp add: nonempty_not_isempty)
  moreover have "sleepers s = []" using running_sleepers [OF R] Nil by simp
  ultimately show ?thesis using R by (intro exI [of _ s] exI [of _ Q]) (simp add: countdown_def)
next
  case (Cons p ps)
  let ?k = "\<lambda>p. qkey (queuetab s p)"
  note r = runningD [OF R]
  have ne: "\<not> isempty (sleepq s) s" and fi: "firstid (sleepq s) s = p"
    using first_sleeper [OF r(1)] Cons by (auto simp: nonempty_not_isempty)
  have ks: "0 \<le> ?k p" "\<forall>x \<in> set ps. 0 \<le> ?k x" using sleep_keys [OF r(1)] Cons by auto
  have sl: "sleepers s = (p, ?k p) # wake ?k (?k p) ps" using running_sleepers [OF R] Cons by simp
  show ?thesis
  proof (cases "?k p \<le> 1")
    case True
    obtain s' Q' where w: "wakeup (upd_q p (\<lambda>e. e\<lparr>qkey := qkey e - 1\<rparr>) s) = Some s'" "running s' Q'"
      "sleepers s' = wake ?k 0 (dropWhile (\<lambda>p. ?k p \<le> 0) ps)" "\<forall>x. eligible s x \<longrightarrow> eligible s' x"
      "\<forall>x \<in> set (p # takeWhile (\<lambda>p. ?k p \<le> 0) ps). eligible s' x"
      using wakeup_ok [OF R Cons True] by blast
    have c: "countdown s = Some s'" using ne fi True w(1) by (simp add: countdown_def)
    show ?thesis
    proof (intro exI [of _ s'] exI [of _ Q'] conjI impI c w(2,4))
      assume pos: "\<forall>(p, w) \<in> set (sleepers s). 0 < w"
      then have k1: "?k p = 1" using sl True by auto
      let ?D = "dropWhile (\<lambda>p. ?k p \<le> 0) ps"
      have f: "filter (\<lambda>(p, w). w > 1) (sleepers s) = wake ?k (0 + 1) ?D"
        using sl k1 wake_pass [OF ks(2), of 1] by simp
      show "sleepers s' = map (\<lambda>(p, w). (p, w - 1)) (filter (\<lambda>(p, w). w > 1) (sleepers s))"
        unfolding f wake_shift w(3) by (simp add: split_beta comp_def)
      have late: "1 < v" if "(q, v) \<in> set (wake ?k 1 ?D)" for q v
      proof -
        have "(q, v) \<in> set (filter (\<lambda>(p, w). w > 1) (sleepers s))" using that f by simp
        then show ?thesis by simp
      qed
      show "\<forall>(q, v) \<in> set (sleepers s). v \<le> 1 \<longrightarrow> eligible s' q"
      proof safe
        fix q v assume q: "(q, v) \<in> set (sleepers s)" "v \<le> 1"
        show "eligible s' q"
        proof (cases "q = p")
          case False
          then have qv: "(q, v) \<in> set (wake ?k 1 ps)" using q(1) sl k1 by auto
          have "wake ?k 1 ps = wake ?k 1 (takeWhile (\<lambda>p. ?k p \<le> 0) ps) @ wake ?k 1 ?D"
            using ks(2)
          proof (induction ps)
            case (Cons a as)
            then show ?case by (cases "?k a \<le> 0") auto
          qed simp
          with qv late q(2) have "(q, v) \<in> set (wake ?k 1 (takeWhile (\<lambda>p. ?k p \<le> 0) ps))" by fastforce
          then have "q \<in> set (map fst (wake ?k 1 (takeWhile (\<lambda>p. ?k p \<le> 0) ps)))" by (rule img_fst)
          then show ?thesis using w(5) by simp
        qed (use w(5) in simp)
      qed
    qed
  next
    case False
    let ?s = "upd_q p (\<lambda>e. e\<lparr>qkey := qkey e - 1\<rparr>) s"
    have c: "countdown s = Some ?s" using ne fi False by (simp add: countdown_def)
    have k1: "1 \<le> ?k p" using False by simp
    have late: "1 < v" if "(q, v) \<in> set (sleepers s)" for q v
      using that sl False wake_ge [OF ks(2), of q v "?k p"] by force
    have f: "filter (\<lambda>(p, w). w > 1) (sleepers s) = sleepers s"
      using late by (auto simp only: filter_id_conv)
    show ?thesis
      by (intro exI [of _ ?s] exI [of _ Q] conjI impI c countdown_running [OF R Cons k1])
        (use f countdown_running(2) [OF R Cons k1] in \<open>auto simp: eligible_def dest!: late\<close>)
  qed
qed

lemma clkhandler_steps:
  "clkhandler s = do {
     let s = s\<lparr>count1000 := count1000 s - 1\<rparr>;
     let s = (if count1000 s \<le> 0 then s\<lparr>clktime := clktime s + 1, count1000 := 1000\<rparr> else s);
     s \<leftarrow> countdown s;
     (let s = s\<lparr>preempt := preempt s - 1\<rparr>
      in if preempt s \<le> 0 then resched (s\<lparr>preempt := QUANTUM\<rparr>) else Some s)
   }"
  unfolding clkhandler_def countdown_def ..

lemma clkhandler_ok:
  assumes I: "kinv s"
  shows "\<exists>s'. clkhandler s = Some s' \<and> kinv s' \<and> (\<forall>x. eligible s x \<longrightarrow> eligible s' x) \<and>
    ((\<forall>(p, w) \<in> set (sleepers s). 0 < w) \<longrightarrow>
       sleepers s' = map (\<lambda>(p, w). (p, w - 1)) (filter (\<lambda>(p, w). w > 1) (sleepers s)) \<and>
       (\<forall>(p, w) \<in> set (sleepers s). w \<le> 1 \<longrightarrow> eligible s' p))"
proof -
  let ?a = "s\<lparr>count1000 := count1000 s - 1\<rparr>"
  let ?s = "if count1000 ?a \<le> 0 then ?a\<lparr>clktime := clktime ?a + 1, count1000 := 1000\<rparr> else ?a"
  have k: "running ?s (queue_list (queuetab s))" "sleepers ?s = sleepers s" "eligible ?s = eligible s"
    by (rule running_kept [OF kinv_running [OF I]]; simp)+
  obtain s1 Q1 where c: "countdown ?s = Some s1" "running s1 Q1" "\<forall>x. eligible s x \<longrightarrow> eligible s1 x"
    "(\<forall>(p, w) \<in> set (sleepers s). 0 < w) \<longrightarrow>
       sleepers s1 = map (\<lambda>(p, w). (p, w - 1)) (filter (\<lambda>(p, w). w > 1) (sleepers s)) \<and>
       (\<forall>(p, w) \<in> set (sleepers s). w \<le> 1 \<longrightarrow> eligible s1 p)"
    using countdown_ok [OF k(1)] unfolding k(2,3) by blast
  obtain s2 where p: "(let s = s1\<lparr>preempt := preempt s1 - 1\<rparr>
      in if preempt s \<le> 0 then resched (s\<lparr>preempt := QUANTUM\<rparr>) else Some s) = Some s2"
    "kinv s2" "sleepers s2 = sleepers s1" "eligible s2 = eligible s1"
    using preempt_step [OF c(2)] by blast
  have "clkhandler s = Some s2"
    unfolding clkhandler_steps Let_def using c(1) p(1) by (simp add: Let_def)
  with p c show ?thesis by metis
qed

lemma clkhandler_kinv: "kinv s \<Longrightarrow> \<exists>s'. clkhandler s = Some s' \<and> kinv s'"
  using clkhandler_ok by blast

section \<open>Going to sleep\<close>

text \<open>What \<open>sleepms\<close> and \<open>recvtime\<close> share: the caller joins the delta list and gives up the CPU.\<close>

lemma go_to_sleep:
  assumes R: "running s Q" and nz: "currpid s \<noteq> NULLPROC" and dl: "0 \<le> delay"
    and st: "st = PR_SLEEP \<or> st = PR_RECTIM"
  obtains qt s' Q' where "insertd (currpid s) (sleepq s) delay s = Some (OK, s\<lparr>queuetab := qt\<rparr>)"
    "resched (upd_proc (currpid s) (\<lambda>p. p\<lparr>prstate := st\<rparr>) (s\<lparr>queuetab := qt\<rparr>)) = Some s'"
    "running s' Q'" "prstate (proctab s' (currpid s)) = st" "currpid s' \<noteq> currpid s"
    "sleepers s' = takeWhile (\<lambda>(p, w). w \<le> delay) (sleepers s) @ (currpid s, delay) #
       dropWhile (\<lambda>(p, w). w \<le> delay) (sleepers s)"
    "\<forall>p. proctab s' p = (proctab s p)\<lparr>prstate := prstate (proctab s' p)\<rparr>"
proof -
  let ?c = "currpid s" and ?q = "sleepq s" and ?k = "\<lambda>p. qkey (queuetab s p)"
  note r = runningD [OF R]
  note D = kbaseD [OF r(1)]
  have rs: "readylist s \<noteq> ?q" using r(5) by (simp add: wiring_def)
  have dist: "distinct (Q ?q)" using qrep_dlist [OF D(1,10)] by (simp add: dlist_def)
  have nq: "in_no_queue ?c (nextqid s) Q" by (rule kbase_no_queue [OF r(1) D(5)]) (simp add: r(3))
  then have cq: "?c \<notin> set (Q ?q)" "?c \<notin> set (Q (readylist s))" using D(9,10) by (auto simp: in_no_queue_def)
  have bp: "\<not> isbadpid ?c s" using D(5) r(3) by (auto simp: isbadpid_def)
  obtain xs ys d where di: "dins ?k delay (Q ?q) = (xs, ys, d)" by (metis prod_cases3)
  note ap = dins_append [OF di]
  have dd: "0 \<le> d \<and> d \<le> delay \<and> (ys \<noteq> [] \<longrightarrow> d < ?k (hd ys))"
    by (rule dins_delta [OF di _ dl]) (use sleep_keys [OF r(1)] in simp)
  obtain qt where i: "insertd ?c ?q delay s = Some (OK, s\<lparr>queuetab := qt\<rparr>)"
    "qrep qt (nextqid s) (Q(?q := xs @ ?c # ys))" "\<forall>x. qkey (qt x) = dkeys ?k ?c d ys x"
    using insertd_qrep [OF D(1,10) bp nq di] by blast
  let ?s = "upd_proc ?c (\<lambda>p. p\<lparr>prstate := st\<rparr>) (s\<lparr>queuetab := qt\<rparr>)" and ?Q = "Q(?q := xs @ ?c # ys)"
  have other: "qkey (qt x) = ?k x" if "x \<noteq> ?c" "x \<notin> set ys" for x
    using i(3) that by (cases ys) (simp_all add: dkeys_def)
  have disj: "x \<notin> set (Q ?q)" if x: "x \<in> set (Q (readylist s))" for x
    using qrep_disjoint [OF D(1) D(9) D(10) rs] x by blast
  have K: "kbase {} ?s ?Q"
  proof (rule kbase_move [OF r(1) i(2) D(5), where e = "(proctab s ?c)\<lparr>prstate := st\<rparr>"])
    show "x \<in> set (?Q r) \<longleftrightarrow> x \<in> set (Q r)" if "x \<noteq> ?c" for r x using that ap by auto
    show "?c \<in> set (?Q r) \<longleftrightarrow> ?c \<notin> {} \<and> belongs s ((proctab s ?c)\<lparr>prstate := st\<rparr>) r"
      if "r \<in> qids (nextqid s)" for r
      using nq that st by (auto simp: in_no_queue_def belongs_def)
    have "?Q (readylist s) = Q (readylist s)" using rs by simp
    moreover have "key_order (\<lambda>p. qkey (qt p)) (Q (readylist s)) = key_order ?k (Q (readylist s))"
    proof (rule key_order_cong)
      fix x assume x: "x \<in> set (Q (readylist s))"
      have "x \<noteq> ?c" using cq(2) x by blast
      moreover have "x \<notin> set ys" using disj [OF x] ap by simp
      ultimately show "qkey (qt x) = ?k x" by (rule other)
    qed
    ultimately show "key_order (\<lambda>p. qkey (qt p)) (?Q (readylist s))" using D(4) by simp
    show "0 \<le> qkey (qt x)" if "x \<in> set (?Q (sleepq s))" for x
    proof -
      have "\<forall>p \<in> set (Q ?q). 0 \<le> ?k p" by (rule sleep_keys [OF r(1)])
      then show ?thesis using that ap dd i(3) by (cases ys) (auto simp: dkeys_def)
    qed
    show "x = currpid ?s" if "x \<in> {0..<NPROC}" "x \<noteq> ?c" "prstate (proctab s x) = PR_CURR" for x
      using D(7) [OF that(1,3)] by simp
  qed (use nz st D(5) D(8) [OF D(5)] in auto)
  obtain s' Q' where e: "resched ?s = Some s'" "kbase {} s' Q'" "sched_frame ?s ?Q s' Q'"
    "\<not> ndefers ?s > 0 \<longrightarrow> prstate (proctab s' (currpid s')) = PR_CURR"
    using resched_ok [OF K] by blast
  note f = sched_ops_frame [OF e(3)]
  have "sem_ok s ?Q" using r(2) sem_ok_sleepq [OF r(5)] by blast
  moreover have "sem_ok ?s ?Q = sem_ok s ?Q" by (simp add: sem_ok_def)
  ultimately have so: "sem_ok ?s ?Q" by blast
  have cu: "prstate (proctab s' (currpid s')) = PR_CURR" using e(4) r(4) by simp
  have run: "running s' Q'"
    using e(2) cu sem_ok_frame [OF so kbaseD(2) [OF K] f] ops_frameD(5) [OF f] r(4) by (simp add: running_def)
  have sc: "prstate (proctab s' ?c) = st" using sched_frame_state [OF e(3), of ?c] st by auto
  have ne: "currpid s' \<noteq> ?c" using cu sc st by auto
  have Q': "Q' ?q = xs @ ?c # ys" "sleepq s' = ?q"
    using ops_frameD(9) [OF f, of ?q] ops_frameD(3) [OF f] rs by simp_all
  have "sleepers s' = wake (\<lambda>p. qkey (queuetab s' p)) 0 (xs @ ?c # ys)"
    using running_sleepers [OF run] Q' by simp
  also have "\<dots> = wake (dkeys ?k ?c d ys) 0 (xs @ ?c # ys)"
    by (rule wake_cong) (use sched_frame_sleep_keys [OF e(3) K] i(3) in auto)
  also have "\<dots> = takeWhile (\<lambda>(p, w). w \<le> delay) (sleepers s) @ (?c, delay) #
       dropWhile (\<lambda>(p, w). w \<le> delay) (sleepers s)"
    using wake_dins [OF di cq(1) dist, of 0] running_sleepers [OF R] by simp
  finally have sl: "sleepers s' = takeWhile (\<lambda>(p, w). w \<le> delay) (sleepers s) @ (?c, delay) #
       dropWhile (\<lambda>(p, w). w \<le> delay) (sleepers s)" .
  have pf: "proctab s' p = (proctab ?s p)\<lparr>prstate := prstate (proctab s' p)\<rparr>" for p
    using f unfolding ops_frame_def by blast
  have "proctab s' p = (proctab s p)\<lparr>prstate := prstate (proctab s' p)\<rparr>" for p
    using pf [of p] by (cases "p = ?c") (simp_all add: upd_proc_def)
  then show ?thesis by (intro that [OF i(1) e(1) run sc ne sl]) blast
qed

lemma sleepms_blocks:
  assumes I: "kinv s" and nz: "currpid s \<noteq> NULLPROC" and d: "0 < delay"
  obtains s' where "sleepms delay s = Some (OK, s')" "kinv s'" "prstate (proctab s' (currpid s)) = PR_SLEEP"
    "currpid s' \<noteq> currpid s"
    "sleepers s' = takeWhile (\<lambda>(p, w). w \<le> delay) (sleepers s) @ (currpid s, delay) #
       dropWhile (\<lambda>(p, w). w \<le> delay) (sleepers s)"
proof -
  have st: "PR_SLEEP = PR_SLEEP \<or> PR_SLEEP = PR_RECTIM" by simp
  have d0: "0 \<le> delay" using d by simp
  obtain qt s' Q' where g: "insertd (currpid s) (sleepq s) delay s = Some (OK, s\<lparr>queuetab := qt\<rparr>)"
    "resched (upd_proc (currpid s) (\<lambda>p. p\<lparr>prstate := PR_SLEEP\<rparr>) (s\<lparr>queuetab := qt\<rparr>)) = Some s'"
    "running s' Q'" "prstate (proctab s' (currpid s)) = PR_SLEEP" "currpid s' \<noteq> currpid s"
    "sleepers s' = takeWhile (\<lambda>(p, w). w \<le> delay) (sleepers s) @ (currpid s, delay) #
       dropWhile (\<lambda>(p, w). w \<le> delay) (sleepers s)"
    by (rule go_to_sleep [OF kinv_running [OF I] nz d0 st])
  have "sleepms delay s = Some (OK, s')" using g(1,2) d by (simp add: sleepms_def)
  then show ?thesis using that [of s'] g(4-6) running_kinv [OF g(3)] by blast
qed

lemma sleepms_kinv:
  assumes "kinv s" "currpid s \<noteq> NULLPROC"
  shows "\<exists>r s'. sleepms delay s = Some (r, s') \<and> kinv s'"
proof -
  consider "delay < 0" | "delay = 0" | "0 < delay" by linarith
  then show ?thesis
  proof cases
    case 1
    then show ?thesis using assms by (simp add: sleepms_def)
  next
    case 2
    obtain s' where "yield s = Some (OK, s')" "kinv s'" using yield_kinv [OF assms(1)] by blast
    with 2 show ?thesis by (simp add: sleepms_def)
  next
    case 3
    then show ?thesis using sleepms_blocks [OF assms] by blast
  qed
qed

lemma sleep_kinv:
  assumes "kinv s" "currpid s \<noteq> NULLPROC"
  shows "\<exists>r s'. sleep delay s = Some (r, s') \<and> kinv s'"
  using assms sleepms_kinv [OF assms, of "1000 * delay"] by (auto simp: sleep_def)

section \<open>Leaving the sleep queue early\<close>

text \<open>
  \<open>unsleep\<close> takes the process off the list and hands its delay to its successor, so nobody
  else's waking time moves. The process stays in its sleeping state, in no queue: the caller
  (\<open>kill\<close>, or the receiver that was sent a message) puts it into another state.
\<close>

lemma wake_remove:
  assumes "distinct (xs @ p # y # ys)" "k' y = k y + k p" "\<And>x. x \<noteq> y \<Longrightarrow> k' x = k x"
  shows "wake k' t (xs @ y # ys) = filter (\<lambda>(x, w). x \<noteq> p) (wake k t (xs @ p # y # ys))"
  using assms
proof (induction xs arbitrary: t)
  case Nil
  have "wake k' u ys = wake k u ys" for u
    by (rule wake_cong, rule Nil(3)) (use Nil(1) in auto)
  moreover have "filter (\<lambda>(x, w). x \<noteq> p) (wake k u ys) = wake k u ys" for u
    unfolding filter_id_conv using Nil img_fst [where xs = "wake k u ys"] by fastforce
  ultimately show ?case using Nil by (simp add: add.assoc add.commute add.left_commute)
qed auto

lemma wake_remove_last:
  assumes "distinct (xs @ [p])"
  shows "wake k t xs = filter (\<lambda>(x, w). x \<noteq> p) (wake k t (xs @ [p]))"
  using assms by (induction xs arbitrary: t) auto

lemma unsleep_ok:
  assumes K: "kbase {} s Q" and p: "p \<in> {0..<NPROC}"
    and st: "prstate (proctab s p) = PR_SLEEP \<or> prstate (proctab s p) = PR_RECTIM"
  obtains qt where "unsleep p s = (OK, s\<lparr>queuetab := qt\<rparr>)"
    "kbase {p} (s\<lparr>queuetab := qt\<rparr>) (Q(sleepq s := remove1 p (Q (sleepq s))))"
    "wake (\<lambda>x. qkey (qt x)) 0 (remove1 p (Q (sleepq s))) =
       filter (\<lambda>(x, w). x \<noteq> p) (wake (\<lambda>x. qkey (queuetab s x)) 0 (Q (sleepq s)))"
    "\<forall>x. x \<notin> set (Q (sleepq s)) \<longrightarrow> qkey (qt x) = qkey (queuetab s x)"
proof -
  let ?q = "sleepq s" and ?k = "\<lambda>x. qkey (queuetab s x)"
  note D = kbaseD [OF K]
  have pq: "p \<in> set (Q ?q)" using D(3) [OF p D(10)] belongs_sleep [OF D(2)] st by auto
  note sp = sleeping_state [OF K pq]
  have dl: "dlist (queuetab s) ?q (Q ?q)" by (rule qrep_dlist [OF D(1,10)])
  have dist: "distinct (Q ?q)" and mem: "set (Q ?q) \<subseteq> {0..<NPROC}" using dl by (auto simp: dlist_def)
  obtain xs ys where s: "Q ?q = xs @ p # ys" "p \<notin> set xs" using pq by (metis split_list_first)
  have rm: "remove1 p (Q ?q) = xs @ ys" using s by (simp add: remove1_append)
  have qb: "NPROC \<le> ?q" using D(10) by (simp add: qids_def)
  have nb: "\<not> isbadpid p s" using p st by (auto simp: isbadpid_def)
  have nx: "qnext (queuetab s p) = hd (ys @ [?q + 1])"
  proof -
    obtain us u where u: "?q # xs = us @ [u]" by (metis rev_exhaust list.distinct(1))
    obtain v vs where v: "ys @ [?q + 1] = v # vs" by (cases "ys @ [?q + 1]") auto
    have "?q # Q ?q @ [?q + 1] = us @ u # p # v # vs" using s(1) u v by simp
    with dl have "links (queuetab s) (us @ u # p # v # vs)" by (simp only: dlist_def)
    from links_neighbours [OF this] v show ?thesis by simp
  qed
  let ?s1 = "if qnext (queuetab s p) < NPROC
     then upd_q (qnext (queuetab s p)) (\<lambda>e. e\<lparr>qkey := qkey e + qkey (queuetab s p)\<rparr>) s else s"
  let ?k1 = "case ys of [] \<Rightarrow> ?k | y # _ \<Rightarrow> ?k(y := ?k y + ?k p)"
  have s1: "?s1 = s\<lparr>queuetab := queuetab ?s1\<rparr>" by (simp add: upd_q_def)
  have yin: "y \<in> {0..<NPROC}" "y \<noteq> p" if "y \<in> set ys" for y using that mem dist s(1) by auto
  have k1: "qkey (queuetab ?s1 x) = ?k1 x" for x
    using nx qb yin by (cases ys) auto
  have q1: "qrep (queuetab ?s1) (nextqid ?s1) Q"
    by (rule qrep_keys_irrelevant [where qt = "queuetab s"])
      (use D(1) nx qb yin in \<open>cases ys; auto\<close>)+
  have "?q \<in> qids (nextqid ?s1)" using D(10) by simp
  from getitem_qrep [OF q1 this pq] obtain qt where
    g: "getitem p ?s1 = (p, ?s1\<lparr>queuetab := qt\<rparr>)" "qrep qt (nextqid ?s1) (Q(?q := remove1 p (Q ?q)))"
    "\<forall>x. qkey (qt x) = qkey (queuetab ?s1 x)" by blast
  have e: "?s1\<lparr>queuetab := qt\<rparr> = s\<lparr>queuetab := qt\<rparr>" by (simp add: upd_q_def)
  have kk: "qkey (qt x) = ?k1 x" for x using g(3) k1 by simp
  have other: "qkey (qt x) = ?k x" if "x \<notin> set (Q ?q)" for x
    using kk [of x] that s(1) by (cases ys) auto
  have un: "unsleep p s = (OK, s\<lparr>queuetab := qt\<rparr>)"
    using nb st g(1) e by (auto simp: unsleep_def Let_def)
  have disj: "x \<notin> set (Q ?q)" if x: "x \<in> set (Q (readylist s))" for x
    using qrep_disjoint [OF D(1) D(9) D(10)] x D(2) unfolding wiring_def by blast
  have "kbase (insert p {}) (s\<lparr>queuetab := qt\<rparr>) (Q(?q := xs @ ys))"
  proof (rule kbase_leave [OF K D(10) s(1) _ sp(3)])
    have "nextqid ?s1 = nextqid s" by simp
    then show "qrep qt (nextqid s) (Q(?q := xs @ ys))" using g(2) unfolding rm by (simp only:)
    show "qkey (qt x) = qkey (queuetab s x)" if "x \<in> set (Q (readylist s))" for x
      by (rule other [OF disj [OF that]])
    show "0 \<le> qkey (qt x)" if "x \<in> set ((Q(?q := xs @ ys)) (sleepq s))" for x
    proof -
      have "\<forall>x \<in> set (Q ?q). 0 \<le> ?k x" by (rule sleep_keys [OF K])
      then show ?thesis using that s(1) kk [of x] by (cases ys) auto
    qed
  qed
  then have kb: "kbase {p} (s\<lparr>queuetab := qt\<rparr>) (Q(?q := remove1 p (Q ?q)))" using rm by simp
  have w: "wake (\<lambda>x. qkey (qt x)) 0 (remove1 p (Q ?q)) = filter (\<lambda>(x, w). x \<noteq> p) (wake ?k 0 (Q ?q))"
  proof (cases ys)
    case Nil
    have "(\<lambda>x. qkey (qt x)) = ?k" using kk Nil by (intro ext) simp
    then show ?thesis unfolding rm unfolding s(1) using Nil wake_remove_last [of xs p ?k 0] dist s(1) by simp
  next
    case (Cons y zs)
    have "wake (\<lambda>x. qkey (qt x)) 0 (xs @ y # zs) = filter (\<lambda>(x, w). x \<noteq> p) (wake ?k 0 (xs @ p # y # zs))"
      by (rule wake_remove) (use dist s(1) kk Cons in simp_all)
    then show ?thesis unfolding rm unfolding s(1) Cons .
  qed
  show ?thesis by (rule that [OF un kb w]) (use other in blast)
qed

section \<open>Properties\<close>


text \<open>
  C8: going to sleep blocks the caller and puts it on the delta list behind everybody who
  wakes no later and before everybody who wakes later, each sleeper keeping its own time.
\<close>

theorem sleepms_joins_sleepers:
  assumes "kinv s" "currpid s \<noteq> NULLPROC" "0 < delay"
  shows "\<exists>s'. sleepms delay s = Some (OK, s') \<and> kinv s' \<and> prstate (proctab s' (currpid s)) = PR_SLEEP \<and>
    sleepers s' = takeWhile (\<lambda>(p, w). w \<le> delay) (sleepers s) @ (currpid s, delay) #
      dropWhile (\<lambda>(p, w). w \<le> delay) (sleepers s)"
  using sleepms_blocks [OF assms] by blast


end
