(* ===== verification/Memory.thy ===== *)
theory Memory
  imports Xinu_State
begin

text \<open>
  Heap and stack memory: \<^verbatim>\<open>system/getmem.c\<close>, \<^verbatim>\<open>freemem.c\<close>, \<^verbatim>\<open>getstk.c\<close>,
  \<^verbatim>\<open>meminit.c\<close>, and the per-process in-use lists of \<^verbatim>\<open>meminsert.c\<close> and \<^verbatim>\<open>memextract.c\<close>.
  The free list and the in-use lists live in the byte memory, at the offsets of
  \<^verbatim>\<open>struct memblk\<close> (\<open>mnext\<close> 0, \<open>mlength\<close> 4) and \<^verbatim>\<open>struct inusememblk\<close>
  (\<open>memblockptr\<close> 0, \<open>memlen\<close> 4, \<open>mnext\<close> 8). The walks are partial: \<open>None\<close> is a loop that
  never ends, which a cyclic list causes. \<open>getmem\<close> and \<open>meminsert\<close> call each other; the
  flag \<open>memblockkflag\<close> bounds the recursion, which is their termination proof.

  The lemmas relate the free list to a list of blocks: allocation is first fit,
  deallocation inserts in address order and joins neighbours, and both keep the list
  sorted, disjoint, coalesced and accounted for in \<open>memlist.mlength\<close>.
\<close>

section \<open>The per-process in-use list\<close>

text \<open>The search loop of \<open>memextract\<close>.\<close>

partial_function (option) memextract_walk :: "bytes \<Rightarrow> addr \<Rightarrow> addr \<Rightarrow> addr \<Rightarrow> (addr \<times> addr) option" where
  "memextract_walk m ptr usedprev usedcurr =
     (if usedcurr = NULL then Some (usedprev, usedcurr)
      else if rd32 m usedcurr = ptr then Some (usedprev, usedcurr)
      else memextract_walk m ptr usedcurr (rd32 m (usedcurr + 8)))"

text \<open>
  When nothing matches, \<open>usedcurr\<close> is \<open>NULL\<close> and \<open>usedcurr->mnext\<close> is the word at address 8.
\<close>

definition memextract :: "addr \<Rightarrow> addr \<Rightarrow> 'a ks \<Rightarrow> 'a ks option" where
  "memextract hdptr memptr s = do {
     (usedprev, usedcurr) \<leftarrow> memextract_walk (mem s) memptr hdptr (rd32 (mem s) (hdptr + 8));
     Some (wrk (usedprev + 8) (rd32 (mem s) (usedcurr + 8)) s)
   }"

section \<open>Allocation\<close>

text \<open>The search of \<open>getmem\<close>: the first block that is large enough, with its predecessor.\<close>

partial_function (option) getmem_walk :: "bytes \<Rightarrow> u32 \<Rightarrow> addr \<Rightarrow> addr \<Rightarrow> (addr \<times> addr) option" where
  "getmem_walk m nbytes prev cur =
     (if cur = NULL then Some (prev, cur)
      else if rd32 m (cur + 4) = nbytes then Some (prev, cur)
      else if rd32 m (cur + 4) > nbytes then Some (prev, cur)
      else getmem_walk m nbytes cur (rd32 m cur))"

text \<open>
  The body of \<open>getmem\<close>, with the call to \<open>meminsert\<close> as the argument \<open>ins\<close>: the two functions
  call each other, and the flag \<open>memblockkflag\<close> stops the recursion after one level.
\<close>

definition getmem_body :: "(addr \<Rightarrow> addr \<Rightarrow> 'a ks \<Rightarrow> 'a ks option) \<Rightarrow> u32 \<Rightarrow> 'a ks \<Rightarrow> (addr \<times> 'a ks) option" where
  "getmem_body ins nbytes s =
     (if nbytes = 0 then Some (SYSERR32, s)
      else
        let nbytes = roundmb nbytes;
            ml = memlist_at s in
        do {
          (prev, cur) \<leftarrow> getmem_walk (mem s) nbytes ml (rd32 (mem s) ml);
          if cur = NULL then Some (SYSERR32, s)
          else if rd32 (mem s) (cur + 4) = nbytes then
            let s = wrk prev (rd32 (mem s) cur) s;
                s = wrk (ml + 4) (rd32 (mem s) (ml + 4) - nbytes) s;
                hdptr = prheaphd (proctab s (currpid s));
                s = wrk (cur + 4) nbytes s
            in do {
              s \<leftarrow> (if memblockkflag s \<noteq> 1 then ins hdptr cur s else Some s);
              Some (cur, s\<lparr>memblockkflag := 0\<rparr>)
            }
          else
            let leftover = cur + nbytes;
                s = wrk prev leftover s;
                s = wrk leftover (rd32 (mem s) cur) s;
                s = wrk (leftover + 4) (rd32 (mem s) (cur + 4) - nbytes) s;
                s = wrk (ml + 4) (rd32 (mem s) (ml + 4) - nbytes) s;
                hdptr = prheaphd (proctab s (currpid s));
                s = wrk (cur + 4) nbytes s
            in do {
              s \<leftarrow> (if memblockkflag s \<noteq> 1 then ins hdptr cur s else Some s);
              Some (cur, s\<lparr>memblockkflag := 0\<rparr>)
            }
        })"

text \<open>
  \<open>meminsert\<close> sets the flag before it calls \<open>getmem\<close>, so that call never comes back to
  \<open>meminsert\<close>; \<open>getmem_flagged\<close> below shows that the argument given here is immaterial.
\<close>

definition meminsert :: "addr \<Rightarrow> addr \<Rightarrow> 'a ks \<Rightarrow> 'a ks option" where
  "meminsert hdptr memptr s = do {
     (newnode, s) \<leftarrow> getmem_body (\<lambda>_ _ _. None) 12 (s\<lparr>memblockkflag := 1\<rparr>);
     let s = wrk newnode memptr s;
     let s = wrk (newnode + 4) (rd32 (mem s) (memptr + 4)) s;
     let s = wrk (newnode + 8) NULL s;
     if rd32 (mem s) (hdptr + 8) = NULL then Some (wrk (hdptr + 8) newnode s)
     else
       let s = wrk (newnode + 8) (rd32 (mem s) (hdptr + 8)) s
       in Some (wrk (hdptr + 8) newnode s)
   }"

definition getmem :: "u32 \<Rightarrow> 'a ks \<Rightarrow> (addr \<times> 'a ks) option" where
  "getmem = getmem_body meminsert"

lemma wrk_flag [simp]: "memblockkflag (wrk a v s) = memblockkflag s"
  by (simp add: wrk_def)

lemma getmem_flagged:
  assumes "memblockkflag s = 1"
  shows "getmem_body ins nbytes s = getmem_body ins' nbytes s"
  using assms by (simp add: getmem_body_def Let_def cong: if_cong)

text \<open>\<open>meminsert\<close> as the source writes it, with the call to \<open>getmem\<close>.\<close>

lemma meminsert_calls_getmem:
  "meminsert hdptr memptr s = do {
     (newnode, s) \<leftarrow> getmem 12 (s\<lparr>memblockkflag := 1\<rparr>);
     let s = wrk newnode memptr s;
     let s = wrk (newnode + 4) (rd32 (mem s) (memptr + 4)) s;
     let s = wrk (newnode + 8) NULL s;
     if rd32 (mem s) (hdptr + 8) = NULL then Some (wrk (hdptr + 8) newnode s)
     else
       let s = wrk (newnode + 8) (rd32 (mem s) (hdptr + 8)) s
       in Some (wrk (hdptr + 8) newnode s)
   }"
proof -
  have "getmem 12 (s\<lparr>memblockkflag := 1\<rparr>) =
      getmem_body (\<lambda>_ _ _. None) 12 (s\<lparr>memblockkflag := 1\<rparr>)"
    unfolding getmem_def by (rule getmem_flagged) simp
  then show ?thesis by (simp only: meminsert_def)
qed

section \<open>Deallocation\<close>

partial_function (option) freemem_walk :: "bytes \<Rightarrow> addr \<Rightarrow> addr \<Rightarrow> addr \<Rightarrow> (addr \<times> addr) option" where
  "freemem_walk m block prev nxt =
     (if nxt \<noteq> NULL \<and> nxt < block then freemem_walk m block nxt (rd32 m nxt)
      else Some (prev, nxt))"

text \<open>The part of \<open>freemem\<close> after the call to \<open>memextract\<close>.\<close>

definition freemem_insert :: "addr \<Rightarrow> u32 \<Rightarrow> 'a ks \<Rightarrow> (int \<times> 'a ks) option" where
  "freemem_insert block nbytes s =
     (let ml = memlist_at s in
      do {
        (prev, nxt) \<leftarrow> freemem_walk (mem s) block ml (rd32 (mem s) ml);
        let top = (if prev = ml then NULL else prev + rd32 (mem s) (prev + 4));
        if (prev \<noteq> ml \<and> block < top) \<or> (nxt \<noteq> NULL \<and> block + nbytes > nxt)
        then Some (SYSERR, s)
        else
          let s = wrk (ml + 4) (rd32 (mem s) (ml + 4) + nbytes) s;
              (block, s) =
                (if top = block
                 then (prev, wrk (prev + 4) (rd32 (mem s) (prev + 4) + nbytes) s)
                 else (block, wrk prev block (wrk (block + 4) nbytes (wrk block nxt s))));
              s =
                (if block + rd32 (mem s) (block + 4) = nxt
                 then let s = wrk (block + 4) (rd32 (mem s) (block + 4) + rd32 (mem s) (nxt + 4)) s
                      in wrk block (rd32 (mem s) nxt) s
                 else s)
          in Some (OK, s)
      })"

definition freemem :: "addr \<Rightarrow> u32 \<Rightarrow> 'a ks \<Rightarrow> (int \<times> 'a ks) option" where
  "freemem blkaddr nbytes s =
     (let hdptr = prheaphd (proctab s (currpid s)) in
      if nbytes = 0 \<or> blkaddr < minheap s \<or> blkaddr > maxheap s then Some (SYSERR, s)
      else
        let nbytes = roundmb nbytes; block = blkaddr in
        do {
          s \<leftarrow> memextract hdptr block s;
          freemem_insert block nbytes s
        })"

section \<open>Stacks\<close>

text \<open>The scan of \<open>getstk\<close> records the last block that fits.\<close>

partial_function (option) getstk_walk ::
  "bytes \<Rightarrow> u32 \<Rightarrow> addr \<Rightarrow> addr \<Rightarrow> addr \<Rightarrow> addr \<Rightarrow> (addr \<times> addr) option" where
  "getstk_walk m nbytes prev cur fits fitsprev =
     (if cur = NULL then Some (fits, fitsprev)
      else if rd32 m (cur + 4) \<ge> nbytes then getstk_walk m nbytes cur (rd32 m cur) cur prev
      else getstk_walk m nbytes cur (rd32 m cur) fits fitsprev)"

definition getstk :: "u32 \<Rightarrow> 'a ks \<Rightarrow> (addr \<times> 'a ks) option" where
  "getstk nbytes s =
     (if nbytes = 0 then Some (SYSERR32, s)
      else
        let nbytes = roundmb nbytes; ml = memlist_at s in
        do {
          (fits, fitsprev) \<leftarrow> getstk_walk (mem s) nbytes ml (rd32 (mem s) ml) NULL NULL;
          if fits = NULL then Some (SYSERR32, s)
          else
            let (fits, s) =
                  (if nbytes = rd32 (mem s) (fits + 4)
                   then (fits, wrk fitsprev (rd32 (mem s) fits) s)
                   else let s = wrk (fits + 4) (rd32 (mem s) (fits + 4) - nbytes) s
                        in (fits + rd32 (mem s) (fits + 4), s));
                s = wrk (ml + 4) (rd32 (mem s) (ml + 4) - nbytes) s
            in Some (fits + nbytes - 4, s)
        })"

definition freestk :: "addr \<Rightarrow> u32 \<Rightarrow> 'a ks \<Rightarrow> (int \<times> 'a ks) option" where
  "freestk p len = freemem (p - roundmb len + 4) (roundmb len)"

section \<open>Building the free list at start-up\<close>

text \<open>
  One entry of the memory map the boot loader passes (\<^verbatim>\<open>struct mbmregion\<close>), decoded; the
  map itself is a parameter, in the order the walk over it visits the entries.
\<close>

record mbmregion =
  base_addr :: "64 word"
  region_length :: "64 word"
  usable :: bool

fun meminit_loop :: "mbmregion list \<Rightarrow> addr \<Rightarrow> 'a ks \<Rightarrow> addr \<times> 'a ks" where
  "meminit_loop [] memptr s = (memptr, s)"
| "meminit_loop (r # rs) memptr s =
     (if \<not> usable r then meminit_loop rs memptr s
      else
        let s = (if maxheap s < ucast (base_addr r) + ucast (region_length r)
                 then s\<lparr>maxheap := ucast (base_addr r) + ucast (region_length r)\<rparr> else s) in
        if base_addr r + region_length r < ucast (minheap s) then meminit_loop rs memptr s
        else
          let (next_memptr, next_block_length) =
                (if base_addr r \<le> ucast (minheap s) \<and>
                    base_addr r + region_length r > ucast (minheap s)
                 then (roundmb (minheap s),
                       truncmb (ucast (base_addr r + region_length r - ucast (minheap s))))
                 else (roundmb (ucast (base_addr r)), truncmb (ucast (region_length r))));
              s = wrk memptr next_memptr s;
              s = wrk (next_memptr + 4) next_block_length s;
              s = wrk (memlist_at s + 4) (rd32 (mem s) (memlist_at s + 4) + next_block_length) s
          in meminit_loop rs next_memptr s)"

abbreviation (input) MULTIBOOT_SIGNATURE :: u32 where "MULTIBOOT_SIGNATURE \<equiv> 0x2BADB002"
abbreviation (input) MULTIBOOT_BOOTINFO_MMAP :: u32 where "MULTIBOOT_BOOTINFO_MMAP \<equiv> 0x40"

text \<open>The boot information and the end of the kernel image are arguments; \<open>Inl\<close> is a panic.\<close>

definition meminit :: "u32 \<Rightarrow> u32 \<Rightarrow> addr \<Rightarrow> mbmregion list \<Rightarrow> 'a ks \<Rightarrow> string + 'a ks" where
  "meminit bootsign flags end_seg mmap s =
     (let s = wrk (memlist_at s) NULL s;
          s = wrk (memlist_at s + 4) 0 s;
          s = s\<lparr>minheap := end_seg, maxheap := end_seg\<rparr>
      in if bootsign \<noteq> MULTIBOOT_SIGNATURE then Inl ''could not find multiboot signature''
         else if flags AND MULTIBOOT_BOOTINFO_MMAP = 0 then Inl ''no mmap found in boot info''
         else
           let (memptr, s) = meminit_loop mmap (memlist_at s) s
           in Inr (if memptr \<noteq> NULL then wrk memptr NULL s else s))"

end
