(* ===== verification/Heap.thy ===== *)
theory Heap
  imports Memory
begin

text \<open>
  What the allocator of \<^verbatim>\<open>Memory\<close> keeps true of the heap, on the abstract view of the free
  list as a list of (address, length) blocks: \<open>alloc\<close> is first fit, \<open>alloc_top\<close> the last-fit
  search for stacks, \<open>release\<close> the insertion with coalescing. The refinement lemmas say that
  \<open>getmem\<close>, \<open>getstk\<close> and \<open>freemem\<close> are these functions on the list in memory; the lemmas
  on the abstract functions say which bytes change hands.
\<close>

section \<open>The free list in memory\<close>

type_synonym block = "addr \<times> u32"

definition flist :: "bytes \<Rightarrow> addr \<Rightarrow> block list \<Rightarrow> bool" where
  "flist m c bs \<longleftrightarrow> lchain (rd32 m) (rd32 m c) (map fst bs) \<and> (\<forall>(a, n) \<in> set bs. rd32 m (a + 4) = n)"

text \<open>
  \<open>blocks g lo hi bs\<close>: non-empty blocks of whole units of 8 bytes, in address order between
  \<open>lo\<close> and \<open>hi\<close>, with a gap of at least \<open>g\<close> bytes between neighbours. The free list has
  \<open>g = 1\<close>: neighbours that touch have been joined.
\<close>

fun blocks :: "nat \<Rightarrow> nat \<Rightarrow> nat \<Rightarrow> block list \<Rightarrow> bool" where
  "blocks g lo hi [] \<longleftrightarrow> True"
| "blocks g lo hi ((a, n) # bs) \<longleftrightarrow> lo \<le> unat a \<and> 8 dvd unat a \<and> 8 dvd unat n \<and> 0 < unat n \<and>
     unat a + unat n \<le> hi \<and> blocks g (unat a + unat n + g) hi bs"

fun bytes_of :: "block list \<Rightarrow> nat set" where
  "bytes_of [] = {}"
| "bytes_of ((a, n) # bs) = {unat a..<unat a + unat n} \<union> bytes_of bs"

lemma bytes_of_append [simp]: "bytes_of (xs @ ys) = bytes_of xs \<union> bytes_of ys"
  by (induction xs rule: bytes_of.induct) auto

lemma blocks_weaken: "blocks g lo hi bs \<Longrightarrow> g' \<le> g \<Longrightarrow> lo' \<le> lo \<Longrightarrow> hi \<le> hi' \<Longrightarrow> blocks g' lo' hi' bs"
proof (induction g lo hi bs arbitrary: lo' rule: blocks.induct)
  case (2 g lo hi a n bs)
  then have "blocks g' (unat a + unat n + g') hi' bs" by (intro 2(1)) auto
  with 2 show ?case by auto
qed simp

text \<open>Where the next block may start after \<open>bs\<close>.\<close>

fun bend :: "nat \<Rightarrow> nat \<Rightarrow> block list \<Rightarrow> nat" where
  "bend g lo [] = lo"
| "bend g lo ((a, n) # bs) = bend g (unat a + unat n + g) bs"

lemma blocks_append [simp]:
  "blocks g lo hi (xs @ ys) \<longleftrightarrow> blocks g lo hi xs \<and> blocks g (bend g lo xs) hi ys"
  by (induction g lo hi xs rule: blocks.induct) auto

lemma bend_append [simp]: "bend g lo (xs @ ys) = bend g (bend g lo xs) ys"
  by (induction g lo xs rule: bend.induct) auto

lemma bend_bounds: "blocks g lo hi xs \<Longrightarrow> lo \<le> bend g lo xs \<and> (xs \<noteq> [] \<longrightarrow> bend g lo xs \<le> hi + g) \<and>
   (\<forall>x \<in> bytes_of xs. x < bend g lo xs)"
proof (induction g lo hi xs rule: blocks.induct)
  case (2 g lo hi a n xs)
  then have "unat a + unat n + g \<le> bend g (unat a + unat n + g) xs"
    "xs \<noteq> [] \<longrightarrow> bend g (unat a + unat n + g) xs \<le> hi + g"
    "\<forall>x \<in> bytes_of xs. x < bend g (unat a + unat n + g) xs" by auto
  with 2(2) show ?case by (cases xs) auto
qed simp

lemma bytes_of_bounds: "blocks g lo hi bs \<Longrightarrow> bytes_of bs \<subseteq> {lo..<hi}"
proof (induction g lo hi bs rule: blocks.induct)
  case (2 g lo hi a n bs)
  then have "bytes_of bs \<subseteq> {unat a + unat n + g..<hi}" by simp
  with 2(2) show ?case by (auto simp: subset_iff)
qed simp

lemma blocks_in: "blocks g lo hi bs \<Longrightarrow> (a, n) \<in> set bs \<Longrightarrow>
   lo \<le> unat a \<and> 8 dvd unat a \<and> 8 dvd unat n \<and> 8 \<le> unat n \<and> unat a + unat n \<le> hi"
proof (induction g lo hi bs rule: blocks.induct)
  case (2 g lo hi b k bs)
  then show ?case by (auto dest: dvd_imp_le)
qed simp

text \<open>Two free lists with the same bytes are the same list: coalescing makes it canonical.\<close>

lemma blocks_first:
  assumes "blocks 1 lo hi ((a, n) # bs)"
  shows "unat a \<in> bytes_of ((a, n) # bs)" "\<forall>x \<in> bytes_of ((a, n) # bs). unat a \<le> x"
    "unat a + unat n \<notin> bytes_of ((a, n) # bs)" "{unat a..<unat a + unat n} \<subseteq> bytes_of ((a, n) # bs)"
    "bytes_of bs = {x \<in> bytes_of ((a, n) # bs). unat a + unat n < x}"
proof -
  have b: "\<forall>x \<in> bytes_of bs. unat a + unat n < x" and n: "0 < unat n"
    using assms bytes_of_bounds [of 1 "unat a + unat n + 1" hi bs] by auto
  show "unat a \<in> bytes_of ((a, n) # bs)" "\<forall>x \<in> bytes_of ((a, n) # bs). unat a \<le> x"
    "unat a + unat n \<notin> bytes_of ((a, n) # bs)" "{unat a..<unat a + unat n} \<subseteq> bytes_of ((a, n) # bs)"
    "bytes_of bs = {x \<in> bytes_of ((a, n) # bs). unat a + unat n < x}"
    using b n by auto
qed

lemma blocks_canonical:
  "blocks 1 lo hi bs \<Longrightarrow> blocks 1 lo' hi' bs' \<Longrightarrow> bytes_of bs = bytes_of bs' \<Longrightarrow> bs = bs'"
proof (induction bs arbitrary: bs' lo lo')
  case Nil
  then show ?case
  proof (cases bs')
    case (Cons b cs)
    then show ?thesis using Nil blocks_first(1) [of lo' hi' "fst b" "snd b" cs] by simp
  qed simp
next
  case (Cons b bs)
  obtain a n where b: "b = (a, n)" by (cases b)
  show ?case
  proof (cases bs')
    case Nil
    with Cons.prems b blocks_first(1) [of lo hi a n bs] show ?thesis by simp
  next
    case (Cons b' cs)
    obtain a' n' where b': "b' = (a', n')" by (cases b')
    define B where "B = bytes_of ((a, n) # bs)"
    have B': "B = bytes_of ((a', n') # cs)"
      using Cons.prems(3) Cons b b' by (simp add: B_def)
    note f = blocks_first [OF Cons.prems(1) [unfolded b], folded B_def]
    note f' = blocks_first [OF Cons.prems(2) [unfolded Cons b'], folded B']
    have aa: "unat a = unat a'" using f(1,2) f'(1,2) by (metis order_antisym)
    have "\<not> unat n < unat n'" using f(3) f'(4) aa by (auto simp: subset_iff)
    moreover have "\<not> unat n' < unat n" using f'(3) f(4) aa by (auto simp: subset_iff)
    ultimately have nn: "unat n = unat n'" by linarith
    from Cons.prems(1) b have P: "blocks 1 (unat a + unat n + 1) hi bs" by simp
    from Cons.prems(2) Cons b' have P': "blocks 1 (unat a' + unat n' + 1) hi' cs" by simp
    have "bytes_of bs = bytes_of cs" using f(5) f'(5) aa nn by simp
    with Cons.IH [OF P P'] have "bs = cs" by simp
    moreover from aa nn have "a = a'" "n = n'" by (simp_all add: word_unat_eq_iff)
    ultimately show ?thesis using Cons b b' by simp
  qed
qed

section \<open>First fit\<close>

definition alloc :: "u32 \<Rightarrow> block list \<Rightarrow> (addr \<times> block list) option" where
  "alloc nb bs =
     (let xs = takeWhile (\<lambda>(a, n). n < nb) bs in
      case dropWhile (\<lambda>(a, n). n < nb) bs of
        [] \<Rightarrow> None
      | (a, n) # ys \<Rightarrow> Some (a, xs @ (if n = nb then ys else (a + nb, n - nb) # ys)))"

definition total :: "block list \<Rightarrow> nat" where
  "total bs = (\<Sum>(a, n) \<leftarrow> bs. unat n)"

lemma total_simps [simp]:
  "total [] = 0" "total ((a, n) # bs) = unat n + total bs" "total (xs @ ys) = total xs + total ys"
  by (simp_all add: total_def)

lemma total_bound: "blocks g lo hi bs \<Longrightarrow> total bs \<le> hi - lo"
  by (induction g lo hi bs rule: blocks.induct) auto

lemma alloc_split:
  assumes "alloc nb bs = Some (a, bs')"
  obtains xs n ys where "bs = xs @ (a, n) # ys" "nb \<le> n" "\<forall>(b, k) \<in> set xs. k < nb"
    "bs' = xs @ (if n = nb then ys else (a + nb, n - nb) # ys)"
    "dropWhile (\<lambda>(a, n). n < nb) bs = (a, n) # ys" "takeWhile (\<lambda>(a, n). n < nb) bs = xs"
proof -
  let ?xs = "takeWhile (\<lambda>(a, n). n < nb) bs"
  from assms obtain n ys where d: "dropWhile (\<lambda>(a, n). n < nb) bs = (a, n) # ys"
    and b: "bs' = ?xs @ (if n = nb then ys else (a + nb, n - nb) # ys)"
    by (auto simp: alloc_def Let_def split: list.splits prod.splits if_splits)
  have "bs = ?xs @ (a, n) # ys" by (metis d takeWhile_dropWhile_id)
  moreover have "nb \<le> n"
  proof -
    have "\<not> (case hd (dropWhile (\<lambda>(a, n). n < nb) bs) of (a, n) \<Rightarrow> n < nb)"
      by (rule hd_dropWhile) (simp add: d)
    with d show ?thesis by simp
  qed
  moreover have "\<forall>(b, k) \<in> set ?xs. k < nb" by (metis (mono_tags) set_takeWhileD)
  ultimately show ?thesis using that b d by blast
qed

text \<open>What changes hands: the block comes out of the free bytes, and only it.\<close>

lemma alloc_blocks:
  assumes A: "alloc nb bs = Some (a, bs')" and B: "blocks 1 lo hi bs" and hi: "hi < 2 ^ 32"
    and nb: "0 < unat nb" "8 dvd unat nb"
  shows "blocks 1 lo hi bs'" "bytes_of bs = bytes_of bs' \<union> {unat a..<unat a + unat nb}"
    "bytes_of bs' \<inter> {unat a..<unat a + unat nb} = {}" "total bs = total bs' + unat nb"
    "8 dvd unat a" "lo \<le> unat a" "unat a + unat nb \<le> hi"
proof -
  from A obtain xs n ys where s: "bs = xs @ (a, n) # ys" "nb \<le> n"
    "bs' = xs @ (if n = nb then ys else (a + nb, n - nb) # ys)" by (rule alloc_split)
  let ?lo = "bend 1 lo xs"
  from B s have X: "blocks 1 lo hi xs" and Y: "blocks 1 (unat a + unat n + 1) hi ys"
    and a: "?lo \<le> unat a" "8 dvd unat a" "8 dvd unat n" "unat a + unat n \<le> hi" by auto
  from s(2) have le: "unat nb \<le> unat n" by (simp add: word_le_nat_alt)
  have u: "unat (a + nb) = unat a + unat nb" "unat (n - nb) = unat n - unat nb"
    using a le hi by (simp_all add: unat_plus_small unat_minus_le)
  note bx = bend_bounds [OF X] and yb = bytes_of_bounds [OF Y]
  have d: "8 dvd unat n - unat nb" using a(3) nb(2) by (rule dvd_diff_nat)
  have lt: "unat nb < unat n" if "n \<noteq> nb" using that le by (metis le_neq_implies_less word_unat_eq_iff)
  show "blocks 1 lo hi bs'"
  proof (cases "n = nb")
    case True
    then show ?thesis using X a s(3) blocks_weaken [OF Y, of 1 ?lo hi] by simp
  next
    case False
    then show ?thesis using X Y a s(3) u d lt nb by simp
  qed
  show "bytes_of bs = bytes_of bs' \<union> {unat a..<unat a + unat nb}"
    using s u le by (cases "n = nb") auto
  have "bytes_of xs \<inter> {unat a..<unat a + unat nb} = {}" using bx a by force
  moreover have "bytes_of ys \<inter> {unat a..<unat a + unat nb} = {}" using yb le by force
  ultimately show "bytes_of bs' \<inter> {unat a..<unat a + unat nb} = {}"
    using s(3) u by (cases "n = nb") auto
  show "total bs = total bs' + unat nb" using s u le by (cases "n = nb") auto
  show "8 dvd unat a" by (rule a)
  show "lo \<le> unat a" using bx a by linarith
  show "unat a + unat nb \<le> hi" using a le by linarith
qed

section \<open>The cells of the list\<close>

lemma flist_Cons: "flist m c ((a, n) # bs) \<longleftrightarrow>
   rd32 m c = a \<and> a \<noteq> NULL \<and> rd32 m (a + 4) = n \<and> flist m a bs"
  by (auto simp: flist_def)

lemma flist_Nil [simp]: "flist m c [] \<longleftrightarrow> rd32 m c = NULL"
  by (simp add: flist_def)

text \<open>The link cells of a list (offset 0) never meet its length cells (offset 4).\<close>

definition cells_ok :: "addr list \<Rightarrow> bool" where
  "cells_ok ns \<longleftrightarrow> distinct ns \<and> (\<forall>x \<in> set ns. aligned4 x) \<and> (\<forall>x \<in> set ns. \<forall>y \<in> set ns. x \<noteq> y + 4)"

lemma cells_okD:
  assumes "cells_ok ns"
  shows "distinct ns" "x \<in> set ns \<Longrightarrow> aligned4 x" "x \<in> set ns \<Longrightarrow> aligned4 (x + 4)"
    "x \<in> set ns \<Longrightarrow> y \<in> set ns \<Longrightarrow> x \<noteq> y + 4" "x \<in> set ns \<Longrightarrow> y \<in> set ns \<Longrightarrow> y + 4 \<noteq> x"
  using assms unfolding cells_ok_def by (auto simp del: add_cancel_right_right)

lemma blocks_cells:
  assumes "blocks 0 (unat c + 8) hi bs" "aligned4 c" "hi < 2 ^ 32"
  shows "cells_ok (c # map fst bs)"
  unfolding cells_ok_def using assms
proof (induction bs arbitrary: c)
  case Nil
  have "c \<noteq> c + 4" by simp
  with Nil show ?case by simp
next
  case (Cons b bs)
  obtain a n where b: "b = (a, n)" by (cases b)
  from Cons.prems b have n: "8 \<le> unat n" "unat c + 8 \<le> unat a" "8 dvd unat a"
    and B: "blocks 0 (unat a + unat n) hi bs" by (auto dest: dvd_imp_le)
  have "blocks 0 (unat a + 8) hi bs" by (rule blocks_weaken [OF B]) (use n in auto)
  from Cons.IH [OF this] n Cons.prems(3)
  have IH: "distinct (a # map fst bs)" "\<forall>x \<in> set (a # map fst bs). aligned4 x"
     "\<forall>x \<in> set (a # map fst bs). \<forall>y \<in> set (a # map fst bs). x \<noteq> y + 4"
    by (simp_all add: aligned4_dvd8)
  have ge: "unat c + 8 \<le> unat x \<and> unat x + 8 < 2 ^ 32" if "x \<in> set (a # map fst bs)" for x
  proof -
    from that b have "x \<in> fst ` set (b # bs)" by simp
    then obtain k where "(x, k) \<in> set (b # bs)" unfolding image_iff by (metis prod.collapse)
    from blocks_in [OF Cons.prems(1) this] Cons.prems(3) show ?thesis by simp
  qed
  have c4: "unat (c + 4) = unat c + 4" using ge [of a] by (simp add: unat_plus_small)
  have "x \<noteq> c \<and> x \<noteq> c + 4 \<and> c \<noteq> x + 4" if x: "x \<in> set (a # map fst bs)" for x
  proof -
    have "unat (x + 4) = unat x + 4" using ge [OF x] by (simp add: unat_plus_small)
    then show ?thesis using ge [OF x] c4 by auto
  qed
  moreover have "c \<noteq> c + 4" by simp
  ultimately show ?case using IH Cons.prems(2) b by auto
qed

lemma getmem_walk_flist:
  "flist m c bs \<Longrightarrow> getmem_walk m nb c (rd32 m c) =
     Some (last (c # map fst (takeWhile (\<lambda>(a, n). n < nb) bs)),
       case dropWhile (\<lambda>(a, n). n < nb) bs of [] \<Rightarrow> NULL | b # _ \<Rightarrow> fst b)"
proof (induction bs arbitrary: c)
  case Nil
  then show ?case by (simp add: getmem_walk.simps)
next
  case (Cons b bs)
  obtain a n where b: "b = (a, n)" by (cases b)
  from Cons.prems b have f: "rd32 m c = a" "a \<noteq> NULL" "rd32 m (a + 4) = n" "flist m a bs"
    by (simp_all add: flist_Cons)
  from Cons.IH [OF f(4)] f b show ?case
    by (subst getmem_walk.simps) auto
qed

lemma flist_frame:
  assumes "flist m c bs" "rd32 m' c' = rd32 m c"
    "\<And>x. x \<in> set (map fst bs) \<Longrightarrow> rd32 m' x = rd32 m x \<and> rd32 m' (x + 4) = rd32 m (x + 4)"
  shows "flist m' c' bs"
proof -
  have "lchain (rd32 m') (rd32 m c) (map fst bs) = lchain (rd32 m) (rd32 m c) (map fst bs)"
    by (rule lchain_cong) (use assms(3) in auto)
  with assms show ?thesis by (force simp: flist_def)
qed

lemma flist_relink:
  assumes "flist m c (xs @ old)"
    and "\<And>x. x \<in> set (butlast (c # map fst xs)) \<Longrightarrow> rd32 m' x = rd32 m x"
    and "\<And>x. x \<in> set (map fst xs) \<Longrightarrow> rd32 m' (x + 4) = rd32 m (x + 4)"
    and "flist m' (last (c # map fst xs)) zs"
  shows "flist m' c (xs @ zs)"
proof -
  from assms(1) have l: "lchain (rd32 m) (rd32 m c) (map fst xs @ map fst old)" by (simp add: flist_def)
  from assms(4) have z: "lchain (rd32 m') (rd32 m' (last (c # map fst xs))) (map fst zs)"
    by (simp add: flist_def)
  have "lchain (rd32 m') (rd32 m' c) (map fst xs @ map fst zs)"
    by (rule lchain_relink [OF l _ z]) (rule assms(2))
  moreover have "\<forall>(a, n) \<in> set (xs @ zs). rd32 m' (a + 4) = n"
    using assms(1,3,4) by (force simp: flist_def)
  ultimately show ?thesis by (simp add: flist_def)
qed

lemma flist_tail: "flist m c (xs @ ys) \<Longrightarrow> flist m (last (c # map fst xs)) ys"
  using lchain_tail [of "rd32 m" c "map fst xs" "map fst ys"] by (simp add: flist_def)

lemma last_not_in_butlast: "distinct xs \<Longrightarrow> xs \<noteq> [] \<Longrightarrow> x \<in> set (butlast xs) \<Longrightarrow> x \<noteq> last xs"
  by (metis append_butlast_last_id distinct_append disjoint_iff list.set_intros(1))

text \<open>Taking a whole block out of the list, and leaving the upper part of one in it.\<close>

lemma flist_unlink:
  assumes F: "flist m c (xs @ (a, n) # ys)" and B: "blocks 0 (unat c + 8) hi (xs @ (a, n) # ys)"
    and c: "aligned4 c" "hi < 2 ^ 32"
    and m': "m' = wr32 (wr32 (wr32 m (last (c # map fst xs)) (rd32 m a)) (c + 4) t) (a + 4) k"
  shows "flist m' c (xs @ ys)" "rd32 m' (c + 4) = t" "rd32 m' (a + 4) = k"
proof -
  let ?ns = "c # map fst xs @ a # map fst ys"
  obtain p where p: "p = last (c # map fst xs)" by blast
  have ok: "cells_ok ?ns" using blocks_cells [OF B c] by simp
  note C = cells_okD [OF ok]
  have pin: "p \<in> set (c # map fst xs)" unfolding p by (rule last_in_set) simp
  have pne: "p \<noteq> a" "p \<notin> set (map fst ys)" using pin C(1) by auto
  have cin: "c \<in> set ?ns" and ain: "a \<in> set ?ns" and pin': "p \<in> set ?ns" using pin by auto
  note al = C(2) [OF pin'] C(3) [OF cin] C(3) [OF ain]
  have r: "rd32 m' x = (if x = p then rd32 m a else rd32 m x)" if "x \<in> set ?ns" for x
    unfolding m' p [symmetric]
    using C(2) [OF that] C(5) [OF that cin] C(5) [OF that ain] al by (simp add: rd32_wr32)
  have r4: "rd32 m' (x + 4) = (if x = a then k else if x = c then t else rd32 m (x + 4))"
    if "x \<in> set ?ns" for x
    unfolding m' p [symmetric]
    using C(3) [OF that] C(4) [OF pin' that] al by (simp add: rd32_wr32)
  from F have fa: "flist m p ((a, n) # ys)" unfolding p by (rule flist_tail)
  then have "flist m a ys" by (simp add: flist_Cons)
  then have fy: "flist m' p ys"
  proof (rule flist_frame)
    show "rd32 m' p = rd32 m a" using r [OF pin'] by simp
    fix x assume x: "x \<in> set (map fst ys)"
    then have "x \<in> set ?ns" "x \<noteq> p" "x \<noteq> a" "x \<noteq> c" using C(1) pne(2) by auto
    then show "rd32 m' x = rd32 m x \<and> rd32 m' (x + 4) = rd32 m (x + 4)" using r r4 by simp
  qed
  show "flist m' c (xs @ ys)"
  proof (rule flist_relink [OF F])
    fix x assume x: "x \<in> set (butlast (c # map fst xs))"
    have "x \<noteq> p" unfolding p by (rule last_not_in_butlast [OF _ _ x]) (use C(1) in auto)
    moreover from x have "x \<in> set ?ns" by (auto dest!: in_set_butlastD split: if_splits)
    ultimately show "rd32 m' x = rd32 m x" using r by simp
  next
    fix x assume x: "x \<in> set (map fst xs)"
    then have "x \<in> set ?ns" "x \<noteq> a" "x \<noteq> c" using C(1) by auto
    then show "rd32 m' (x + 4) = rd32 m (x + 4)" using r4 by simp
  qed (use fy p in simp)
  show "rd32 m' (c + 4) = t" using r4 [of c] C(1) by simp
  show "rd32 m' (a + 4) = k" using r4 [of a] by simp
qed

lemma flist_cut:
  assumes F: "flist m c (xs @ (a, n) # ys)"
    and B: "blocks 0 (unat c + 8) hi (xs @ (a, nb) # (b, n - nb) # ys)"
    and c: "aligned4 c" "hi < 2 ^ 32" and b0: "b \<noteq> NULL"
    and m': "m' = wr32 (wr32 (wr32 (wr32 (wr32 m (last (c # map fst xs)) b) b (rd32 m a)) (b + 4) (n - nb))
      (c + 4) t) (a + 4) k"
  shows "flist m' c (xs @ (b, n - nb) # ys)" "rd32 m' (c + 4) = t" "rd32 m' (a + 4) = k"
proof -
  let ?ns = "c # map fst xs @ a # b # map fst ys"
  obtain p where p: "p = last (c # map fst xs)" by blast
  have ok: "cells_ok ?ns" using blocks_cells [OF B c] by simp
  note C = cells_okD [OF ok]
  have pin: "p \<in> set (c # map fst xs)" unfolding p by (rule last_in_set) simp
  have pne: "p \<noteq> a" "p \<noteq> b" "p \<notin> set (map fst ys)" using pin C(1) by auto
  have cin: "c \<in> set ?ns" and ain: "a \<in> set ?ns" and bin: "b \<in> set ?ns" and pin': "p \<in> set ?ns"
    using pin by auto
  note al = C(2) [OF pin'] C(2) [OF bin] C(3) [OF cin] C(3) [OF ain] C(3) [OF bin]
    C(5) [OF bin cin] C(5) [OF bin ain] C(5) [OF bin bin] pne(2)
  have r: "rd32 m' x = (if x = b then rd32 m a else if x = p then b else rd32 m x)" if "x \<in> set ?ns" for x
    unfolding m' p [symmetric]
    using C(2) [OF that] C(5) [OF that cin] C(5) [OF that ain] C(5) [OF that bin] al
    by (auto simp: rd32_wr32)
  have r4: "rd32 m' (x + 4) =
      (if x = a then k else if x = c then t else if x = b then n - nb else rd32 m (x + 4))"
    if "x \<in> set ?ns" for x
    unfolding m' p [symmetric]
    using C(3) [OF that] C(4) [OF pin' that] C(4) [OF bin that] al by (auto simp: rd32_wr32)
  from F have fa: "flist m p ((a, n) # ys)" unfolding p by (rule flist_tail)
  then have "flist m a ys" by (simp add: flist_Cons)
  then have fy: "flist m' b ys"
  proof (rule flist_frame)
    show "rd32 m' b = rd32 m a" using r [of b] by simp
    fix x assume x: "x \<in> set (map fst ys)"
    then have "x \<in> set ?ns" "x \<noteq> p" "x \<noteq> a" "x \<noteq> b" "x \<noteq> c" using C(1) pne(3) by auto
    then show "rd32 m' x = rd32 m x \<and> rd32 m' (x + 4) = rd32 m (x + 4)" using r r4 by simp
  qed
  have "b \<noteq> a" "b \<noteq> c" using C(1) by auto
  then have fb: "flist m' p ((b, n - nb) # ys)"
    using fy r [of p] r4 [of b] pin pne b0 by (simp add: flist_Cons)
  show "flist m' c (xs @ (b, n - nb) # ys)"
  proof (rule flist_relink [OF F])
    fix x assume x: "x \<in> set (butlast (c # map fst xs))"
    have "x \<noteq> p" unfolding p by (rule last_not_in_butlast [OF _ _ x]) (use C(1) in auto)
    moreover from x have "x \<in> set (c # map fst xs)" by (rule in_set_butlastD)
    then have "x \<in> set ?ns" "x \<noteq> b" using C(1) by auto
    ultimately show "rd32 m' x = rd32 m x" using r by simp
  next
    fix x assume x: "x \<in> set (map fst xs)"
    then have "x \<in> set ?ns" "x \<noteq> a" "x \<noteq> c" "x \<noteq> b" using C(1) by auto
    then show "rd32 m' (x + 4) = rd32 m (x + 4)" using r4 by simp
  qed (use fb p in simp)
  show "rd32 m' (c + 4) = t" using r4 [of c] C(1) by simp
  show "rd32 m' (a + 4) = k" using r4 [of a] by simp
qed

section \<open>The heap in a kernel state\<close>

text \<open>
  \<open>heap_ok s bs\<close>: the free list of \<open>s\<close> is \<open>bs\<close>, sorted, disjoint and coalesced between
  \<open>minheap\<close> and \<open>maxheap\<close>, and \<open>memlist.mlength\<close> is the number of free bytes.
\<close>

definition heap_ok :: "'a ks \<Rightarrow> block list \<Rightarrow> bool" where
  "heap_ok s bs \<longleftrightarrow> flist (mem s) (memlist_at s) bs \<and>
     blocks 1 (unat (minheap s)) (unat (maxheap s)) bs \<and>
     unat (rd32 (mem s) (memlist_at s + 4)) = total bs \<and>
     aligned4 (memlist_at s) \<and> unat (memlist_at s) + 8 \<le> unat (minheap s)"

abbreviation ml_bytes :: "'a ks \<Rightarrow> nat set" where
  "ml_bytes s \<equiv> {unat (memlist_at s)..<unat (memlist_at s) + 8}"

lemma block_bytes: "(a, n) \<in> set bs \<Longrightarrow> {unat a..<unat a + unat n} \<subseteq> bytes_of bs"
  by (induction bs rule: bytes_of.induct) auto

lemma unat_less_2p32: "unat (x :: u32) < 2 ^ 32"
  using unat_lt_2p32 [of x] by simp

lemma cell_bytes:
  assumes "blocks g lo hi bs" "a \<in> set (map fst bs)"
  shows "{unat a..<unat a + 4} \<subseteq> bytes_of bs" "{unat (a + 4)..<unat (a + 4) + 4} \<subseteq> bytes_of bs"
    "aligned4 a"
proof -
  from assms(2) obtain n where n: "(a, n) \<in> set bs" by auto
  from blocks_in [OF assms(1) n] have d: "8 dvd unat a" "8 \<le> unat n" by auto
  from block_bytes [OF n] have s: "{unat a..<unat a + unat n} \<subseteq> bytes_of bs" .
  have "{unat a..<unat a + 4} \<subseteq> {unat a..<unat a + unat n}"
    "{unat (a + 4)..<unat (a + 4) + 4} \<subseteq> {unat a..<unat a + unat n}"
    using d unat_plus4 [OF d(1)] by auto
  with s show "{unat a..<unat a + 4} \<subseteq> bytes_of bs" "{unat (a + 4)..<unat (a + 4) + 4} \<subseteq> bytes_of bs"
    by (blast intro: subset_trans)+
  show "aligned4 a" by (rule aligned4_dvd8) (rule d(1))
qed

lemma heap_okD:
  assumes "heap_ok s bs"
  shows "flist (mem s) (memlist_at s) bs" "blocks 1 (unat (minheap s)) (unat (maxheap s)) bs"
    "unat (rd32 (mem s) (memlist_at s + 4)) = total bs" "aligned4 (memlist_at s)"
    "unat (memlist_at s) + 8 \<le> unat (minheap s)"
    "blocks 0 (unat (memlist_at s) + 8) (unat (maxheap s)) bs"
    "unat (memlist_at s + 4) = unat (memlist_at s) + 4"
proof -
  show "blocks 0 (unat (memlist_at s) + 8) (unat (maxheap s)) bs"
    by (rule blocks_weaken [of 1 "unat (minheap s)" "unat (maxheap s)"])
      (use assms in \<open>auto simp: heap_ok_def\<close>)
  show "unat (memlist_at s + 4) = unat (memlist_at s) + 4"
    using assms unat_lt_2p32 [of "minheap s"] by (simp add: heap_ok_def unat_plus_small)
qed (use assms in \<open>auto simp: heap_ok_def\<close>)

lemma ml_cells: "heap_ok s bs \<Longrightarrow> {unat (memlist_at s)..<unat (memlist_at s) + 4} \<subseteq> ml_bytes s"
    "heap_ok s bs \<Longrightarrow> {unat (memlist_at s + 4)..<unat (memlist_at s + 4) + 4} \<subseteq> ml_bytes s"
  using heap_okD(7) [of s bs] by auto

lemma getmem_body_none:
  assumes H: "heap_ok s bs" and n: "nbytes \<noteq> 0" and A: "alloc (roundmb nbytes) bs = None"
  shows "getmem_body ins nbytes s = Some (SYSERR32, s)"
proof -
  have d: "dropWhile (\<lambda>(a, n). n < roundmb nbytes) bs = []"
    using A by (auto simp: alloc_def Let_def split: list.splits prod.splits)
  show ?thesis
    using n getmem_walk_flist [OF heap_okD(1) [OF H], of "roundmb nbytes"]
    unfolding d by (simp add: getmem_body_def Let_def)
qed

lemma wrk_mem: "wrk a v s = s\<lparr>mem := wr32 (mem s) a v\<rparr>"
  by (simp add: wrk_def)

lemma getmem_body_some:
  assumes H: "heap_ok s bs" and n: "nbytes \<noteq> 0" "unat nbytes + 7 < 2 ^ 32"
    and A: "alloc (roundmb nbytes) bs = Some (a, bs')"
  obtains m' where "getmem_body ins nbytes s = do {
        s2 \<leftarrow> (if memblockkflag s \<noteq> 1 then ins (prheaphd (proctab s (currpid s))) a (s\<lparr>mem := m'\<rparr>)
               else Some (s\<lparr>mem := m'\<rparr>));
        Some (a, s2\<lparr>memblockkflag := 0\<rparr>)}"
    "heap_ok (s\<lparr>mem := m'\<rparr>) bs'" "rd32 m' (a + 4) = roundmb nbytes"
    "agree (bytes_of bs \<union> ml_bytes s) (mem s) m'"
proof -
  let ?nb = "roundmb nbytes" and ?ml = "memlist_at s" and ?m = "mem s"
  note h = heap_okD [OF H]
  from A obtain xs k ys where s: "bs = xs @ (a, k) # ys" "?nb \<le> k"
    "bs' = xs @ (if k = ?nb then ys else (a + ?nb, k - ?nb) # ys)"
    and dw: "dropWhile (\<lambda>(a, n). n < ?nb) bs = (a, k) # ys"
    and tw: "takeWhile (\<lambda>(a, n). n < ?nb) bs = xs" by (rule alloc_split)
  have nb: "0 < unat ?nb" "8 dvd unat ?nb"
    using n round8_pos [of "unat nbytes"] by (simp_all add: roundmb_round8 unat_gt_0)
  obtain p where p: "p = last (?ml # map fst xs)" by blast
  have w: "getmem_walk ?m ?nb ?ml (rd32 ?m ?ml) = Some (p, a)"
    using getmem_walk_flist [OF h(1), of ?nb] unfolding dw tw p by simp
  have fl: "flist ?m ?ml (xs @ (a, k) # ys)" using h(1) s(1) by simp
  have "flist ?m p ((a, k) # ys)" unfolding p by (rule flist_tail [OF fl])
  then have ak: "a \<noteq> NULL" "rd32 ?m (a + 4) = k" by (simp_all add: flist_Cons)
  note ab = alloc_blocks [OF A h(2) unat_less_2p32 nb]
  have tot: "unat (rd32 ?m (?ml + 4) - ?nb) = total bs'"
    using h(3) ab(4) by (simp add: unat_minus_le)
  have pb: "{unat p..<unat p + 4} \<subseteq> bytes_of bs \<union> ml_bytes s" "aligned4 p"
  proof -
    have "p \<in> set (?ml # map fst xs)" unfolding p by (rule last_in_set) simp
    then have "p = ?ml \<or> p \<in> set (map fst bs)" using s(1) by auto
    then show "{unat p..<unat p + 4} \<subseteq> bytes_of bs \<union> ml_bytes s" "aligned4 p"
      using cell_bytes [OF h(2), of p] ml_cells [OF H] h(4) by auto
  qed
  have abytes: "a \<in> set (map fst bs)" using s(1) by simp
  note cb = cell_bytes [OF h(2) abytes] ml_cells [OF H]
  have sub: "{unat (a + 4)..<unat (a + 4) + 4} \<subseteq> bytes_of bs \<union> ml_bytes s"
    "{unat (?ml + 4)..<unat (?ml + 4) + 4} \<subseteq> bytes_of bs \<union> ml_bytes s"
    using cb by auto
  have al: "aligned4 (a + 4)" "aligned4 (?ml + 4)" using cb(3) h(4) by simp_all
  show ?thesis
  proof (cases "k = ?nb")
    case True
    let ?m' = "wr32 (wr32 (wr32 ?m p (rd32 ?m a)) (?ml + 4) (rd32 ?m (?ml + 4) - ?nb)) (a + 4) ?nb"
    note U = flist_unlink [OF fl _ h(4) unat_less_2p32, of "maxheap s" ?m' "rd32 ?m (?ml + 4) - ?nb" ?nb,
        folded s(1), OF h(6), folded p, OF refl]
    have pc: "p \<noteq> ?ml + 4"
    proof -
      have "cells_ok (?ml # map fst bs)" by (rule blocks_cells [OF h(6,4) unat_less_2p32])
      moreover have "p \<in> set (?ml # map fst xs)" unfolding p by (rule last_in_set) simp
      then have "p \<in> set (?ml # map fst bs)" using s(1) by auto
      ultimately show ?thesis by (meson cells_okD(4) list.set_intros(1))
    qed
    have r: "rd32 (wr32 ?m p (rd32 ?m a)) (?ml + 4) = rd32 ?m (?ml + 4)"
      using pc pb(2) al by (simp add: rd32_wr32)
    show ?thesis
    proof (rule that [of ?m'])
      show "getmem_body ins nbytes s = do {
        s2 \<leftarrow> (if memblockkflag s \<noteq> 1 then ins (prheaphd (proctab s (currpid s))) a (s\<lparr>mem := ?m'\<rparr>)
               else Some (s\<lparr>mem := ?m'\<rparr>));
        Some (a, s2\<lparr>memblockkflag := 0\<rparr>)}"
        using n(1) w ak True r by (simp add: getmem_body_def Let_def wrk_mem cong: if_cong)
      show "heap_ok (s\<lparr>mem := ?m'\<rparr>) bs'"
        using U True s(3) ab(1) h tot by (simp add: heap_ok_def)
      show "rd32 ?m' (a + 4) = ?nb" by (rule U(3))
      show "agree (bytes_of bs \<union> ml_bytes s) ?m ?m'"
        by (intro agree_wr32 agree_refl pb sub al)
    qed
  next
    case False
    let ?L = "a + ?nb"
    let ?t = "rd32 ?m (?ml + 4) - ?nb"
    let ?m' = "wr32 (wr32 (wr32 (wr32 (wr32 ?m p ?L) ?L (rd32 ?m a)) (?L + 4) (k - ?nb)) (?ml + 4) ?t) (a + 4) ?nb"
    have bs': "bs' = xs @ (?L, k - ?nb) # ys" using s(3) False by simp
    have ba: "blocks 0 (unat ?ml + 8) (unat (maxheap s)) (xs @ (a, ?nb) # (?L, k - ?nb) # ys)"
    proof -
      have "blocks 1 (unat (minheap s)) (unat (maxheap s)) (xs @ (?L, k - ?nb) # ys)"
        using ab(1) bs' by simp
      then have b0: "blocks 0 (unat ?ml + 8) (unat (maxheap s)) (xs @ (?L, k - ?nb) # ys)"
        by (rule blocks_weaken) (use h(5) in auto)
      have x0: "bend 0 (unat ?ml + 8) xs \<le> unat a" using h(6) s(1) by simp
      have u: "unat ?L = unat a + unat ?nb"
        using ab(7) unat_lt_2p32 [of "maxheap s"] by (simp add: unat_plus_small)
      show ?thesis using b0 x0 u ab(5) nb ab(7) by (simp only: blocks_append blocks.simps) auto
    qed
    have bin: "?L \<in> set (map fst bs')" using bs' by simp
    note cl = cell_bytes [OF ab(1) bin]
    have sub': "{unat ?L..<unat ?L + 4} \<subseteq> bytes_of bs \<union> ml_bytes s"
      "{unat (?L + 4)..<unat (?L + 4) + 4} \<subseteq> bytes_of bs \<union> ml_bytes s" using cl ab(2) by auto
    have L0: "?L \<noteq> NULL"
    proof -
      have "unat ?L = unat a + unat ?nb"
        using ab(7) unat_lt_2p32 [of "maxheap s"] by (simp add: unat_plus_small)
      then show ?thesis using nb by (metis add_is_0 less_irrefl unat_0)
    qed
    note U = flist_cut [OF fl ba h(4) unat_less_2p32 L0, of ?m' ?t ?nb, folded p, OF refl]
    have ok: "cells_ok (?ml # map fst (xs @ (a, ?nb) # (?L, k - ?nb) # ys))"
      by (rule blocks_cells [OF ba h(4) unat_less_2p32])
    have pin: "p \<in> set (?ml # map fst xs)" unfolding p by (rule last_in_set) simp
    note C = cells_okD [OF ok]
    have pc: "p \<noteq> ?ml + 4" "?L \<noteq> ?ml + 4" "?L + 4 \<noteq> ?ml + 4" "p \<noteq> a + 4" "?L \<noteq> a + 4" "p \<noteq> a"
      "p \<noteq> ?L" "?L + 4 \<noteq> a"
      using C(1) C(4) [of p ?ml] C(4) [of ?L ?ml] C(4) [of p a] C(4) [of ?L a] C(4) [of a ?L] pin by auto
    have pl: "?L \<noteq> a" using C(1) by auto
    have r: "rd32 (wr32 ?m p ?L) a = rd32 ?m a"
      using pc pb(2) cb(3) by (simp add: rd32_wr32)
    have r1: "rd32 (wr32 (wr32 ?m p ?L) ?L (rd32 ?m a)) (a + 4) = k"
      using pc pb(2) al cl(3) ak(2) by (simp add: rd32_wr32)
    have r2: "rd32 (wr32 (wr32 (wr32 ?m p ?L) ?L (rd32 ?m a)) (?L + 4) (k - ?nb)) (?ml + 4) = rd32 ?m (?ml + 4)"
      using pc pb(2) al cl(3) by (simp add: rd32_wr32)
    show ?thesis
    proof (rule that [of ?m'])
      show "getmem_body ins nbytes s = do {
        s2 \<leftarrow> (if memblockkflag s \<noteq> 1 then ins (prheaphd (proctab s (currpid s))) a (s\<lparr>mem := ?m'\<rparr>)
               else Some (s\<lparr>mem := ?m'\<rparr>));
        Some (a, s2\<lparr>memblockkflag := 0\<rparr>)}"
        using n(1) w ak False r r1 r2 by (simp add: getmem_body_def Let_def wrk_mem cong: if_cong)
      show "heap_ok (s\<lparr>mem := ?m'\<rparr>) bs'"
        using U ab(1) h tot bs' by (simp add: heap_ok_def)
      show "rd32 ?m' (a + 4) = ?nb" by (rule U(3))
      show "agree (bytes_of bs \<union> ml_bytes s) ?m ?m'"
        by (intro agree_wr32 agree_refl pb sub al sub' cl(3) aligned4_plus4)
    qed
  qed
qed

section \<open>The in-use list in memory\<close>

type_synonym usednode = "addr \<times> addr \<times> u32"  \<comment> \<open>the node, \<open>memblockptr\<close>, \<open>memlen\<close>\<close>

definition ulist :: "bytes \<Rightarrow> addr \<Rightarrow> usednode list \<Rightarrow> bool" where
  "ulist m h us \<longleftrightarrow> lchain (\<lambda>x. rd32 m (x + 8)) (rd32 m (h + 8)) (map fst us) \<and>
     (\<forall>(d, b, n) \<in> set us. rd32 m d = b \<and> rd32 m (d + 4) = n)"

definition node_bytes :: "usednode list \<Rightarrow> nat set" where
  "node_bytes us = (\<Union>(d, b, n) \<in> set us. {unat d..<unat d + 16})"

fun nodes_ok :: "nat \<Rightarrow> nat \<Rightarrow> usednode list \<Rightarrow> bool" where
  "nodes_ok lo hi [] \<longleftrightarrow> True"
| "nodes_ok lo hi ((d, b, n) # us) \<longleftrightarrow> 8 dvd unat d \<and> lo \<le> unat d \<and> unat d + 16 \<le> hi \<and>
     {unat d..<unat d + 16} \<inter> node_bytes us = {} \<and> nodes_ok lo hi us"

text \<open>
  The whole invariant: the nodes of the in-use list are pieces of the heap, apart from one
  another and from the free blocks; the list header lies below the heap.
\<close>

abbreviation hd_bytes :: "addr \<Rightarrow> nat set" where
  "hd_bytes h \<equiv> {unat h + 8..<unat h + 12}"

definition heap_inv :: "'a ks \<Rightarrow> block list \<Rightarrow> addr \<Rightarrow> usednode list \<Rightarrow> bool" where
  "heap_inv s bs h us \<longleftrightarrow> heap_ok s bs \<and> ulist (mem s) h us \<and>
     nodes_ok (unat (minheap s)) (unat (maxheap s)) us \<and> node_bytes us \<inter> bytes_of bs = {} \<and>
     aligned4 h \<and> unat h + 12 \<le> unat (minheap s) \<and> hd_bytes h \<inter> ml_bytes s = {}"

lemma node_bytes_simps [simp]:
  "node_bytes [] = {}" "node_bytes ((d, b, n) # us) = {unat d..<unat d + 16} \<union> node_bytes us"
  "node_bytes (us @ vs) = node_bytes us \<union> node_bytes vs"
  by (auto simp: node_bytes_def)

lemma nodes_bounds: "nodes_ok lo hi us \<Longrightarrow> node_bytes us \<subseteq> {lo..<hi}"
  by (induction lo hi us rule: nodes_ok.induct) auto

lemma node_cells:
  assumes "nodes_ok lo hi us" "hi < 2 ^ 32" "(d, b, n) \<in> set us"
  shows "aligned4 d" "unat (d + 4) = unat d + 4" "unat (d + 8) = unat d + 8" "lo \<le> unat d"
    "{unat d..<unat d + 16} \<subseteq> node_bytes us" "8 dvd unat d" "unat d + 16 \<le> hi"
proof -
  have *: "8 dvd unat d \<and> lo \<le> unat d \<and> unat d + 16 \<le> hi \<and> {unat d..<unat d + 16} \<subseteq> node_bytes us"
    using assms(1,3) by (induction lo hi us rule: nodes_ok.induct) auto
  then show "aligned4 d" "lo \<le> unat d" "{unat d..<unat d + 16} \<subseteq> node_bytes us" "8 dvd unat d"
    "unat d + 16 \<le> hi" by (auto intro: aligned4_dvd8)
  from * assms(2) show "unat (d + 4) = unat d + 4" "unat (d + 8) = unat d + 8"
    by (simp_all add: unat_plus_small)
qed

lemma ulist_frame:
  assumes U: "ulist m h us" and N: "nodes_ok lo hi us" "hi < 2 ^ 32" and A: "agree S m m'"
    and S: "S \<inter> node_bytes us = {}" and h: "rd32 m' (h' + 8) = rd32 m (h + 8)"
  shows "ulist m' h' us"
proof -
  have r: "rd32 m' d = rd32 m d \<and> rd32 m' (d + 4) = rd32 m (d + 4) \<and> rd32 m' (d + 8) = rd32 m (d + 8)"
    if "(d, b, n) \<in> set us" for d b n
  proof -
    note c = node_cells [OF N that]
    have "{unat d..<unat d + 16} \<inter> S = {}" using c(5) S by auto
    then have "{unat d..<unat d + 4} \<inter> S = {}" "{unat (d + 4)..<unat (d + 4) + 4} \<inter> S = {}"
      "{unat (d + 8)..<unat (d + 8) + 4} \<inter> S = {}"
      unfolding c(2,3) by (fastforce simp: disjoint_iff)+
    then show ?thesis using agree_rd32 [OF A] c(1) by simp
  qed
  have "lchain (\<lambda>x. rd32 m' (x + 8)) (rd32 m (h + 8)) (map fst us) =
        lchain (\<lambda>x. rd32 m (x + 8)) (rd32 m (h + 8)) (map fst us)"
    by (rule lchain_cong) (use r in force)
  moreover have "\<forall>(d, b, n) \<in> set us. rd32 m' d = b \<and> rd32 m' (d + 4) = n"
    using U r by (fastforce simp: ulist_def)
  ultimately show ?thesis using U by (simp add: ulist_def h)
qed

lemma heap_ok_frame:
  assumes H: "heap_ok s bs" and A: "agree S (mem s) m'" and S: "S \<inter> (bytes_of bs \<union> ml_bytes s) = {}"
  shows "heap_ok (s\<lparr>mem := m'\<rparr>) bs"
proof -
  note h = heap_okD [OF H]
  have r: "rd32 m' x = rd32 (mem s) x"
    if "aligned4 x" "{unat x..<unat x + 4} \<subseteq> bytes_of bs \<union> ml_bytes s" for x
    by (rule agree_rd32 [OF A that(1)]) (use that(2) S in blast)
  have "flist m' (memlist_at s) bs"
  proof (rule flist_frame [OF h(1)])
    show "rd32 m' (memlist_at s) = rd32 (mem s) (memlist_at s)"
      by (rule r) (use h(4) ml_cells(1) [OF H] in auto)
    fix x assume x: "x \<in> set (map fst bs)"
    note cell_bytes [OF h(2) x]
    then show "rd32 m' x = rd32 (mem s) x \<and> rd32 m' (x + 4) = rd32 (mem s) (x + 4)"
      by (intro conjI r) auto
  qed
  moreover have "rd32 m' (memlist_at s + 4) = rd32 (mem s) (memlist_at s + 4)"
    by (rule r) (use h(4) ml_cells(2) [OF H] in auto)
  ultimately show ?thesis using h by (simp add: heap_ok_def)
qed

lemma heap_inv_frame:
  assumes H: "heap_inv s bs h us" and A: "agree S (mem s) m'"
    and S: "S \<inter> (bytes_of bs \<union> ml_bytes s) = {}" "S \<inter> node_bytes us = {}" "S \<inter> hd_bytes h = {}"
  shows "heap_inv (s\<lparr>mem := m'\<rparr>) bs h us"
proof -
  have i: "heap_ok s bs" "ulist (mem s) h us" "nodes_ok (unat (minheap s)) (unat (maxheap s)) us"
    "aligned4 h" "unat h + 12 \<le> unat (minheap s)" using H by (simp_all add: heap_inv_def)
  have "unat (h + 8) = unat h + 8" using i(5) unat_lt_2p32 [of "minheap s"] by (simp add: unat_plus_small)
  then have "rd32 m' (h + 8) = rd32 (mem s) (h + 8)"
    by (intro agree_rd32 [OF A]) (use i(4) S(3) in auto)
  from ulist_frame [OF i(2,3) unat_less_2p32 A S(2) this] heap_ok_frame [OF i(1) A S(1)]
  show ?thesis using H by (simp add: heap_inv_def)
qed

lemma ulist_Cons: "ulist m h ((d, b, n) # us) \<longleftrightarrow>
   rd32 m (h + 8) = d \<and> d \<noteq> NULL \<and> rd32 m d = b \<and> rd32 m (d + 4) = n \<and> ulist m d us"
  by (auto simp: ulist_def)

lemma heap_ok_flag [simp]: "heap_ok (s\<lparr>memblockkflag := f\<rparr>) bs = heap_ok s bs"
  by (simp add: heap_ok_def)

lemma heap_inv_flag [simp]: "heap_inv (s\<lparr>memblockkflag := f\<rparr>) bs h us = heap_inv s bs h us"
  by (simp add: heap_inv_def)

lemma roundmb_12: "roundmb 12 = 16"
  by (simp add: roundmb_def)

text \<open>The node of a new entry comes off the free list and goes to the front of the in-use list.\<close>

lemma meminsert_inv:
  assumes H: "heap_inv s bs h us" and A: "alloc 16 bs = Some (d, bs')"
    and p: "aligned4 ptr" "{unat (ptr + 4)..<unat (ptr + 4) + 4} \<inter> (bytes_of bs \<union> ml_bytes s) = {}"
    and n: "rd32 (mem s) (ptr + 4) = n"
  obtains m' where "meminsert h ptr s = Some (s\<lparr>mem := m', memblockkflag := 0\<rparr>)"
    "heap_inv (s\<lparr>mem := m'\<rparr>) bs' h ((d, ptr, n) # us)"
    "agree (bytes_of bs \<union> ml_bytes s \<union> hd_bytes h) (mem s) m'"
proof -
  have i: "heap_ok s bs" "ulist (mem s) h us" "nodes_ok (unat (minheap s)) (unat (maxheap s)) us"
    "node_bytes us \<inter> bytes_of bs = {}" "aligned4 h" "unat h + 12 \<le> unat (minheap s)"
    "hd_bytes h \<inter> ml_bytes s = {}" using H by (simp_all add: heap_inv_def)
  note hk = heap_okD [OF i(1)]
  let ?s1 = "s\<lparr>memblockkflag := 1\<rparr>" and ?S = "bytes_of bs \<union> ml_bytes s"
  have A': "alloc (roundmb 12) bs = Some (d, bs')" using A by (simp only: roundmb_12)
  have "heap_ok ?s1 bs" using i(1) by simp
  then obtain m1 where g: "getmem_body (\<lambda>_ _ _. None) 12 ?s1 = Some (d, s\<lparr>mem := m1, memblockkflag := 0\<rparr>)"
    and k1: "heap_ok (s\<lparr>mem := m1\<rparr>) bs'" and a1: "agree ?S (mem s) m1"
    using getmem_body_some [of ?s1 bs 12 d bs' "\<lambda>_ _ _. None"] A' by (auto simp: heap_ok_def)
  note ab = alloc_blocks [OF A hk(2) unat_less_2p32, simplified]
  have d16: "{unat d..<unat d + 16} \<subseteq> bytes_of bs" "{unat d..<unat d + 16} \<inter> bytes_of bs' = {}"
    "{unat d..<unat d + 16} \<inter> node_bytes us = {}" using ab(2,3) i(4) by auto
  have lo: "unat (minheap s) \<le> unat d" "unat d + 16 \<le> unat (maxheap s)" using ab(6,7) by auto
  have u: "unat (d + 4) = unat d + 4" "unat (d + 8) = unat d + 8"
    using lo unat_lt_2p32 [of "maxheap s"] by (simp_all add: unat_plus_small)
  have uh: "unat (h + 8) = unat h + 8" "aligned4 (h + 8)"
    using i(5,6) unat_lt_2p32 [of "minheap s"] by (simp_all add: unat_plus_small)
  have al: "aligned4 d" "aligned4 (d + 4)" "aligned4 (d + 8)" using ab(5) by (simp_all add: aligned4_dvd8)
  have dn: "d \<noteq> NULL" using lo(1) i(6) by auto
  have dis: "{unat d..<unat d + 16} \<inter> ml_bytes s = {}" "{unat d..<unat d + 16} \<inter> hd_bytes h = {}"
    "hd_bytes h \<inter> bytes_of bs = {}" "hd_bytes h \<inter> node_bytes us = {}"
    "ml_bytes s \<inter> node_bytes us = {}"
    using lo hk(5) i(6) bytes_of_bounds [OF hk(2)] nodes_bounds [OF i(3)] by fastforce+
  have ne: "h + 8 \<noteq> d" "h + 8 \<noteq> d + 4" "h + 8 \<noteq> d + 8"
    using lo i(6) uh(1) u by (auto simp: word_unat_eq_iff)
  have ne': "d \<noteq> d + 4" "d \<noteq> d + 8" "d + 4 \<noteq> d + 8" "d + 4 \<noteq> d" "d + 8 \<noteq> d" "d + 8 \<noteq> d + 4" by simp_all
  let ?m2 = "wr32 (wr32 m1 d ptr) (d + 4) n"
  have pl: "rd32 m1 (ptr + 4) = n" "rd32 (wr32 m1 d ptr) (ptr + 4) = n"
  proof -
    show *: "rd32 m1 (ptr + 4) = n" using agree_rd32 [OF a1 _ p(2)] p(1) n by simp
    have "d \<noteq> ptr + 4"
    proof
      assume "d = ptr + 4"
      then have "unat d \<in> {unat (ptr + 4)..<unat (ptr + 4) + 4}" by simp
      with p(2) d16(1) show False by (force simp: disjoint_iff)
    qed
    then show "rd32 (wr32 m1 d ptr) (ptr + 4) = n" using * p(1) al by (simp add: rd32_wr32)
  qed
  have hd1: "rd32 m1 (h + 8) = rd32 (mem s) (h + 8)"
  proof (rule agree_rd32 [OF a1 uh(2)])
    have "{unat (h + 8)..<unat (h + 8) + 4} = hd_bytes h" by (auto simp: uh(1))
    then show "{unat (h + 8)..<unat (h + 8) + 4} \<inter> ?S = {}" using dis(3) i(7) by blast
  qed
  let ?f = "rd32 (mem s) (h + 8)"
  define m' where "m' = wr32 (if ?f = NULL then wr32 ?m2 (d + 8) NULL
    else wr32 (wr32 ?m2 (d + 8) NULL) (d + 8) ?f) (h + 8) d"
  have r: "rd32 m' d = ptr" "rd32 m' (d + 4) = n" "rd32 m' (d + 8) = ?f" "rd32 m' (h + 8) = d"
    using al uh ne ne' unfolding m'_def by (auto simp: rd32_wr32)
  have ag1: "agree ({unat d..<unat d + 16} \<union> hd_bytes h) m1 m'"
    unfolding m'_def by (auto intro!: agree_wr32 al uh(2) simp: u uh(1) simp del: One_nat_def)
  have "meminsert h ptr s = Some (s\<lparr>mem := m', memblockkflag := 0\<rparr>)"
    unfolding meminsert_def g using pl hd1 al uh ne ne'
    by (simp add: wrk_mem Let_def rd32_wr32 m'_def)
  moreover have "heap_inv (s\<lparr>mem := m'\<rparr>) bs' h ((d, ptr, n) # us)"
  proof -
    have "heap_ok ((s\<lparr>mem := m1\<rparr>)\<lparr>mem := m'\<rparr>) bs'"
      by (rule heap_ok_frame [OF k1, of "{unat d..<unat d + 16} \<union> hd_bytes h"])
        (use ag1 d16(2) dis ab(2) i(7) in auto)
    then have k: "heap_ok (s\<lparr>mem := m'\<rparr>) bs'" by simp
    have "agree (?S \<union> ({unat d..<unat d + 16} \<union> hd_bytes h)) (mem s) m'"
      by (rule agree_trans [OF a1 ag1]) auto
    then have "ulist m' d us"
      by (rule ulist_frame [OF i(2,3) unat_less_2p32]) (use i(4) dis d16(3) r(3) in auto)
    with r dn have "ulist m' h ((d, ptr, n) # us)" by (simp add: ulist_Cons)
    with k i ab lo d16 show ?thesis by (auto simp: heap_inv_def)
  qed
  moreover have "agree (?S \<union> hd_bytes h) (mem s) m'"
    by (rule agree_trans [OF a1 ag1]) (use d16(1) in auto)
  ultimately show ?thesis by (rule that)
qed

lemma getmem_inv:
  assumes H: "heap_inv s bs h us" and h: "prheaphd (proctab s (currpid s)) = h"
    and n: "nbytes \<noteq> 0" "unat nbytes + 7 < 2 ^ 32" and f: "memblockkflag s \<noteq> 1"
    and A: "alloc (roundmb nbytes) bs = Some (a, bs1)" and D: "alloc 16 bs1 = Some (d, bs2)"
  obtains m' where "getmem nbytes s = Some (a, s\<lparr>mem := m', memblockkflag := 0\<rparr>)"
    "heap_inv (s\<lparr>mem := m'\<rparr>) bs2 h ((d, a, roundmb nbytes) # us)"
    "agree (bytes_of bs \<union> ml_bytes s \<union> hd_bytes h) (mem s) m'"
proof -
  have i: "heap_ok s bs" "ulist (mem s) h us" "nodes_ok (unat (minheap s)) (unat (maxheap s)) us"
    "node_bytes us \<inter> bytes_of bs = {}" "aligned4 h" "unat h + 12 \<le> unat (minheap s)"
    "hd_bytes h \<inter> ml_bytes s = {}" using H by (simp_all add: heap_inv_def)
  note hk = heap_okD [OF i(1)]
  let ?S = "bytes_of bs \<union> ml_bytes s"
  obtain m1 where g: "getmem_body meminsert nbytes s = do {
        s2 \<leftarrow> (if memblockkflag s \<noteq> 1 then meminsert h a (s\<lparr>mem := m1\<rparr>) else Some (s\<lparr>mem := m1\<rparr>));
        Some (a, s2\<lparr>memblockkflag := 0\<rparr>)}"
    and k: "heap_ok (s\<lparr>mem := m1\<rparr>) bs1" "rd32 m1 (a + 4) = roundmb nbytes" and a1: "agree ?S (mem s) m1"
    using getmem_body_some [OF i(1) n A, of meminsert] unfolding h by blast
  have nb: "0 < unat (roundmb nbytes)" "8 dvd unat (roundmb nbytes)"
    using n round8_pos [of "unat nbytes"] by (simp_all add: roundmb_round8 unat_gt_0)
  note ab = alloc_blocks [OF A hk(2) unat_less_2p32 nb]
  have lh: "hd_bytes h \<inter> ?S = {}" "ml_bytes s \<inter> node_bytes us = {}"
    using i(6,7) hk(5) bytes_of_bounds [OF hk(2)] nodes_bounds [OF i(3)] by fastforce+
  have uh: "aligned4 (h + 8)" "{unat (h + 8)..<unat (h + 8) + 4} = hd_bytes h"
    using i(5,6) unat_lt_2p32 [of "minheap s"] by (auto simp: unat_plus_small)
  have "rd32 m1 (h + 8) = rd32 (mem s) (h + 8)"
    by (rule agree_rd32 [OF a1 uh(1)]) (use uh(2) lh(1) in simp)
  then have "ulist m1 h us"
    by (rule ulist_frame [OF i(2,3) unat_less_2p32 a1, rotated]) (use i(4) lh(2) in auto)
  with k i ab have H1: "heap_inv (s\<lparr>mem := m1\<rparr>) bs1 h us" by (auto simp: heap_inv_def)
  have al: "aligned4 a" by (rule aligned4_dvd8 [OF ab(5)])
  have dis: "{unat (a + 4)..<unat (a + 4) + 4} \<inter> (bytes_of bs1 \<union> ml_bytes s) = {}"
  proof -
    have "8 \<le> unat (roundmb nbytes)" using nb by (metis dvd_imp_le)
    then have "{unat (a + 4)..<unat (a + 4) + 4} \<subseteq> {unat a..<unat a + unat (roundmb nbytes)}"
      using unat_plus4 [OF ab(5)] by auto
    moreover have "{unat a..<unat a + unat (roundmb nbytes)} \<inter> (bytes_of bs1 \<union> ml_bytes s) = {}"
      using ab(3,6) hk(5) by (fastforce simp: disjoint_iff)
    ultimately show ?thesis by blast
  qed
  obtain m' where m: "meminsert h a (s\<lparr>mem := m1\<rparr>) = Some (s\<lparr>mem := m', memblockkflag := 0\<rparr>)"
    "heap_inv (s\<lparr>mem := m'\<rparr>) bs2 h ((d, a, roundmb nbytes) # us)"
    "agree (bytes_of bs1 \<union> ml_bytes s \<union> hd_bytes h) m1 m'"
    using meminsert_inv [OF H1 D al, of "roundmb nbytes"] dis k(2) by auto
  show ?thesis
  proof (rule that [of m'])
    show "getmem nbytes s = Some (a, s\<lparr>mem := m', memblockkflag := 0\<rparr>)"
      unfolding getmem_def g using f m(1) by simp
    show "agree (?S \<union> hd_bytes h) (mem s) m'"
      by (rule agree_trans [OF a1 m(3)]) (use ab(2) in auto)
  qed (rule m(2))
qed

lemma getmem_none:
  assumes "heap_ok s bs" "nbytes \<noteq> 0" "alloc (roundmb nbytes) bs = None"
  shows "getmem nbytes s = Some (SYSERR32, s)"
  unfolding getmem_def by (rule getmem_body_none [OF assms])

section \<open>Taking a node out of the in-use list\<close>

lemma memextract_walk_ulist:
  "ulist m h us \<Longrightarrow> memextract_walk m ptr h (rd32 m (h + 8)) =
     Some (last (h # map fst (takeWhile (\<lambda>(d, b, n). b \<noteq> ptr) us)),
       case dropWhile (\<lambda>(d, b, n). b \<noteq> ptr) us of [] \<Rightarrow> NULL | u # _ \<Rightarrow> fst u)"
proof (induction us arbitrary: h)
  case Nil
  then show ?case by (simp add: memextract_walk.simps ulist_def)
next
  case (Cons u us)
  obtain d b n where u: "u = (d, b, n)" by (cases u)
  from Cons.prems u have f: "rd32 m (h + 8) = d" "d \<noteq> NULL" "rd32 m d = b" "ulist m d us"
    by (simp_all add: ulist_Cons)
  from Cons.IH [OF f(4)] f u show ?case
    by (subst memextract_walk.simps) auto
qed

lemma nodes_disjoint:
  assumes "nodes_ok lo hi us" "(d, b, n) \<in> set us" "(d', b', n') \<in> set us" "d \<noteq> d'"
  shows "{unat d..<unat d + 16} \<inter> {unat d'..<unat d' + 16} = {}"
  using assms
proof (induction lo hi us rule: nodes_ok.induct)
  case (2 lo hi e c k us)
  have sub: "{unat x..<unat x + 16} \<subseteq> node_bytes us" if "(x, y, z) \<in> set us" for x y z
    using that by (auto simp: node_bytes_def)
  from 2 have D: "{unat e..<unat e + 16} \<inter> node_bytes us = {}" by simp
  consider "d = e" "(d', b', n') \<in> set us" | "d' = e" "(d, b, n) \<in> set us"
    | "(d, b, n) \<in> set us" "(d', b', n') \<in> set us" using 2 by auto
  then show ?case
  proof cases
    case 1
    with sub [of d' b' n'] D show ?thesis by blast
  next
    case b: 2
    with sub [of d b n] D show ?thesis by blast
  next
    case 3
    with 2 show ?thesis by simp
  qed
qed simp

lemma nodes_ok_append: "nodes_ok lo hi (xs @ ys) \<longleftrightarrow>
    nodes_ok lo hi xs \<and> nodes_ok lo hi ys \<and> node_bytes xs \<inter> node_bytes ys = {}"
  by (induction lo hi xs rule: nodes_ok.induct) auto

lemma map_fst3: "x \<in> set (map fst us) \<Longrightarrow> \<exists>b n. (x, b, n) \<in> set us"
  by force

text \<open>A write to the link of one node, or of the header, leaves everything else alone.\<close>

lemma node_link_write:
  assumes H: "heap_inv s bs h us" and p: "p \<in> set (h # map fst us)"
    and m': "m' = wr32 (mem s) (p + 8) v"
  shows "distinct (h # map fst us)" "rd32 m' (p + 8) = v"
    "\<And>x. x \<in> set (h # map fst us) \<Longrightarrow> x \<noteq> p \<Longrightarrow> rd32 m' (x + 8) = rd32 (mem s) (x + 8)"
    "\<And>x b n. (x, b, n) \<in> set us \<Longrightarrow> rd32 m' x = b \<and> rd32 m' (x + 4) = n"
    "agree (node_bytes us \<union> hd_bytes h) (mem s) m'"
    "heap_ok (s\<lparr>mem := m'\<rparr>) bs"
proof -
  let ?m = "mem s"
  have i: "heap_ok s bs" "ulist ?m h us" "nodes_ok (unat (minheap s)) (unat (maxheap s)) us"
    "node_bytes us \<inter> bytes_of bs = {}" "aligned4 h" "unat h + 12 \<le> unat (minheap s)"
    "hd_bytes h \<inter> ml_bytes s = {}" using H by (simp_all add: heap_inv_def)
  note nc = node_cells [OF i(3) unat_less_2p32]
  have pc: "aligned4 p \<and> unat (p + 8) = unat p + 8 \<and> {unat p + 8..<unat p + 12} \<subseteq> node_bytes us \<union> hd_bytes h"
  proof (cases "p = h")
    case True
    then show ?thesis using i(5,6) unat_lt_2p32 [of "minheap s"] by (simp add: unat_plus_small)
  next
    case False
    with p have "p \<in> set (map fst us)" by simp
    from map_fst3 [OF this] obtain b' n' where pu: "(p, b', n') \<in> set us" by blast
    moreover have "{unat p + 8..<unat p + 12} \<subseteq> {unat p..<unat p + 16}" by auto
    ultimately show ?thesis using nc [OF pu] by blast
  qed
  have ag: "agree {unat p + 8..<unat p + 12} ?m m'"
    unfolding m' by (rule agree_wr32 [OF agree_refl]) (use pc in auto)
  have nd: "unat (minheap s) \<le> unat x \<and> aligned4 x" if "x \<in> set (map fst us)" for x
    using map_fst3 [OF that] nc by blast
  show "distinct (h # map fst us)"
  proof -
    have "distinct (map fst us)" using i(2) lchain_distinct unfolding ulist_def by blast
    moreover have "h \<notin> set (map fst us)" using nd [of h] i(6) by auto
    ultimately show ?thesis by simp
  qed
  show "rd32 m' (p + 8) = v" by (simp add: m')
  show "rd32 m' (x + 8) = rd32 ?m (x + 8)" if "x \<in> set (h # map fst us)" "x \<noteq> p" for x
  proof -
    have "aligned4 x" using that(1) i(5) nd [of x] by (auto simp del: list.set_map)
    then show ?thesis using that(2) pc by (simp add: rd32_wr32 m')
  qed
  show "rd32 m' x = b \<and> rd32 m' (x + 4) = n" if xu: "(x, b, n) \<in> set us" for x b n
  proof -
    note c = nc [OF xu]
    have "{unat x..<unat x + 8} \<inter> {unat p + 8..<unat p + 12} = {}"
    proof (cases "p = x \<or> p = h")
      case True
      then show ?thesis using c(4) i(6) by auto
    next
      case False
      with p have "p \<in> set (map fst us)" by auto
      from map_fst3 [OF this] obtain b2 n2 where "(p, b2, n2) \<in> set us" by blast
      from nodes_disjoint [OF i(3) xu this] False show ?thesis by (fastforce simp: disjoint_iff)
    qed
    then have "{unat x..<unat x + 4} \<inter> {unat p + 8..<unat p + 12} = {}"
      "{unat (x + 4)..<unat (x + 4) + 4} \<inter> {unat p + 8..<unat p + 12} = {}"
      unfolding c(2) by (fastforce simp: disjoint_iff)+
    then have "rd32 m' x = rd32 ?m x \<and> rd32 m' (x + 4) = rd32 ?m (x + 4)"
      using agree_rd32 [OF ag] c(1) by simp
    moreover have "rd32 ?m x = b \<and> rd32 ?m (x + 4) = n" using i(2) xu unfolding ulist_def by blast
    ultimately show ?thesis by simp
  qed
  show ag': "agree (node_bytes us \<union> hd_bytes h) ?m m'"
    by (rule agree_trans [OF agree_refl ag]) (use pc in auto)
  have dis: "(node_bytes us \<union> hd_bytes h) \<inter> (bytes_of bs \<union> ml_bytes s) = {}"
    using i(4,6,7) heap_okD(5) [OF i(1)] bytes_of_bounds [OF heap_okD(2) [OF i(1)]]
      nodes_bounds [OF i(3)] by fastforce
  show "heap_ok (s\<lparr>mem := m'\<rparr>) bs" by (rule heap_ok_frame [OF i(1) ag' dis])
qed

lemma memextract_found:
  assumes H: "heap_inv s bs h (xs @ (d, b, n) # ys)" and x: "b \<notin> (\<lambda>(d, b, n). b) ` set xs"
  obtains m' where "memextract h b s = Some (s\<lparr>mem := m'\<rparr>)"
    "heap_inv (s\<lparr>mem := m'\<rparr>) bs h (xs @ ys)"
    "agree (node_bytes (xs @ (d, b, n) # ys) \<union> hd_bytes h) (mem s) m'"
proof -
  let ?us = "xs @ (d, b, n) # ys" and ?m = "mem s"
  have U: "ulist ?m h ?us" using H by (simp add: heap_inv_def)
  obtain p where p: "p = last (h # map fst xs)" by blast
  have tw: "takeWhile (\<lambda>(d, b', n). b' \<noteq> b) ?us = xs" "dropWhile (\<lambda>(d, b', n). b' \<noteq> b) ?us = (d, b, n) # ys"
    using x by (induction xs) (auto simp: image_iff)
  have w: "memextract_walk ?m b h (rd32 ?m (h + 8)) = Some (p, d)"
    using memextract_walk_ulist [OF U, of b] unfolding tw p by simp
  have pin: "p \<in> set (h # map fst xs)" unfolding p by (rule last_in_set) simp
  then have "p \<in> set (h # map fst ?us)" by auto
  note L = node_link_write [where v = "rd32 ?m (d + 8)", OF H this refl]
  let ?m' = "wr32 ?m (p + 8) (rd32 ?m (d + 8))"
  have "ulist ?m' h (xs @ ys)"
    unfolding ulist_def
  proof
    let ?nx = "\<lambda>x. rd32 ?m (x + 8)" and ?nx' = "\<lambda>x. rd32 ?m' (x + 8)"
    have l: "lchain ?nx (?nx h) (map fst xs @ d # map fst ys)" using U by (simp add: ulist_def)
    then have "lchain ?nx (?nx p) (d # map fst ys)" unfolding p by (rule lchain_tail)
    then have "lchain ?nx (?nx d) (map fst ys)" by simp
    moreover have "lchain ?nx' (?nx d) (map fst ys) = lchain ?nx (?nx d) (map fst ys)"
      by (rule lchain_cong, rule L(3)) (use L(1) pin in auto)
    ultimately have "lchain ?nx' (?nx' p) (map fst ys)" by simp
    then have "lchain ?nx' (?nx' h) (map fst xs @ map fst ys)"
    proof (intro lchain_relink [OF l])
      fix x assume x: "x \<in> set (butlast (h # map fst xs))"
      have "x \<noteq> p" unfolding p by (rule last_not_in_butlast [OF _ _ x]) (use L(1) in auto)
      moreover from x have "x \<in> set (h # map fst xs)" by (rule in_set_butlastD)
      ultimately show "?nx' x = ?nx x" by (intro L(3)) auto
    qed (simp add: p)
    then show "lchain ?nx' (?nx' h) (map fst (xs @ ys))" by simp
    show "\<forall>(d, b, n) \<in> set (xs @ ys). rd32 ?m' d = b \<and> rd32 ?m' (d + 4) = n"
      using L(4) by auto
  qed
  with L(6) H have "heap_inv (s\<lparr>mem := ?m'\<rparr>) bs h (xs @ ys)"
    by (auto simp: heap_inv_def nodes_ok_append)
  moreover have "memextract h b s = Some (s\<lparr>mem := ?m'\<rparr>)" by (simp add: memextract_def w wrk_mem)
  ultimately show ?thesis using L(5) by (intro that)
qed

text \<open>
  When nothing matches, the link of the last node becomes the word at address 8. With the
  header at \<open>NULL\<close> that is the header's own link: the list is now a ring, and a search that
  finds nothing in a ring never ends.
\<close>

lemma memextract_walk_ring:
  assumes "\<And>x. x \<in> C \<Longrightarrow> x \<noteq> NULL \<and> rd32 m x \<noteq> ptr \<and> rd32 m (x + 8) \<in> C" "cur \<in> C"
  shows "memextract_walk m ptr prev cur = None"
proof -
  have *: False if e: "memextract_walk m ptr prev cur = Some y" for y
  proof -
    have "m = m \<longrightarrow> ptr = ptr \<longrightarrow> cur \<notin> C"
    proof (rule memextract_walk.raw_induct
        [where P = "\<lambda>m' ptr' _ cur' _. m' = m \<longrightarrow> ptr' = ptr \<longrightarrow> cur' \<notin> C", OF _ e])
      fix walk m' ptr' prev' cur' y'
      assume IH: "\<And>m' ptr' prev' cur' y'. walk m' ptr' prev' cur' = Some y' \<Longrightarrow>
          m' = m \<longrightarrow> ptr' = ptr \<longrightarrow> cur' \<notin> C"
        and eq: "(if cur' = NULL then Some (prev', cur')
          else if rd32 m' cur' = ptr' then Some (prev', cur')
          else walk m' ptr' cur' (rd32 m' (cur' + 8))) = Some y'"
      show "m' = m \<longrightarrow> ptr' = ptr \<longrightarrow> cur' \<notin> C"
        using eq IH [of m' ptr' cur' "rd32 m' (cur' + 8)"] assms(1) [of cur'] by (auto split: if_splits)
    qed
    with assms(2) show False by simp
  qed
  then show ?thesis by (cases "memextract_walk m ptr prev cur") auto
qed

lemma memextract_missing:
  assumes H: "heap_inv s bs NULL us" and ne: "us \<noteq> []"
    and b: "b \<notin> (\<lambda>(d, b, n). b) ` set us" and b': "b' \<notin> (\<lambda>(d, b, n). b) ` set us"
  obtains s' where "memextract NULL b s = Some s'" "memextract NULL b' s' = None"
    "heap_ok s' bs" "minheap s' = minheap s" "maxheap s' = maxheap s"
    "proctab s' = proctab s" "currpid s' = currpid s"
proof -
  let ?m = "mem s"
  have U: "ulist ?m NULL us" using H by (simp add: heap_inv_def)
  obtain p where p: "p = last (map fst us)" by blast
  have tw: "takeWhile (\<lambda>(d, b', n). b' \<noteq> b) us = us" "dropWhile (\<lambda>(d, b', n). b' \<noteq> b) us = []"
    using b by (auto simp: takeWhile_eq_all_conv dropWhile_eq_Nil_conv image_iff)
  have w: "memextract_walk ?m b NULL (rd32 ?m (NULL + 8)) = Some (p, NULL)"
    using memextract_walk_ulist [OF U, of b] ne unfolding tw p by simp
  have pin: "p \<in> set (map fst us)" unfolding p by (rule last_in_set) (use ne in simp)
  then have pn: "p \<in> set (NULL # map fst us)" by simp
  note L = node_link_write [where v = "rd32 ?m (NULL + 8)", OF H pn refl]
  let ?m' = "wr32 ?m (p + 8) (rd32 ?m (NULL + 8))"
  let ?C = "set (map fst us)" and ?nx = "\<lambda>x. rd32 ?m (x + 8)"
  have l: "lchain ?nx (?nx NULL) (map fst us)" using U by (simp add: ulist_def)
  have f: "?nx NULL \<in> ?C" using l ne by (cases us) auto
  have "rd32 ?m' (x + 8) \<in> ?C" if x: "x \<in> ?C" for x
  proof (cases "x = p")
    case True
    then show ?thesis using L(2) f by simp
  next
    case False
    obtain us1 us2 where s: "map fst us = us1 @ x # us2" using split_list [OF x] by blast
    with l have c: "lchain ?nx (?nx (last (NULL # us1))) (x # us2)" using lchain_tail by metis
    from False p s have "us2 \<noteq> []" by auto
    with c have "?nx x \<in> set us2" by (cases us2) auto
    then show ?thesis using L(3) [of x] x False s by simp
  qed
  moreover have "x \<noteq> NULL \<and> rd32 ?m' x \<noteq> b'" if x: "x \<in> ?C" for x
    using map_fst3 [OF x] L(1,4) x b' by (fastforce simp: image_iff)
  ultimately have "memextract_walk ?m' b' NULL (rd32 ?m' (NULL + 8)) = None"
    using f L(3) [of NULL] L(1) pin by (intro memextract_walk_ring [of ?C]) auto
  then have "memextract NULL b' (s\<lparr>mem := ?m'\<rparr>) = None" by (simp add: memextract_def)
  moreover have "memextract NULL b s = Some (s\<lparr>mem := ?m'\<rparr>)" by (simp only: memextract_def w wrk_mem Option.bind.simps prod.case)
  ultimately show ?thesis using L(6) by (intro that [of "s\<lparr>mem := ?m'\<rparr>"]) auto
qed

section \<open>Putting a block back\<close>

definition last_end :: "block list \<Rightarrow> u32" where
  "last_end xs = (case last xs of (b, n) \<Rightarrow> b + n)"

text \<open>Put \<open>(a, n)\<close> in front of \<open>ys\<close>, joined with the first block when they touch.\<close>

fun join :: "block \<Rightarrow> block list \<Rightarrow> block list" where
  "join (a, n) [] = [(a, n)]"
| "join (a, n) ((b, k) # ys) = (if a + n = b then (a, n + k) # ys else (a, n) # (b, k) # ys)"

definition release :: "addr \<Rightarrow> u32 \<Rightarrow> block list \<Rightarrow> block list option" where
  "release a nb bs =
     (let xs = takeWhile (\<lambda>(b, n). b < a) bs; ys = dropWhile (\<lambda>(b, n). b < a) bs in
      if (xs \<noteq> [] \<and> a < last_end xs) \<or> (ys \<noteq> [] \<and> a + nb > fst (hd ys)) then None
      else if xs \<noteq> [] \<and> last_end xs = a
      then Some (butlast xs @ join (fst (last xs), snd (last xs) + nb) ys)
      else Some (xs @ join (a, nb) ys))"

lemma below_split:
  "bs = takeWhile (\<lambda>(b, n). b < a) bs @ dropWhile (\<lambda>(b, n). b < a) bs"
  by simp

lemma last_end_bend:
  assumes "blocks g lo hi (xs @ [(p, n)])" "hi < 2 ^ 32"
  shows "unat (last_end (xs @ [(p, n)])) = unat p + unat n"
    "bend g lo (xs @ [(p, n)]) = unat p + unat n + g"
  using assms by (auto simp: last_end_def unat_plus_small)

lemma join_blocks:
  assumes "blocks 1 (unat a + unat n) hi ys" "blocks 1 lo hi [(a, n)]" "hi < 2 ^ 32"
  shows "blocks 1 lo hi (join (a, n) ys) \<and>
     bytes_of (join (a, n) ys) = {unat a..<unat a + unat n} \<union> bytes_of ys \<and>
     total (join (a, n) ys) = unat n + total ys"
proof (cases ys)
  case (Cons y zs)
  obtain b k where y: "y = (b, k)" by (cases y)
  have u: "unat (a + n) = unat a + unat n" using assms by (simp add: unat_plus_small)
  show ?thesis
  proof (cases "a + n = b")
    case True
    then have b: "unat b = unat a + unat n" using u by simp
    have "unat (n + k) = unat n + unat k"
      using assms Cons y b by (simp add: unat_plus_small)
    with True b assms Cons y show ?thesis by (auto simp: algebra_simps)
  next
    case False
    then have "unat b \<noteq> unat a + unat n" using u by (metis word_unat_eq_iff)
    with assms False Cons y show ?thesis by auto
  qed
qed (use assms in auto)

text \<open>
  A block that overlaps no free block is taken back: exactly its bytes are added, and the
  list stays sorted, disjoint and coalesced. A block that overlaps one is refused.
\<close>

lemma release_blocks:
  assumes B: "blocks 1 lo hi bs" and hi: "hi < 2 ^ 32"
    and a: "8 dvd unat a" "0 < unat nb" "8 dvd unat nb" "lo \<le> unat a" "unat a + unat nb \<le> hi"
    and D: "bytes_of bs \<inter> {unat a..<unat a + unat nb} = {}"
  obtains bs' where "release a nb bs = Some bs'" "blocks 1 lo hi bs'"
    "bytes_of bs' = bytes_of bs \<union> {unat a..<unat a + unat nb}" "total bs' = total bs + unat nb"
proof -
  let ?xs = "takeWhile (\<lambda>(b, n). b < a) bs" and ?ys = "dropWhile (\<lambda>(b, n). b < a) bs"
  obtain xs ys where xy: "xs = ?xs" "ys = ?ys" by blast
  then have bs: "bs = xs @ ys" by simp
  have X: "blocks 1 lo hi xs" and Y: "blocks 1 (bend 1 lo xs) hi ys" using B bs by auto
  have ua: "unat (a + nb) = unat a + unat nb" using a hi by (simp add: unat_plus_small)
  have ylo: "\<not> a + nb > fst (hd ys) \<and> blocks 1 (unat a + unat nb) hi ys" if ne: "ys \<noteq> []"
  proof -
    obtain b k zs where y: "ys = (b, k) # zs" using ne by (cases ys) auto
    have "\<not> (case hd ?ys of (b, n) \<Rightarrow> b < a)" by (rule hd_dropWhile) (use y xy in auto)
    then have "unat a \<le> unat b" using y xy by (simp add: word_less_nat_alt not_less)
    moreover have "unat b \<in> bytes_of bs" using bs y Y by auto
    ultimately have "unat a + unat nb \<le> unat b" using D by auto
    with y Y ua show ?thesis by (simp add: word_less_nat_alt)
  qed
  have xlo: "unat (last_end xs) \<le> unat a \<and> bend 1 lo xs = unat (last_end xs) + 1 \<and>
      last_end xs = fst (last xs) + snd (last xs)" if ne: "xs \<noteq> []"
  proof -
    obtain us p n where x: "xs = us @ [(p, n)]" using ne by (metis append_butlast_last_id surj_pair)
    note l = last_end_bend [OF X [unfolded x] hi]
    have "(p, n) \<in> set ?xs" using x xy by auto
    then have "p < a" by (auto dest: set_takeWhileD)
    then have "unat p < unat a" by (simp add: word_less_nat_alt)
    have "unat p + unat n \<le> unat a"
    proof (rule ccontr)
      assume "\<not> ?thesis"
      then have "unat a \<in> {unat p..<unat p + unat n}" using \<open>unat p < unat a\<close> by simp
      then have "unat a \<in> bytes_of bs" using bs x by auto
      with D a(2) show False by auto
    qed
    with l x show ?thesis by (simp add: last_end_def)
  qed
  have ok: "\<not> ((xs \<noteq> [] \<and> a < last_end xs) \<or> (ys \<noteq> [] \<and> a + nb > fst (hd ys)))"
    using xlo ylo by (auto simp: word_less_nat_alt)
  have Y': "blocks 1 (unat a + unat nb) hi ys" using ylo by (cases "ys = []") auto
  show ?thesis
  proof (cases "xs \<noteq> [] \<and> last_end xs = a")
    case True
    obtain us p n where x: "xs = us @ [(p, n)]"
      using True by (metis append_butlast_last_id surj_pair)
    have pn: "unat p + unat n = unat a" using last_end_bend [OF X [unfolded x] hi] True x by simp
    have un: "unat (n + nb) = unat n + unat nb" using pn a hi by (simp add: unat_plus_small)
    have X': "blocks 1 lo hi us" "bend 1 lo us \<le> unat p" "8 dvd unat p" "8 dvd unat n"
      using X unfolding x by simp_all
    have P: "blocks 1 lo hi us" "blocks 1 (bend 1 lo us) hi [(p, n + nb)]"
      using X' un pn a(2,5) dvd_add [OF X'(4) a(3)] by simp_all
    have J: "blocks 1 (unat p + unat (n + nb)) hi ys" using Y' un pn by (simp add: add.assoc [symmetric])
    note j = join_blocks [OF J P(2) hi]
    have "release a nb bs = Some (us @ join (p, n + nb) ys)"
      using True ok x unfolding release_def xy [symmetric] Let_def by simp
    moreover have "bytes_of (us @ join (p, n + nb) ys) = bytes_of bs \<union> {unat a..<unat a + unat nb}"
    proof -
      have "{unat p..<unat p + unat (n + nb)} = {unat p..<unat p + unat n} \<union> {unat a..<unat a + unat nb}"
        unfolding un pn add.assoc [symmetric] using pn by (simp add: ivl_disj_un_two(3))
      then show ?thesis using j unfolding bs x by (simp add: Un_ac)
    qed
    moreover have "total (us @ join (p, n + nb) ys) = total bs + unat nb"
      using j un unfolding bs x by simp
    ultimately show ?thesis using j P by (intro that [of "us @ join (p, n + nb) ys"]) simp_all
  next
    case False
    have P: "blocks 1 (bend 1 lo xs) hi [(a, nb)]"
    proof (cases "xs = []")
      case False
      then have "unat (last_end xs) \<noteq> unat a"
        using \<open>\<not> (xs \<noteq> [] \<and> last_end xs = a)\<close> by (metis word_unat_eq_iff)
      with xlo [OF False] a show ?thesis by auto
    qed (use a in auto)
    note j = join_blocks [OF Y' P hi]
    have "release a nb bs = Some (xs @ join (a, nb) ys)"
      using False ok unfolding release_def xy [symmetric] Let_def by (simp only: if_False)
    moreover have "bytes_of (xs @ join (a, nb) ys) = bytes_of bs \<union> {unat a..<unat a + unat nb}"
      using j unfolding bs by (simp add: Un_ac)
    moreover have "total (xs @ join (a, nb) ys) = total bs + unat nb"
      using j unfolding bs by simp
    ultimately show ?thesis using j X by (intro that [of "xs @ join (a, nb) ys"]) simp_all
  qed
qed

lemma release_overlap:
  assumes B: "blocks 1 lo hi bs" and hi: "hi < 2 ^ 32" and a: "0 < unat nb" "unat a + unat nb \<le> hi"
    and R: "release a nb bs = Some bs'"
  shows "bytes_of bs \<inter> {unat a..<unat a + unat nb} = {}"
proof -
  let ?xs = "takeWhile (\<lambda>(b, n). b < a) bs" and ?ys = "dropWhile (\<lambda>(b, n). b < a) bs"
  obtain xs ys where xy: "xs = ?xs" "ys = ?ys" by blast
  then have bs: "bs = xs @ ys" by simp
  have X: "blocks 1 lo hi xs" and Y: "blocks 1 (bend 1 lo xs) hi ys" using B bs by auto
  have r: "xs \<noteq> [] \<longrightarrow> last_end xs \<le> a" "ys \<noteq> [] \<longrightarrow> a + nb \<le> fst (hd ys)"
    using R unfolding release_def xy [symmetric] by (auto simp: Let_def not_less split: if_splits)
  have "x < unat a" if x: "x \<in> bytes_of xs" for x
  proof -
    from x have "xs \<noteq> []" by auto
    then obtain us p n where s: "xs = us @ [(p, n)]" by (metis append_butlast_last_id surj_pair)
    have X0: "blocks 0 lo hi xs" by (rule blocks_weaken [OF X]) auto
    have "x < bend 0 lo xs" using bend_bounds [OF X0] x by blast
    then have "x < unat (last_end xs)" using last_end_bend [OF X0 [unfolded s] hi] s by simp
    moreover have "unat (last_end xs) \<le> unat a" using r(1) s by (simp add: word_le_nat_alt)
    ultimately show ?thesis by linarith
  qed
  moreover have "unat a + unat nb \<le> x" if x: "x \<in> bytes_of ys" for x
  proof -
    obtain b k zs where y: "ys = (b, k) # zs" using x by (cases ys) auto
    have "unat b \<le> x" using Y y x blocks_first(2) by force
    moreover have "unat (a + nb) = unat a + unat nb" using a hi by (simp add: unat_plus_small)
    ultimately show ?thesis using r(2) y by (simp add: word_le_nat_alt)
  qed
  ultimately show ?thesis using bs by fastforce
qed

text \<open>The four ways \<open>freemem\<close> writes to the list.\<close>

lemma flist_total:
  assumes F: "flist m c bs" and ok: "cells_ok (c # map fst bs)"
  shows "flist (wr32 m (c + 4) t) c bs"
proof -
  note C = cells_okD [OF ok]
  have cin: "c \<in> set (c # map fst bs)" by simp
  show ?thesis
  proof (rule flist_frame [OF F])
    show "rd32 (wr32 m (c + 4) t) c = rd32 m c"
      using C(2,3,5) [OF cin] cin by (simp add: rd32_wr32)
    fix x assume x: "x \<in> set (map fst bs)"
    then have xin: "x \<in> set (c # map fst bs)" and "x \<noteq> c" using C(1) by auto
    then show "rd32 (wr32 m (c + 4) t) x = rd32 m x \<and> rd32 (wr32 m (c + 4) t) (x + 4) = rd32 m (x + 4)"
      using C(2) [OF xin] C(3) [OF xin] C(3) [OF cin] C(5) [OF xin cin] by (simp add: rd32_wr32)
  qed
qed

lemma flist_grow:
  assumes F: "flist m c (xs @ (p, n) # ys)" and ok: "cells_ok (c # map fst (xs @ (p, n) # ys))"
  shows "flist (wr32 m (p + 4) v) c (xs @ (p, v) # ys)"
    "rd32 (wr32 m (p + 4) v) (c + 4) = rd32 m (c + 4)"
proof -
  let ?ns = "c # map fst (xs @ (p, n) # ys)" and ?m' = "wr32 m (p + 4) v"
  note C = cells_okD [OF ok]
  have pin: "p \<in> set ?ns" and cin: "c \<in> set ?ns" by simp_all
  have r: "rd32 ?m' x = rd32 m x" if "x \<in> set ?ns" for x
    using C(2) [OF that] C(3) [OF pin] C(5) [OF that pin] by (simp add: rd32_wr32)
  have r4: "rd32 ?m' (x + 4) = (if x = p then v else rd32 m (x + 4))" if "x \<in> set ?ns" for x
    using C(3) [OF that] C(3) [OF pin] by (auto simp: rd32_wr32)
  have d: "p \<noteq> c" "p \<notin> set (map fst xs)" "p \<notin> set (map fst ys)" using C(1) by auto
  have "flist m p ys" using flist_tail [OF F] by (simp add: flist_Cons)
  then have fy: "flist ?m' p ys"
    by (rule flist_frame) (use r r4 d in auto)
  from flist_tail [OF F] have fp: "rd32 m (last (c # map fst xs)) = p" "p \<noteq> NULL"
    by (simp_all add: flist_Cons)
  have lin: "last (c # map fst xs) \<in> set ?ns"
    using last_in_set [of "c # map fst xs"] by (simp only: map_append set_append list.set) blast
  have "flist ?m' (last (c # map fst xs)) ((p, v) # ys)"
    using fy fp r [OF lin] r4 [OF pin] by (simp add: flist_Cons)
  then show "flist ?m' c (xs @ (p, v) # ys)"
  proof (rule flist_relink [OF F, rotated 2])
    fix x assume "x \<in> set (butlast (c # map fst xs))"
    from in_set_butlastD [OF this] show "rd32 ?m' x = rd32 m x" by (intro r) auto
  next
    fix x assume "x \<in> set (map fst xs)"
    with d r4 [of x] show "rd32 ?m' (x + 4) = rd32 m (x + 4)" by auto
  qed
  show "rd32 ?m' (c + 4) = rd32 m (c + 4)" using r4 [OF cin] d by simp
qed

lemma flist_link:
  assumes F: "flist m c (xs @ ys)" and ok: "cells_ok (c # map fst xs @ a # map fst ys)" and a: "a \<noteq> NULL"
    and p: "p = last (c # map fst xs)"
  shows "flist (wr32 (wr32 (wr32 m a (rd32 m p)) (a + 4) k) p a) c (xs @ (a, k) # ys)"
    "rd32 (wr32 (wr32 (wr32 m a (rd32 m p)) (a + 4) k) p a) (c + 4) = rd32 m (c + 4)"
proof -
  let ?ns = "c # map fst xs @ a # map fst ys"
  let ?m' = "wr32 (wr32 (wr32 m a (rd32 m p)) (a + 4) k) p a"
  note C = cells_okD [OF ok]
  have pxs: "p \<in> set (c # map fst xs)" unfolding p by (rule last_in_set) simp
  then have pin: "p \<in> set ?ns" and ain: "a \<in> set ?ns" and cin: "c \<in> set ?ns" by auto
  have pa: "p \<noteq> a" using pxs C(1) by auto
  note al = C(2) [OF pin] C(2) [OF ain] C(3) [OF ain] C(5) [OF ain ain] C(5) [OF pin ain] pa
  have r: "rd32 ?m' x = (if x = p then a else if x = a then rd32 m p else rd32 m x)" if "x \<in> set ?ns" for x
    using al C(2) [OF that] C(5) [OF that ain] by (simp add: rd32_wr32)
  have r4: "rd32 ?m' (x + 4) = (if x = a then k else rd32 m (x + 4))" if "x \<in> set ?ns" for x
    using al C(3) [OF that] C(4) [OF pin that] C(4) [OF ain that] by (auto simp: rd32_wr32)
  have d: "a \<noteq> c" "a \<notin> set (map fst xs)" "a \<notin> set (map fst ys)" "p \<notin> set (map fst ys)"
    using C(1) pxs by auto
  have "flist m p ys" unfolding p by (rule flist_tail [OF F])
  then have fy: "flist ?m' a ys"
    by (rule flist_frame) (use r r4 d pa in auto)
  have "flist ?m' p ((a, k) # ys)"
    using fy r [OF pin] r4 [OF ain] a by (simp add: flist_Cons)
  then have "flist ?m' (last (c # map fst xs)) ((a, k) # ys)" by (simp only: p)
  then show "flist ?m' c (xs @ (a, k) # ys)"
  proof (rule flist_relink [OF F, rotated 2])
    fix x assume x: "x \<in> set (butlast (c # map fst xs))"
    have "x \<noteq> p" unfolding p by (rule last_not_in_butlast [OF _ _ x]) (use C(1) in auto)
    moreover have "x \<in> set (c # map fst xs)" by (rule in_set_butlastD [OF x])
    then have "x \<in> set ?ns" "x \<noteq> a" using d by auto
    ultimately show "rd32 ?m' x = rd32 m x" using r by simp
  next
    fix x assume "x \<in> set (map fst xs)"
    then have "x \<in> set ?ns" "x \<noteq> a" using d by auto
    then show "rd32 ?m' (x + 4) = rd32 m (x + 4)" using r4 by simp
  qed
  show "rd32 ?m' (c + 4) = rd32 m (c + 4)" using r4 [OF cin] d by simp
qed

lemma flist_join:
  assumes F: "flist m c (xs @ (a, n) # (b, k) # ys)"
    and ok: "cells_ok (c # map fst (xs @ (a, n) # (b, k) # ys))"
  shows "flist (wr32 (wr32 m (a + 4) v) a (rd32 m b)) c (xs @ (a, v) # ys)"
    "rd32 (wr32 (wr32 m (a + 4) v) a (rd32 m b)) (c + 4) = rd32 m (c + 4)"
proof -
  let ?ns = "c # map fst (xs @ (a, n) # (b, k) # ys)"
  let ?m' = "wr32 (wr32 m (a + 4) v) a (rd32 m b)"
  note C = cells_okD [OF ok]
  have ain: "a \<in> set ?ns" and bin: "b \<in> set ?ns" and cin: "c \<in> set ?ns" by simp_all
  note al = C(2) [OF ain] C(3) [OF ain] C(5) [OF ain ain]
  have r: "rd32 ?m' x = (if x = a then rd32 m b else rd32 m x)" if "x \<in> set ?ns" for x
    using al C(2) [OF that] C(5) [OF that ain] by (simp add: rd32_wr32)
  have r4: "rd32 ?m' (x + 4) = (if x = a then v else rd32 m (x + 4))" if "x \<in> set ?ns" for x
    using al C(3) [OF that] C(4) [OF ain that] by (auto simp: rd32_wr32)
  have d: "a \<noteq> c" "a \<notin> set (map fst xs)" "a \<notin> set (map fst ys)" using C(1) by auto
  from flist_tail [OF F] have fa: "rd32 m (last (c # map fst xs)) = a" "a \<noteq> NULL" "flist m b ys"
    by (simp_all add: flist_Cons)
  from fa(3) have fy: "flist ?m' a ys"
    by (rule flist_frame) (use r r4 d in auto)
  have lin: "last (c # map fst xs) \<in> set ?ns" "last (c # map fst xs) \<noteq> a"
  proof -
    have "last (c # map fst xs) \<in> set (c # map fst xs)" by (rule last_in_set) simp
    then have "last (c # map fst xs) \<in> insert c (set (map fst xs))" by (simp only: list.set)
    then show "last (c # map fst xs) \<in> set ?ns" "last (c # map fst xs) \<noteq> a"
      using d(1,2) by (simp_all only: map_append set_append list.set list.map) blast+
  qed
  have "flist ?m' (last (c # map fst xs)) ((a, v) # ys)"
    using fy fa r [OF lin(1)] r4 [OF ain] lin(2) by (simp add: flist_Cons)
  then show "flist ?m' c (xs @ (a, v) # ys)"
  proof (rule flist_relink [OF F, rotated 2])
    fix x assume "x \<in> set (butlast (c # map fst xs))"
    then have "x \<in> set (c # map fst xs)" by (rule in_set_butlastD)
    then have "x \<in> set ?ns" "x \<noteq> a" using d by auto
    then show "rd32 ?m' x = rd32 m x" using r by simp
  next
    fix x assume "x \<in> set (map fst xs)"
    then have "x \<in> set ?ns" "x \<noteq> a" using d by auto
    then show "rd32 ?m' (x + 4) = rd32 m (x + 4)" using r4 by simp
  qed
  show "rd32 ?m' (c + 4) = rd32 m (c + 4)" using r4 [OF cin] d by simp
qed

lemma freemem_walk_flist:
  "flist m c bs \<Longrightarrow> freemem_walk m a c (rd32 m c) =
     Some (last (c # map fst (takeWhile (\<lambda>(b, n). b < a) bs)),
       case dropWhile (\<lambda>(b, n). b < a) bs of [] \<Rightarrow> NULL | b # _ \<Rightarrow> fst b)"
proof (induction bs arbitrary: c)
  case Nil
  then show ?case by (simp add: freemem_walk.simps)
next
  case (Cons b bs)
  obtain x n where b: "b = (x, n)" by (cases b)
  from Cons.prems b have f: "rd32 m c = x" "x \<noteq> NULL" "flist m x bs" by (simp_all add: flist_Cons)
  from Cons.IH [OF f(3)] f b show ?case
    by (subst freemem_walk.simps) auto
qed

lemma join_head: "\<exists>k. (a, k) \<in> set (join (a, n) ys)"
  by (cases ys) auto

text \<open>The second coalescing step, on the list with the new block in it.\<close>

lemma coalesce_next:
  assumes F: "flist m c (zs @ (a, n) # ys)" and B: "blocks 0 (unat c + 8) hi (zs @ (a, n) # ys)"
    and c: "aligned4 c" "hi < 2 ^ 32"
    and nx: "nxt = (case ys of [] \<Rightarrow> NULL | b # _ \<Rightarrow> fst b)"
    and m': "m' = (if a + rd32 m (a + 4) = nxt
      then wr32 (wr32 m (a + 4) (rd32 m (a + 4) + rd32 m (nxt + 4))) a
             (rd32 (wr32 m (a + 4) (rd32 m (a + 4) + rd32 m (nxt + 4))) nxt) else m)"
  shows "flist m' c (zs @ join (a, n) ys)" "rd32 m' (c + 4) = rd32 m (c + 4)"
    "agree {unat a..<unat a + 8} m m'"
proof -
  have ok: "cells_ok (c # map fst (zs @ (a, n) # ys))" by (rule blocks_cells [OF B c])
  note C = cells_okD [OF ok]
  have len: "rd32 m (a + 4) = n" using flist_tail [OF F] by (simp add: flist_Cons)
  have an: "8 dvd unat a" "0 < unat n" "unat a + unat n \<le> hi" using B by auto
  have nn: "a + n \<noteq> NULL"
  proof
    assume "a + n = NULL"
    moreover have "unat (a + n) = unat a + unat n" using an c(2) by (simp add: unat_plus_small)
    ultimately show False using an by simp
  qed
  have ag: "agree {unat a..<unat a + 8} m (wr32 (wr32 m (a + 4) v) a w)" for v w
    using an(1) unat_plus4 [OF an(1)] by (intro agree_wr32 agree_refl aligned4_plus4 aligned4_dvd8) auto
  have *: "flist m' c (zs @ join (a, n) ys) \<and> rd32 m' (c + 4) = rd32 m (c + 4) \<and>
    agree {unat a..<unat a + 8} m m'"
  proof (cases ys)
    case Nil
    then show ?thesis using F nn nx len by (simp add: m')
  next
    case (Cons y ws)
    obtain b k where y: "y = (b, k)" by (cases y)
    have nb: "nxt = b" using nx Cons y by simp
    show ?thesis
    proof (cases "a + n = b")
      case False
      then show ?thesis using F Cons y nb len by (simp add: m')
    next
      case True
      have Fj: "flist m c (zs @ (a, n) # (b, k) # ws)" using F Cons y by simp
      have okj: "cells_ok (c # map fst (zs @ (a, n) # (b, k) # ws))" using ok Cons y by simp
      have bk: "rd32 m (b + 4) = k" using Fj unfolding flist_def by auto
      have ain: "a \<in> set (c # map fst (zs @ (a, n) # ys))" and bin: "b \<in> set (c # map fst (zs @ (a, n) # ys))"
        using Cons y by simp_all
      have "rd32 (wr32 m (a + 4) (n + k)) b = rd32 m b"
        using C(2) [OF bin] C(3) [OF ain] C(5) [OF bin ain] by (simp add: rd32_wr32)
      then have m'': "m' = wr32 (wr32 m (a + 4) (n + k)) a (rd32 m b)"
        using True nb len bk by (simp add: m')
      show ?thesis
        unfolding m'' using flist_join [OF Fj okj, of "n + k"] True Cons y ag by simp
    qed
  qed
  then show "flist m' c (zs @ join (a, n) ys)" "rd32 m' (c + 4) = rd32 m (c + 4)"
    "agree {unat a..<unat a + 8} m m'" by blast+
qed

lemma freemem_insert_ok:
  assumes H: "heap_ok s bs" and R: "release a nb bs = Some bs'"
    and a: "8 dvd unat a" "0 < unat nb" "8 dvd unat nb" "unat (minheap s) \<le> unat a"
      "unat a + unat nb \<le> unat (maxheap s)"
  obtains m' where "freemem_insert a nb s = Some (OK, s\<lparr>mem := m'\<rparr>)" "heap_ok (s\<lparr>mem := m'\<rparr>) bs'"
    "agree (bytes_of bs' \<union> ml_bytes s) (mem s) m'"
proof -
  let ?ml = "memlist_at s" and ?m = "mem s"
  note h = heap_okD [OF H]
  have D: "bytes_of bs \<inter> {unat a..<unat a + unat nb} = {}"
    by (rule release_overlap [OF h(2) unat_less_2p32 a(2,5) R])
  obtain rb: "blocks 1 (unat (minheap s)) (unat (maxheap s)) bs'"
    "bytes_of bs' = bytes_of bs \<union> {unat a..<unat a + unat nb}" "total bs' = total bs + unat nb"
    using release_blocks [OF h(2) unat_less_2p32 a(1,2,3,4,5) D] R by (metis option.inject)
  obtain xs ys where xy: "xs = takeWhile (\<lambda>(b, n). b < a) bs" "ys = dropWhile (\<lambda>(b, n). b < a) bs"
    by blast
  then have bs: "bs = xs @ ys" by simp
  obtain p where p: "p = last (?ml # map fst xs)" by blast
  obtain nxt where nxt: "nxt = (case ys of [] \<Rightarrow> NULL | b # _ \<Rightarrow> fst b)" by blast
  have w: "freemem_walk ?m a ?ml (rd32 ?m ?ml) = Some (p, nxt)"
    using freemem_walk_flist [OF h(1), of a] by (simp only: xy [symmetric] p nxt)
  have F: "flist ?m ?ml (xs @ ys)" using h(1) bs by simp
  have ok: "cells_ok (?ml # map fst (xs @ ys))"
    using blocks_cells [OF h(6,4) unat_less_2p32] bs by simp
  note C = cells_okD [OF ok]
  have a0: "a \<noteq> NULL" using a(4) h(5) by auto
  have top: "(p = ?ml) = (xs = [])" "xs \<noteq> [] \<Longrightarrow> p + rd32 ?m (p + 4) = last_end xs"
  proof -
    have pl: "(p, snd (last xs)) \<in> set (xs @ ys) \<and> p = fst (last xs)" if "xs \<noteq> []"
      using that p last_in_set [OF that] by (simp add: last_map)
    then have "p \<in> set (map fst (xs @ ys))" if "xs \<noteq> []" using that by force
    then show "(p = ?ml) = (xs = [])" using C(1) p by auto
    show "p + rd32 ?m (p + 4) = last_end xs" if "xs \<noteq> []"
      using pl [OF that] F unfolding flist_def last_end_def by (auto split: prod.splits)
  qed
  have nn: "nxt \<noteq> NULL \<longleftrightarrow> ys \<noteq> []" "ys \<noteq> [] \<Longrightarrow> nxt = fst (hd ys)"
  proof -
    have "NULL \<notin> set (map fst (xs @ ys))" using F lchain_not_NULL unfolding flist_def by blast
    then show "nxt \<noteq> NULL \<longleftrightarrow> ys \<noteq> []" using nxt by (cases ys) auto
    show "ys \<noteq> [] \<Longrightarrow> nxt = fst (hd ys)" using nxt by (cases ys) auto
  qed
  have cond: "\<not> ((xs \<noteq> [] \<and> a < last_end xs) \<or> (ys \<noteq> [] \<and> a + nb > fst (hd ys)))"
    using R unfolding release_def xy [symmetric] by (auto simp: Let_def split: if_splits)
  let ?t = "rd32 ?m (?ml + 4) + nb"
  let ?m1 = "wr32 ?m (?ml + 4) ?t"
  have F1: "flist ?m1 ?ml (xs @ ys)" by (rule flist_total [OF F ok])
  have ml4: "rd32 ?m1 (?ml + 4) = ?t" by simp
  have tt: "unat ?t = total bs'"
  proof -
    have "total bs' < 2 ^ 32" using total_bound [OF rb(1)] unat_less_2p32 [of "maxheap s"] by linarith
    then show ?thesis using h(3) rb(3) by (simp add: unat_plus_small)
  qed
  let ?U = "bytes_of bs' \<union> ml_bytes s"
  have ag1: "agree ?U ?m ?m1"
    by (rule agree_wr32 [OF agree_refl]) (use h(4) ml_cells(2) [OF H] in auto)
  have B0: "blocks 0 (unat ?ml + 8) (unat (maxheap s)) zs" if "blocks 1 (unat (minheap s)) (unat (maxheap s)) zs"
    for zs by (rule blocks_weaken [OF that]) (use h(5) in auto)
  obtain blk n zs m2 where st:
      "(if (if p = ?ml then NULL else p + rd32 ?m (p + 4)) = a
        then (p, s\<lparr>mem := wr32 ?m1 (p + 4) (rd32 ?m1 (p + 4) + nb)\<rparr>)
        else (a, s\<lparr>mem := wr32 (wr32 (wr32 ?m1 a nxt) (a + 4) nb) p a\<rparr>)) = (blk, s\<lparr>mem := m2\<rparr>)"
    and f2: "flist m2 ?ml (zs @ (blk, n) # ys)" "rd32 m2 (?ml + 4) = ?t"
    and b2: "blocks 0 (unat ?ml + 8) (unat (maxheap s)) (zs @ (blk, n) # ys)"
    and bs2: "bs' = zs @ join (blk, n) ys" and ag2: "agree ?U ?m m2"
  proof (cases "xs \<noteq> [] \<and> last_end xs = a")
    case True
    then obtain us q n where x: "xs = us @ [(q, n)]" by (metis append_butlast_last_id surj_pair)
    have pq: "p = q" using p x by simp
    have Fq: "flist ?m1 ?ml (us @ (q, n) # ys)" using F1 x by simp
    have okq: "cells_ok (?ml # map fst (us @ (q, n) # ys))" using ok x by simp
    have len: "rd32 ?m1 (q + 4) = n" using flist_tail [OF Fq] by (simp add: flist_Cons)
    have b: "bs' = us @ join (q, n + nb) ys"
      using R True cond x unfolding release_def xy [symmetric] Let_def by (auto split: if_splits)
    have Bb: "blocks 0 (unat ?ml + 8) (unat (maxheap s)) (us @ (q, n) # ys)" using h(6) bs x by simp
    have qn: "unat q + unat n = unat a"
      using last_end_bend [of 0 "unat ?ml + 8" "unat (maxheap s)" us q n] Bb True x unat_less_2p32 [of "maxheap s"] by simp
    have un: "unat (n + nb) = unat n + unat nb"
      using qn a(5) unat_lt_2p32 [of "maxheap s"] by (simp add: unat_plus_small)
    have ny: "blocks 0 (unat a + unat nb) (unat (maxheap s)) ys"
    proof (cases ys)
      case (Cons y ws)
      obtain b k where y: "y = (b, k)" by (cases y)
      have "unat (a + nb) = unat a + unat nb"
        using a(5) unat_lt_2p32 [of "maxheap s"] by (simp add: unat_plus_small)
      with cond Cons y have "unat a + unat nb \<le> unat b" by (simp add: word_le_nat_alt not_less)
      with Bb Cons y show ?thesis by simp
    qed simp
    have "8 dvd unat n + unat nb" using Bb a(3) by simp
    then have B2: "blocks 0 (unat ?ml + 8) (unat (maxheap s)) (us @ (q, n + nb) # ys)"
      using Bb ny un qn a by (simp add: add.assoc [symmetric])
    have qin: "{unat (q + 4)..<unat (q + 4) + 4} \<subseteq> ?U" "aligned4 q"
      using cell_bytes [OF h(2), of q] bs x rb(2) by auto
    show ?thesis
    proof (rule that)
      show "(if (if p = ?ml then NULL else p + rd32 ?m (p + 4)) = a
        then (p, s\<lparr>mem := wr32 ?m1 (p + 4) (rd32 ?m1 (p + 4) + nb)\<rparr>)
        else (a, s\<lparr>mem := wr32 (wr32 (wr32 ?m1 a nxt) (a + 4) nb) p a\<rparr>)) =
          (q, s\<lparr>mem := wr32 ?m1 (q + 4) (n + nb)\<rparr>)"
        using True top pq len by simp
      show "flist (wr32 ?m1 (q + 4) (n + nb)) ?ml (us @ (q, n + nb) # ys)"
        "rd32 (wr32 ?m1 (q + 4) (n + nb)) (?ml + 4) = ?t"
        using flist_grow [OF Fq okq] by simp_all
      show "agree ?U ?m (wr32 ?m1 (q + 4) (n + nb))"
        by (rule agree_wr32 [OF ag1]) (use qin in auto)
    qed (rule B2, rule b)
  next
    case False
    have b: "bs' = xs @ join (a, nb) ys"
      using R False cond unfolding release_def xy [symmetric] Let_def by (simp only: if_False option.inject)
    have ua: "unat (a + nb) = unat a + unat nb"
      using a(5) unat_lt_2p32 [of "maxheap s"] by (simp add: unat_plus_small)
    have X: "blocks 1 (unat (minheap s)) (unat (maxheap s)) xs" using h(2) bs by simp
    have xlo: "bend 0 (unat ?ml + 8) xs \<le> unat a"
    proof (cases "xs = []")
      case False
      then obtain us q n where x: "xs = us @ [(q, n)]" by (metis append_butlast_last_id surj_pair)
      have "last_end xs \<le> a" using cond False by (simp add: not_less)
      then show ?thesis
        using last_end_bend [OF B0 [OF X, unfolded x] unat_less_2p32] x by (simp add: word_le_nat_alt)
    qed (use a(4) h(5) in simp)
    have ny: "blocks 0 (unat a + unat nb) (unat (maxheap s)) ys"
    proof (cases ys)
      case (Cons y ws)
      obtain b k where y: "y = (b, k)" by (cases y)
      with ua cond Cons have "unat a + unat nb \<le> unat b" by (simp add: word_le_nat_alt not_less)
      with h(6) bs Cons y show ?thesis by simp
    qed simp
    have B2: "blocks 0 (unat ?ml + 8) (unat (maxheap s)) (xs @ (a, nb) # ys)"
      using B0 [OF X] xlo ny a by simp
    have ok2: "cells_ok (?ml # map fst xs @ a # map fst ys)"
      using blocks_cells [OF B2 h(4) unat_less_2p32] by simp
    have pn: "rd32 ?m1 p = nxt"
    proof -
      have "flist ?m1 p ys" unfolding p by (rule flist_tail [OF F1])
      then show ?thesis using nxt by (cases ys) (auto simp: flist_def)
    qed
    have n8: "8 \<le> unat nb" using a(2,3) by (metis dvd_imp_le)
    have sub: "{unat a..<unat a + 4} \<subseteq> ?U" "{unat (a + 4)..<unat (a + 4) + 4} \<subseteq> ?U" "aligned4 a"
    proof -
      have "{unat a..<unat a + 4} \<subseteq> {unat a..<unat a + unat nb}"
        "{unat (a + 4)..<unat (a + 4) + 4} \<subseteq> {unat a..<unat a + unat nb}"
        using n8 unat_plus4 [OF a(1)] by auto
      then show "{unat a..<unat a + 4} \<subseteq> ?U" "{unat (a + 4)..<unat (a + 4) + 4} \<subseteq> ?U"
        unfolding rb(2) by blast+
      show "aligned4 a" by (rule aligned4_dvd8 [OF a(1)])
    qed
    have psub: "{unat p..<unat p + 4} \<subseteq> ?U" "aligned4 p"
    proof -
      have "p \<in> set (?ml # map fst xs)" unfolding p by (rule last_in_set) simp
      then have "p = ?ml \<or> p \<in> set (map fst bs)" using bs by auto
      then show "{unat p..<unat p + 4} \<subseteq> ?U" "aligned4 p"
        using cell_bytes [OF h(2), of p] ml_cells(1) [OF H] rb(2) h(4) by auto
    qed
    show ?thesis
    proof (rule that)
      show "(if (if p = ?ml then NULL else p + rd32 ?m (p + 4)) = a
        then (p, s\<lparr>mem := wr32 ?m1 (p + 4) (rd32 ?m1 (p + 4) + nb)\<rparr>)
        else (a, s\<lparr>mem := wr32 (wr32 (wr32 ?m1 a nxt) (a + 4) nb) p a\<rparr>)) =
          (a, s\<lparr>mem := wr32 (wr32 (wr32 ?m1 a nxt) (a + 4) nb) p a\<rparr>)"
        using False top a0 by auto
      show "flist (wr32 (wr32 (wr32 ?m1 a nxt) (a + 4) nb) p a) ?ml (xs @ (a, nb) # ys)"
        "rd32 (wr32 (wr32 (wr32 ?m1 a nxt) (a + 4) nb) p a) (?ml + 4) = ?t"
        using flist_link [OF F1 ok2 a0 p, of nb] pn by simp_all
      show "agree ?U ?m (wr32 (wr32 (wr32 ?m1 a nxt) (a + 4) nb) p a)"
        by (intro agree_wr32 ag1 sub psub aligned4_plus4)
    qed (rule B2, rule b)
  qed
  define m3 where "m3 = (if blk + rd32 m2 (blk + 4) = nxt
      then wr32 (wr32 m2 (blk + 4) (rd32 m2 (blk + 4) + rd32 m2 (nxt + 4))) blk
             (rd32 (wr32 m2 (blk + 4) (rd32 m2 (blk + 4) + rd32 m2 (nxt + 4))) nxt) else m2)"
  note J = coalesce_next [OF f2(1) b2 h(4) unat_less_2p32 nxt m3_def]
  have st': "(if (if p = ?ml then NULL else p + rd32 ?m (p + 4)) = a
        then (p, wrk (p + 4) (rd32 (mem (wrk (?ml + 4) ?t s)) (p + 4) + nb) (wrk (?ml + 4) ?t s))
        else (a, wrk p a (wrk (a + 4) nb (wrk a nxt (wrk (?ml + 4) ?t s))))) = (blk, s\<lparr>mem := m2\<rparr>)"
    unfolding st [symmetric] by (simp add: wrk_mem cong: if_cong split del: if_split)
  have tst: "\<not> ((p \<noteq> ?ml \<and> a < (if p = ?ml then NULL else p + rd32 ?m (p + 4))) \<or> (nxt \<noteq> NULL \<and> a + nb > nxt))"
    using cond top nn by auto
  have "freemem_insert a nb s = Some (OK, s\<lparr>mem := m3\<rparr>)"
    unfolding freemem_insert_def w Let_def Option.bind.simps prod.case if_not_P [OF tst] st'
    by (simp add: wrk_mem m3_def)
  moreover have "heap_ok (s\<lparr>mem := m3\<rparr>) bs'"
    using J(1,2) f2(2) tt rb(1) h bs2 by (simp add: heap_ok_def)
  moreover have "agree ?U ?m m3"
  proof (rule agree_trans [OF ag2 J(3)])
    obtain k where "(blk, k) \<in> set (join (blk, n) ys)"
      using join_head by blast
    then have k: "(blk, k) \<in> set bs'" unfolding bs2 by simp
    have "8 \<le> unat k" using blocks_in [OF rb(1) k] by simp
    then show "{unat blk..<unat blk + 8} \<subseteq> ?U" using block_bytes [OF k] by (fastforce simp: subset_iff)
  qed simp
  ultimately show ?thesis by (rule that)
qed

section \<open>Allocating and freeing, with the in-use list\<close>

lemma heap_invD:
  assumes "heap_inv s bs h us"
  shows "heap_ok s bs" "ulist (mem s) h us" "nodes_ok (unat (minheap s)) (unat (maxheap s)) us"
    "node_bytes us \<inter> bytes_of bs = {}" "aligned4 h" "unat h + 12 \<le> unat (minheap s)"
    "hd_bytes h \<inter> ml_bytes s = {}"
    "node_bytes us \<inter> ml_bytes s = {}" "hd_bytes h \<inter> node_bytes us = {}"
    "\<And>S. S \<subseteq> {unat (minheap s)..<unat (maxheap s)} \<Longrightarrow> S \<inter> hd_bytes h = {} \<and> S \<inter> ml_bytes s = {}"
proof -
  show i: "heap_ok s bs" "ulist (mem s) h us" "nodes_ok (unat (minheap s)) (unat (maxheap s)) us"
    "node_bytes us \<inter> bytes_of bs = {}" "aligned4 h" "unat h + 12 \<le> unat (minheap s)"
    "hd_bytes h \<inter> ml_bytes s = {}" using assms by (simp_all add: heap_inv_def)
  show up: "S \<inter> hd_bytes h = {} \<and> S \<inter> ml_bytes s = {}"
    if "S \<subseteq> {unat (minheap s)..<unat (maxheap s)}" for S
    using that i(6) heap_okD(5) [OF i(1)] by fastforce
  from up [OF nodes_bounds [OF i(3)]]
  show "node_bytes us \<inter> ml_bytes s = {}" "hd_bytes h \<inter> node_bytes us = {}" by blast+
qed

lemma roundmb_ok:
  assumes "nbytes \<noteq> 0" "unat nbytes + 7 < 2 ^ 32"
  shows "0 < unat (roundmb nbytes)" "8 dvd unat (roundmb nbytes)"
  using assms round8_pos [of "unat nbytes"] by (simp_all add: roundmb_round8 unat_gt_0)

lemma freemem_inv:
  assumes H: "heap_inv s bs h (xs @ (d, a, n) # ys)" and h: "prheaphd (proctab s (currpid s)) = h"
    and x: "a \<notin> (\<lambda>(d, b, n). b) ` set xs"
    and nb: "nbytes \<noteq> 0" "unat nbytes + 7 < 2 ^ 32" and a: "8 dvd unat a" "unat (minheap s) \<le> unat a"
    "unat a + unat (roundmb nbytes) \<le> unat (maxheap s)"
    and D: "{unat a..<unat a + unat (roundmb nbytes)} \<inter> (bytes_of bs \<union> node_bytes (xs @ ys)) = {}"
  obtains m' bs' where "freemem a nbytes s = Some (OK, s\<lparr>mem := m'\<rparr>)"
    "heap_inv (s\<lparr>mem := m'\<rparr>) bs' h (xs @ ys)"
    "bytes_of bs' = bytes_of bs \<union> {unat a..<unat a + unat (roundmb nbytes)}"
    "total bs' = total bs + unat (roundmb nbytes)"
proof -
  let ?nb = "roundmb nbytes"
  obtain m1 where e: "memextract h a s = Some (s\<lparr>mem := m1\<rparr>)"
    and H1: "heap_inv (s\<lparr>mem := m1\<rparr>) bs h (xs @ ys)"
    using memextract_found [OF H x] by blast
  note i = heap_invD [OF H1, simplified]
  note r = roundmb_ok [OF nb]
  have B: "blocks 1 (unat (minheap s)) (unat (maxheap s)) bs" using heap_okD(2) [OF i(1)] by simp
  obtain bs' where R: "release a ?nb bs = Some bs'" "blocks 1 (unat (minheap s)) (unat (maxheap s)) bs'"
    "bytes_of bs' = bytes_of bs \<union> {unat a..<unat a + unat ?nb}" "total bs' = total bs + unat ?nb"
    using release_blocks [OF B unat_less_2p32 a(1) r a(2,3)] D by (simp add: Int_Un_distrib Int_commute) blast
  obtain m2 where f: "freemem_insert a ?nb (s\<lparr>mem := m1\<rparr>) = Some (OK, s\<lparr>mem := m2\<rparr>)"
    and k: "heap_ok (s\<lparr>mem := m2\<rparr>) bs'" and ag: "agree (bytes_of bs' \<union> ml_bytes s) m1 m2"
    using freemem_insert_ok [OF i(1) R(1) a(1) r, simplified] a by auto
  have fr: "freemem a nbytes s = Some (OK, s\<lparr>mem := m2\<rparr>)"
  proof -
    have "\<not> (nbytes = 0 \<or> a < minheap s \<or> a > maxheap s)"
      using nb(1) a by (auto simp: word_less_nat_alt)
    then show ?thesis using e f h by (simp add: freemem_def)
  qed
  have nd: "node_bytes (xs @ ys) \<inter> bytes_of bs' = {}" using D i(4) unfolding R(3) by auto
  have sb: "bytes_of bs' \<subseteq> {unat (minheap s)..<unat (maxheap s)}" using bytes_of_bounds [OF R(2)] .
  have dis: "(bytes_of bs' \<union> ml_bytes s) \<inter> node_bytes (xs @ ys) = {}"
    "(bytes_of bs' \<union> ml_bytes s) \<inter> hd_bytes h = {}"
    using nd i(8,7) i(10) [OF sb] by auto
  have h8: "{unat (h + 8)..<unat (h + 8) + 4} = hd_bytes h"
    using i(6) unat_lt_2p32 [of "minheap s"] by (auto simp: unat_plus_small)
  have hr: "rd32 m2 (h + 8) = rd32 m1 (h + 8)"
    by (rule agree_rd32 [OF ag]) (use i(5) dis(2) h8 in \<open>auto simp: Int_commute\<close>)
  have U1: "ulist m1 h (xs @ ys)" "nodes_ok (unat (minheap s)) (unat (maxheap s)) (xs @ ys)"
    using H1 by (simp_all add: heap_inv_def)
  have "ulist m2 h (xs @ ys)"
    by (rule ulist_frame [OF U1 unat_less_2p32 ag dis(1) hr])
  with k nd U1(2) i have "heap_inv (s\<lparr>mem := m2\<rparr>) bs' h (xs @ ys)" by (simp add: heap_inv_def)
  with fr show ?thesis using R(3,4) by (intro that)
qed

section \<open>Stacks: last fit, from the top\<close>

definition alloc_top :: "u32 \<Rightarrow> block list \<Rightarrow> (addr \<times> block list) option" where
  "alloc_top nb bs =
     (let vs = rev (takeWhile (\<lambda>(a, n). n < nb) (rev bs)) in
      case dropWhile (\<lambda>(a, n). n < nb) (rev bs) of
        [] \<Rightarrow> None
      | (a, n) # us \<Rightarrow>
          Some (a + (n - nb), rev us @ (if n = nb then vs else (a, n - nb) # vs)))"

lemma alloc_top_split:
  assumes "alloc_top nb bs = Some (b, bs')"
  obtains xs a n ys where "bs = xs @ (a, n) # ys" "nb \<le> n" "\<forall>(c, k) \<in> set ys. k < nb" "b = a + (n - nb)"
    "bs' = xs @ (if n = nb then ys else (a, n - nb) # ys)"
proof -
  let ?P = "\<lambda>(a, n). n < nb"
  obtain ys where ys: "ys = rev (takeWhile ?P (rev bs))" by blast
  from assms obtain a n us where d: "dropWhile ?P (rev bs) = (a, n) # us" and b: "b = a + (n - nb)"
    "bs' = rev us @ (if n = nb then ys else (a, n - nb) # ys)"
    unfolding ys by (auto simp: alloc_top_def Let_def split: list.splits prod.splits if_splits)
  have "rev bs = takeWhile ?P (rev bs) @ (a, n) # us" by (metis d takeWhile_dropWhile_id)
  then have "rev (rev bs) = rev (takeWhile ?P (rev bs) @ (a, n) # us)" by (simp only:)
  then have "bs = rev us @ (a, n) # ys" by (simp add: ys)
  moreover have "\<not> ?P (hd (dropWhile ?P (rev bs)))" by (rule hd_dropWhile) (simp add: d)
  then have "nb \<le> n" by (simp add: d)
  moreover have "\<forall>(c, k) \<in> set ys. k < nb" unfolding ys by (auto dest: set_takeWhileD)
  ultimately show ?thesis using b by (intro that)
qed

lemma alloc_top_blocks:
  assumes A: "alloc_top nb bs = Some (b, bs')" and B: "blocks 1 lo hi bs" and hi: "hi < 2 ^ 32"
    and nb: "0 < unat nb" "8 dvd unat nb"
  shows "blocks 1 lo hi bs'" "bytes_of bs = bytes_of bs' \<union> {unat b..<unat b + unat nb}"
    "bytes_of bs' \<inter> {unat b..<unat b + unat nb} = {}" "total bs = total bs' + unat nb"
    "8 dvd unat b" "lo \<le> unat b" "unat b + unat nb \<le> hi"
proof -
  from A obtain xs a n ys where s: "bs = xs @ (a, n) # ys" "nb \<le> n" "b = a + (n - nb)"
    "bs' = xs @ (if n = nb then ys else (a, n - nb) # ys)" by (rule alloc_top_split)
  let ?lo = "bend 1 lo xs"
  from B s have X: "blocks 1 lo hi xs" and Y: "blocks 1 (unat a + unat n + 1) hi ys"
    and a: "?lo \<le> unat a" "8 dvd unat a" "8 dvd unat n" "unat a + unat n \<le> hi" by auto
  from s(2) have le: "unat nb \<le> unat n" by (simp add: word_le_nat_alt)
  have u: "unat (n - nb) = unat n - unat nb" using le by (simp add: unat_minus_le)
  then have ub: "unat b = unat a + (unat n - unat nb)" using a hi s(3) by (simp add: unat_plus_small)
  have d: "8 dvd unat n - unat nb" using a(3) nb(2) by (rule dvd_diff_nat)
  have lt: "unat nb < unat n" if "n \<noteq> nb" using that le by (metis le_neq_implies_less word_unat_eq_iff)
  have lo: "lo \<le> ?lo" using bend_bounds [OF X] by simp
  have sp: "{unat a..<unat a + unat n} = {unat a..<unat b} \<union> {unat b..<unat b + unat nb}"
    using ub le by auto
  show "blocks 1 lo hi bs'"
  proof (cases "n = nb")
    case True
    then show ?thesis using X a s(4) blocks_weaken [OF Y, of 1 ?lo hi] by simp
  next
    case False
    then show ?thesis
      using X a s(4) u d lt blocks_weaken [OF Y, of 1 "unat a + (unat n - unat nb) + 1" hi] by simp
  qed
  have bs': "bytes_of bs' = bytes_of xs \<union> {unat a..<unat b} \<union> bytes_of ys"
    using s(4) u ub by (cases "n = nb") auto
  show "bytes_of bs = bytes_of bs' \<union> {unat b..<unat b + unat nb}"
    unfolding bs' using s(1) sp by auto
  have "bytes_of xs \<inter> {unat b..<unat b + unat nb} = {}" using bend_bounds [OF X] a ub by fastforce
  moreover have "bytes_of ys \<inter> {unat b..<unat b + unat nb} = {}"
    using bytes_of_bounds [OF Y] ub le by fastforce
  ultimately show "bytes_of bs' \<inter> {unat b..<unat b + unat nb} = {}" unfolding bs' by auto
  show "total bs = total bs' + unat nb" using s(1,4) u le by (cases "n = nb") auto
  show "8 dvd unat b" using a d ub by simp
  show "lo \<le> unat b" using lo a ub by linarith
  show "unat b + unat nb \<le> hi" using a ub le by linarith
qed

lemma getstk_walk_small:
  "flist m c bs \<Longrightarrow> \<forall>(a, n) \<in> set bs. n < nb \<Longrightarrow>
   getstk_walk m nb c (rd32 m c) f fp = Some (f, fp)"
proof (induction bs arbitrary: c)
  case Nil
  then show ?case by (simp add: getstk_walk.simps)
next
  case (Cons b bs)
  obtain a n where b: "b = (a, n)" by (cases b)
  from Cons.prems b have f: "rd32 m c = a" "a \<noteq> NULL" "rd32 m (a + 4) = n" "flist m a bs" "n < nb"
    by (simp_all add: flist_Cons)
  from Cons.IH [OF f(4)] Cons.prems(2) f b show ?case
    by (subst getstk_walk.simps) auto
qed

lemma getstk_walk_last:
  "flist m c (xs @ (a, n) # ys) \<Longrightarrow> \<forall>(b, k) \<in> set ys. k < nb \<Longrightarrow> nb \<le> n \<Longrightarrow>
   getstk_walk m nb c (rd32 m c) f fp = Some (a, last (c # map fst xs))"
proof (induction xs arbitrary: c f fp)
  case Nil
  then have f: "rd32 m c = a" "a \<noteq> NULL" "rd32 m (a + 4) = n" "flist m a ys" by (simp_all add: flist_Cons)
  from getstk_walk_small [OF f(4) Nil(2)] f Nil(3) show ?case
    by (subst getstk_walk.simps) simp
next
  case (Cons b xs)
  obtain x k where b: "b = (x, k)" by (cases b)
  from Cons.prems b have f: "rd32 m c = x" "x \<noteq> NULL" "flist m x (xs @ (a, n) # ys)"
    by (simp_all add: flist_Cons)
  from Cons.IH [OF f(3) Cons.prems(2,3)] f b show ?case
    by (subst getstk_walk.simps) auto
qed

lemma flist_skip:
  assumes F: "flist m c (xs @ (a, n) # ys)" and ok: "cells_ok (c # map fst (xs @ (a, n) # ys))"
    and p: "p = last (c # map fst xs)"
  shows "flist (wr32 m p (rd32 m a)) c (xs @ ys)" "rd32 (wr32 m p (rd32 m a)) (c + 4) = rd32 m (c + 4)"
proof -
  let ?ns = "c # map fst (xs @ (a, n) # ys)" and ?m' = "wr32 m p (rd32 m a)"
  note C = cells_okD [OF ok]
  have pxs: "p \<in> set (c # map fst xs)" unfolding p by (rule last_in_set) simp
  then have pin: "p \<in> set ?ns" and cin: "c \<in> set ?ns" by auto
  have r: "rd32 ?m' x = (if x = p then rd32 m a else rd32 m x)" if "x \<in> set ?ns" for x
    using C(2) [OF that] C(2) [OF pin] by (simp add: rd32_wr32)
  have r4: "rd32 ?m' (x + 4) = rd32 m (x + 4)" if "x \<in> set ?ns" for x
    using C(3) [OF that] C(2) [OF pin] C(4) [OF pin that] by (simp add: rd32_wr32)
  have py: "p \<notin> set (map fst ys)" using C(1) pxs by auto
  have "flist m a ys" using flist_tail [OF F] by (simp add: flist_Cons)
  then have fy: "flist ?m' p ys"
  proof (rule flist_frame)
    show "rd32 ?m' p = rd32 m a" using r [OF pin] by simp
    fix x assume x: "x \<in> set (map fst ys)"
    then have "x \<in> set ?ns" "x \<noteq> p" using py by auto
    then show "rd32 ?m' x = rd32 m x \<and> rd32 ?m' (x + 4) = rd32 m (x + 4)" using r r4 by simp
  qed
  show "flist ?m' c (xs @ ys)"
  proof (rule flist_relink [OF F])
    fix x assume x: "x \<in> set (butlast (c # map fst xs))"
    have "x \<noteq> p" unfolding p by (rule last_not_in_butlast [OF _ _ x]) (use C(1) in auto)
    moreover have "x \<in> set (c # map fst xs)" by (rule in_set_butlastD [OF x])
    then have "x \<in> set ?ns" by auto
    ultimately show "rd32 ?m' x = rd32 m x" using r by simp
  next
    fix x assume "x \<in> set (map fst xs)"
    then show "rd32 ?m' (x + 4) = rd32 m (x + 4)" by (intro r4) auto
  qed (use fy p in simp)
  show "rd32 ?m' (c + 4) = rd32 m (c + 4)" by (rule r4 [OF cin])
qed

lemma getstk_ok:
  assumes H: "heap_ok s bs" and n: "nbytes \<noteq> 0" "unat nbytes + 7 < 2 ^ 32"
    and A: "alloc_top (roundmb nbytes) bs = Some (b, bs')"
  obtains m' where "getstk nbytes s = Some (b + roundmb nbytes - 4, s\<lparr>mem := m'\<rparr>)"
    "heap_ok (s\<lparr>mem := m'\<rparr>) bs'"
proof -
  let ?nb = "roundmb nbytes" and ?ml = "memlist_at s" and ?m = "mem s"
  note h = heap_okD [OF H]
  note nb = roundmb_ok [OF n]
  from A obtain xs a k ys where s: "bs = xs @ (a, k) # ys" "?nb \<le> k" "\<forall>(c, k) \<in> set ys. k < ?nb"
    "b = a + (k - ?nb)" "bs' = xs @ (if k = ?nb then ys else (a, k - ?nb) # ys)" by (rule alloc_top_split)
  note ab = alloc_top_blocks [OF A h(2) unat_less_2p32 nb]
  have F: "flist ?m ?ml (xs @ (a, k) # ys)" using h(1) s(1) by simp
  have ok: "cells_ok (?ml # map fst (xs @ (a, k) # ys))"
    using blocks_cells [OF h(6,4) unat_less_2p32] s(1) by simp
  obtain p where p: "p = last (?ml # map fst xs)" by blast
  have w: "getstk_walk ?m ?nb ?ml (rd32 ?m ?ml) NULL NULL = Some (a, p)"
    unfolding p by (rule getstk_walk_last [OF F s(3,2)])
  have len: "a \<noteq> NULL" "rd32 ?m (a + 4) = k" using flist_tail [OF F] by (simp_all add: flist_Cons)
  have tot: "unat (rd32 ?m (?ml + 4) - ?nb) = total bs'" using h(3) ab(4) by (simp add: unat_minus_le)
  show ?thesis
  proof (cases "k = ?nb")
    case True
    let ?m1 = "wr32 ?m p (rd32 ?m a)"
    note S = flist_skip [OF F ok p]
    have bs': "bs' = xs @ ys" "b = a" using s(4,5) True by simp_all
    have "cells_ok (?ml # map fst bs')"
      using ok bs' unfolding cells_ok_def by auto
    then have F': "flist (wr32 ?m1 (?ml + 4) (rd32 ?m (?ml + 4) - ?nb)) ?ml bs'"
      using S(1) bs' by (intro flist_total) simp_all
    have e: "getstk nbytes s =
        Some (b + ?nb - 4, s\<lparr>mem := wr32 ?m1 (?ml + 4) (rd32 ?m (?ml + 4) - ?nb)\<rparr>)"
      using n(1) w len True S(2) bs' by (simp add: getstk_def Let_def wrk_mem)
    show ?thesis
      by (rule that [OF e]) (use F' ab(1) h tot in \<open>simp add: heap_ok_def\<close>)
  next
    case False
    let ?m1 = "wr32 ?m (a + 4) (k - ?nb)"
    note S = flist_grow [OF F ok, of "k - ?nb"]
    have bs': "bs' = xs @ (a, k - ?nb) # ys" using s(5) False by simp
    have "cells_ok (?ml # map fst bs')" using ok bs' by simp
    then have F': "flist (wr32 ?m1 (?ml + 4) (rd32 ?m (?ml + 4) - ?nb)) ?ml bs'"
      using S(1) bs' by (intro flist_total) simp_all
    have e: "getstk nbytes s =
        Some (b + ?nb - 4, s\<lparr>mem := wr32 ?m1 (?ml + 4) (rd32 ?m (?ml + 4) - ?nb)\<rparr>)"
      using n(1) w len False S(2) s(4) by (simp add: getstk_def Let_def wrk_mem)
    show ?thesis
      by (rule that [OF e]) (use F' ab(1) h tot in \<open>simp add: heap_ok_def\<close>)
  qed
qed

lemma getstk_none:
  assumes H: "heap_ok s bs" and n: "nbytes \<noteq> 0" and A: "alloc_top (roundmb nbytes) bs = None"
  shows "getstk nbytes s = Some (SYSERR32, s)"
proof -
  have "dropWhile (\<lambda>(a, n). n < roundmb nbytes) (rev bs) = []"
    using A by (auto simp: alloc_top_def Let_def split: list.splits prod.splits)
  then have "\<forall>(a, n) \<in> set bs. n < roundmb nbytes" by (simp add: dropWhile_eq_Nil_conv)
  from getstk_walk_small [OF heap_okD(1) [OF H] this] n show ?thesis
    by (simp add: getstk_def Let_def)
qed

section \<open>Consequences\<close>

text \<open>
  The size is rounded up in 32 bits: a request of the last seven sizes becomes 0, for which
  every block is large enough.
\<close>

lemma roundmb_wraps: "0xFFFFFFF9 \<le> x \<Longrightarrow> roundmb x = 0"
proof -
  assume "0xFFFFFFF9 \<le> x"
  then have g: "4294967289 \<le> unat x" by (simp add: word_le_nat_alt)
  have "unat (7 + x) = (7 + unat x) mod 2 ^ 32" by (simp add: unat_word_ariths)
  also have "\<dots> = unat x + 7 - 2 ^ 32"
    using g unat_lt_2p32 [of x] by (simp add: mod_nat_eqI)
  finally have u: "unat (7 + x) < 8" using unat_lt_2p32 [of x] by simp
  then have "unat (truncmb (7 + x)) = 0" unfolding unat_truncmb by simp
  then show ?thesis by (simp add: roundmb_def truncmb_def unat_eq_0)
qed

text \<open>Heap block and node go and come back: the sixteen bytes of the node are not returned.\<close>

lemma getmem_freemem_total:
  assumes H: "heap_inv s bs h us" and h: "prheaphd (proctab s (currpid s)) = h"
    and n: "nbytes \<noteq> 0" "unat nbytes + 7 < 2 ^ 32" and f: "memblockkflag s \<noteq> 1"
    and A: "alloc (roundmb nbytes) bs = Some (a, bs1)" and D: "alloc 16 bs1 = Some (d, bs2)"
  obtains s1 m' bs' where "getmem nbytes s = Some (a, s1)" "freemem a nbytes s1 = Some (OK, s1\<lparr>mem := m'\<rparr>)"
    "heap_inv (s1\<lparr>mem := m'\<rparr>) bs' h us" "bytes_of bs' = bytes_of bs - {unat d..<unat d + 16}"
    "total bs' + 16 = total bs"
proof -
  obtain m1 where g: "getmem nbytes s = Some (a, s\<lparr>mem := m1, memblockkflag := 0\<rparr>)"
    and i0: "heap_inv (s\<lparr>mem := m1\<rparr>) bs2 h ((d, a, roundmb nbytes) # us)"
    using getmem_inv [OF H h n f A D] by blast
  let ?s1 = "s\<lparr>mem := m1, memblockkflag := 0\<rparr>"
  note B = heap_okD(2) [OF heap_invD(1) [OF H]]
  note r = roundmb_ok [OF n]
  note a = alloc_blocks [OF A B unat_less_2p32 r]
  note d = alloc_blocks [OF D a(1) unat_less_2p32, simplified]
  have i1: "heap_inv ?s1 bs2 h ([] @ (d, a, roundmb nbytes) # us)" using i0 by (simp add: heap_inv_def heap_ok_def)
  have dis: "{unat a..<unat a + unat (roundmb nbytes)} \<inter> (bytes_of bs2 \<union> node_bytes ([] @ us)) = {}"
    using a(2,3) d(2) heap_invD(4) [OF H] by auto
  obtain m' bs' where F: "freemem a nbytes ?s1 = Some (OK, ?s1\<lparr>mem := m'\<rparr>)"
    "heap_inv (?s1\<lparr>mem := m'\<rparr>) bs' h ([] @ us)"
    "bytes_of bs' = bytes_of bs2 \<union> {unat a..<unat a + unat (roundmb nbytes)}"
    "total bs' = total bs2 + unat (roundmb nbytes)"
    using freemem_inv [OF i1 _ _ n a(5) _ _ dis] h a(6,7) by auto
  have "bytes_of bs' = bytes_of bs - {unat d..<unat d + 16}"
    using F(3) a(2,3) d(2,3) by auto
  moreover have "total bs' + 16 = total bs" using F(4) a(4) d(4) by simp
  ultimately show ?thesis using g F(1,2) by (intro that [of ?s1 m' bs']) auto
qed

section \<open>Properties\<close>


text \<open>
  a request no free block can hold returns \<open>SYSERR\<close> and changes nothing.
\<close>

theorem getmem_too_large:
  assumes "heap_ok s bs" "nbytes \<noteq> 0" "alloc (roundmb nbytes) bs = None"
  shows "getmem nbytes s = Some (SYSERR32, s)"
  using getmem_none [OF assms] .

text \<open>
  C13: freeing a block the caller holds puts exactly its bytes back on the free list, joined
  with the neighbours they touch, and strikes it off the caller's list.
\<close>

theorem freemem_returns_block:
  assumes "heap_inv s bs h (xs @ (d, a, n) # ys)" "prheaphd (proctab s (currpid s)) = h"
    "a \<notin> (\<lambda>(d, b, n). b) ` set xs" "nbytes \<noteq> 0" "unat nbytes + 7 < 2 ^ 32" "8 dvd unat a"
    "unat (minheap s) \<le> unat a" "unat a + unat (roundmb nbytes) \<le> unat (maxheap s)"
    "{unat a..<unat a + unat (roundmb nbytes)} \<inter> (bytes_of bs \<union> node_bytes (xs @ ys)) = {}"
  shows "\<exists>m' bs'. freemem a nbytes s = Some (OK, s\<lparr>mem := m'\<rparr>) \<and>
    heap_inv (s\<lparr>mem := m'\<rparr>) bs' h (xs @ ys) \<and>
    bytes_of bs' = bytes_of bs \<union> {unat a..<unat a + unat (roundmb nbytes)} \<and>
    total bs' = total bs + unat (roundmb nbytes)"
  using freemem_inv [OF assms] by metis

text \<open>
  C14: allocating a block and freeing it again gives back the block's bytes, but not the 16
  bytes of the node that recorded it: every such pair loses them.
\<close>

theorem getmem_freemem_loses_node:
  assumes "heap_inv s bs h us" "prheaphd (proctab s (currpid s)) = h"
    "nbytes \<noteq> 0" "unat nbytes + 7 < 2 ^ 32" "memblockkflag s \<noteq> 1"
    "alloc (roundmb nbytes) bs = Some (a, bs1)" "alloc 16 bs1 = Some (d, bs2)"
  shows "\<exists>s1 s2 bs'. getmem nbytes s = Some (a, s1) \<and> freemem a nbytes s1 = Some (OK, s2) \<and>
    heap_inv s2 bs' h us \<and> bytes_of bs' = bytes_of bs - {unat d..<unat d + 16} \<and>
    total bs' + 16 = total bs"
  using getmem_freemem_total [OF assms] by metis

text \<open>
  C15: \<open>getstk\<close> takes the top of the last block that is large enough, so stacks grow from the
  other end of the heap, and returns the address of the highest word of the piece.
\<close>

theorem getstk_last_fit:
  assumes "heap_ok s bs" "nbytes \<noteq> 0" "unat nbytes + 7 < 2 ^ 32"
    "alloc_top (roundmb nbytes) bs = Some (b, bs')"
  shows "\<exists>m'. getstk nbytes s = Some (b + roundmb nbytes - 4, s\<lparr>mem := m'\<rparr>) \<and>
    heap_ok (s\<lparr>mem := m'\<rparr>) bs'"
  using getstk_ok [OF assms] by metis

text \<open>
  C16: no code sets \<open>prheaphd\<close>, so the list header of every process is \<open>NULL\<close> and the list hangs
  off the word at address 8. Freeing a block that is not on a non-empty list turns the list
  into a ring: the next search for a block that is not on it goes round for ever.
\<close>

theorem memextract_unlisted_hangs:
  assumes "heap_inv s bs NULL us" "us \<noteq> []"
    "b \<notin> (\<lambda>(d, b, n). b) ` set us" "b' \<notin> (\<lambda>(d, b, n). b) ` set us"
  shows "\<exists>s'. memextract NULL b s = Some s' \<and> memextract NULL b' s' = None"
  using memextract_missing [OF assms] by metis

text \<open>
  C17: rounding to memory blocks. Short of the last seven sizes, \<open>roundmb\<close> gives the least
  multiple of 8 that is at least the request; those seven wrap around to 0.
\<close>

theorem roundmb_bounds:
  "if unat x + 7 < 2 ^ 32
   then unat x \<le> unat (roundmb x) \<and> unat (roundmb x) < unat x + 8 \<and> 8 dvd unat (roundmb x)
   else roundmb x = 0"
proof (cases "unat x + 7 < 2 ^ 32")
  case True
  then show ?thesis using roundmb_round8 [OF True] round8_ge round8_less by simp
next
  case False
  then have "0xFFFFFFF9 \<le> x" by (simp add: word_le_nat_alt)
  with False show ?thesis using roundmb_wraps by simp
qed

end
