(* ===== verification/Boot.thy ===== *)
theory Boot
  imports Clock Memory
begin

text \<open>
  Start-up of the kernel tables: the loops of \<open>sysinit\<close> in \<^verbatim>\<open>system/initialize.c\<close> that free
  the process table, make the null process current and give every semaphore a queue, then the
  creation of the ready list and of the sleep queue.

  The lemmas show that the tables so built satisfy the kernel invariant whatever they held
  before, and give the concrete kernel states the examples of the development start from.
\<close>

section \<open>Operations\<close>

text \<open>A counted loop over the state: \<open>for (i = 0; i < n; i++)\<close>.\<close>

definition for_range :: "nat \<Rightarrow> (int \<Rightarrow> 's \<Rightarrow> 's) \<Rightarrow> 's \<Rightarrow> 's" where
  "for_range n f s = fold f (map int [0..<n]) s"

lemma for_range_0 [simp]: "for_range 0 f s = s"
  by (simp add: for_range_def)

lemma for_range_Suc: "for_range (Suc n) f s = f (int n) (for_range n f s)"
  by (simp add: for_range_def)

lemma for_range_inv:
  assumes "P 0 s" "\<And>i s. i < n \<Longrightarrow> P i s \<Longrightarrow> P (Suc i) (f (int i) s)"
  shows "P n (for_range n f s)"
  using assms by (induction n) (simp_all add: for_range_Suc)

definition init_proctab :: "'a ks \<Rightarrow> 'a ks" where
  "init_proctab = for_range 100 (\<lambda>i s.
     let s = upd_proc i (\<lambda>p. p\<lparr>prstate := PR_FREE\<rparr>) s;
         s = upd_proc i (\<lambda>p. p\<lparr>prname := (prname p)[0 := 0]\<rparr>) s;
         s = upd_proc i (\<lambda>p. p\<lparr>prstkbase := NULL\<rparr>) s
     in upd_proc i (\<lambda>p. p\<lparr>prprio := 0\<rparr>) s)"

text \<open>\<open>strncpy\<close> into a character array of the process table: what is copied, padded with zeros.\<close>

definition strncpy_arr :: "u8 list \<Rightarrow> u8 list \<Rightarrow> nat \<Rightarrow> u8 list" where
  "strncpy_arr dst src n =
     (let t = takeWhile (\<lambda>c. c \<noteq> 0) (take n src) in t @ replicate (n - length t) 0 @ drop n dst)"

definition init_null :: "'a ks \<Rightarrow> 'a ks option" where
  "init_null s = do {
     let s = upd_proc NULLPROC (\<lambda>p. p\<lparr>prstate := PR_CURR\<rparr>) s;
     let s = upd_proc NULLPROC (\<lambda>p. p\<lparr>prprio := 0\<rparr>) s;
     let s = upd_proc NULLPROC (\<lambda>p. p\<lparr>prname := strncpy_arr (prname p) [112, 114, 110, 117, 108, 108] 7\<rparr>) s;
     (stk, s) \<leftarrow> getstk NULLSTK s;
     let s = upd_proc NULLPROC (\<lambda>p. p\<lparr>prstkbase := stk, prstklen := NULLSTK, prstkptr := 0\<rparr>) s;
     let s = s\<lparr>currpid := NULLPROC\<rparr>;
     Some (upd_proc NULLPROC
       (\<lambda>p. p\<lparr>prcbvalid := 0, prcbptr := NULL, prmbufptr := NULL, prtmpbuf := 0, prtmpvalid := 0\<rparr>) s)
   }"

definition init_semtab :: "'a ks \<Rightarrow> 'a ks" where
  "init_semtab = for_range 100 (\<lambda>i s.
     let s = upd_sem i (\<lambda>e. e\<lparr>sstate := S_FREE\<rparr>) s;
         s = upd_sem i (\<lambda>e. e\<lparr>scount := 0\<rparr>) s;
         (q, s) = newqueue s
     in upd_sem i (\<lambda>e. e\<lparr>squeue := q\<rparr>) s)"

definition init_ready :: "'a ks \<Rightarrow> 'a ks" where
  "init_ready s = (let (q, s) = newqueue s in s\<lparr>readylist := q\<rparr>)"

section \<open>What the loops leave\<close>

lemma init_proctab_free:
  "\<forall>p \<in> {0..<NPROC}. prstate (proctab (init_proctab s) p) = PR_FREE \<and> prprio (proctab (init_proctab s) p) = 0"
proof -
  have "\<forall>p. 0 \<le> p \<and> p < int 100 \<longrightarrow>
      prstate (proctab (init_proctab s) p) = PR_FREE \<and> prprio (proctab (init_proctab s) p) = 0"
    unfolding init_proctab_def
    by (rule for_range_inv [where P = "\<lambda>n s. \<forall>p. 0 \<le> p \<and> p < int n \<longrightarrow>
          prstate (proctab s p) = PR_FREE \<and> prprio (proctab s p) = 0"])
      (auto simp: upd_proc_def Let_def)
  then show ?thesis by simp
qed

lemma for_range_field:
  assumes "\<And>i s. g (f i s) = g s"
  shows "g (for_range n f s) = g s"
  by (rule for_range_inv [where P = "\<lambda>n t. g t = g s"]) (simp_all add: assms)

lemma newqueue_frame [simp]:
  "proctab (snd (newqueue s)) = proctab s" "semtab (snd (newqueue s)) = semtab s"
  "currpid (snd (newqueue s)) = currpid s" "ndefers (snd (newqueue s)) = ndefers s"
  "readylist (snd (newqueue s)) = readylist s" "sleepq (snd (newqueue s)) = sleepq s"
  by (simp_all add: newqueue_def upd_q_def Let_def)

lemma init_semtab_frame [simp]:
  "proctab (init_semtab s) = proctab s" "currpid (init_semtab s) = currpid s"
  "ndefers (init_semtab s) = ndefers s"
  unfolding init_semtab_def
  by (rule for_range_field; simp add: upd_sem_def Let_def split_beta)+

text \<open>Semaphore \<open>i\<close> gets queue \<open>NPROC + 2 i\<close>, and every queue is empty.\<close>

lemma init_semtab_ok:
  assumes "nextqid s = NPROC"
  shows "nextqid (init_semtab s) = NPROC + 200 \<and>
    qrep (queuetab (init_semtab s)) (NPROC + 200) (\<lambda>_. []) \<and>
    (\<forall>i \<in> {0..<NSEM}. sstate (semtab (init_semtab s) i) = S_FREE \<and> scount (semtab (init_semtab s) i) = 0 \<and>
       squeue (semtab (init_semtab s) i) = NPROC + 2 * i)"
proof -
  let ?P = "\<lambda>n s. nextqid s = NPROC + 2 * int n \<and> qrep (queuetab s) (nextqid s) (\<lambda>_. []) \<and>
    (\<forall>i \<in> {0..<int n}. sstate (semtab s i) = S_FREE \<and> scount (semtab s i) = 0 \<and>
       squeue (semtab s i) = NPROC + 2 * i)"
  have "?P 100 (init_semtab s)"
    unfolding init_semtab_def
  proof (rule for_range_inv [where P = ?P])
    show "?P 0 s" using assms by (auto simp: qrep_def qids_def)
  next
    fix i and s :: "'a ks" assume i: "i < 100" and P: "?P i s"
    let ?s = "upd_sem (int i) (\<lambda>e. e\<lparr>scount := 0\<rparr>) (upd_sem (int i) (\<lambda>e. e\<lparr>sstate := S_FREE\<rparr>) s)"
    have R: "qrep (queuetab ?s) (nextqid ?s) (\<lambda>_. [])" "nextqid ?s < NQENT"
    proof -
      have "qrep (queuetab s) (nextqid s) (\<lambda>_. [])" using P by (elim conjE)
      then show "qrep (queuetab ?s) (nextqid ?s) (\<lambda>_. [])" by (simp add: upd_sem_def)
      show "nextqid ?s < NQENT" using P i by (simp add: upd_sem_def)
    qed
    obtain qt where q: "newqueue ?s = (nextqid ?s, ?s\<lparr>queuetab := qt, nextqid := nextqid ?s + 2\<rparr>)"
      "qrep qt (nextqid ?s + 2) ((\<lambda>_. [])(nextqid ?s := []))"
      using newqueue_qrep [OF R] by blast
    have q2: "qrep qt (nextqid s + 2) (\<lambda>_. [])" using q(2) by (simp add: upd_sem_def fun_upd_idem)
    show "?P (Suc i) (let s = upd_sem (int i) (\<lambda>e. e\<lparr>sstate := S_FREE\<rparr>) s;
         s = upd_sem (int i) (\<lambda>e. e\<lparr>scount := 0\<rparr>) s; (q, s) = newqueue s
       in upd_sem (int i) (\<lambda>e. e\<lparr>squeue := q\<rparr>) s)"
      using P q(1) q2 by (auto simp: Let_def upd_sem_def)
  qed
  then have P: "?P 100 (init_semtab s)" .
  then have n: "nextqid (init_semtab s) = NPROC + 200" by simp
  from P have "qrep (queuetab (init_semtab s)) (nextqid (init_semtab s)) (\<lambda>_. [])" by (elim conjE)
  with n P show ?thesis by simp
qed

section \<open>The tables satisfy the kernel invariant\<close>

definition boot_tables :: "'a ks \<Rightarrow> 'a ks" where
  "boot_tables s = clkinit (init_ready (init_semtab s))"

lemma qrep_empty_upd: "(\<lambda>_. [])(q := []) = (\<lambda>_. [])"
  by (simp add: fun_upd_idem)

lemma boot_tables_ok:
  assumes "nextqid s = NPROC"
  shows "nextqid (boot_tables s) = NQENT \<and> qrep (queuetab (boot_tables s)) NQENT (\<lambda>_. []) \<and>
    readylist (boot_tables s) = 300 \<and> sleepq (boot_tables s) = 302 \<and>
    semtab (boot_tables s) = semtab (init_semtab s) \<and>
    proctab (boot_tables s) = proctab s \<and> currpid (boot_tables s) = currpid s \<and>
    ndefers (boot_tables s) = ndefers s"
proof -
  let ?s1 = "init_semtab s"
  note i = init_semtab_ok [OF assms]
  obtain qt where q: "newqueue ?s1 = (300, ?s1\<lparr>queuetab := qt, nextqid := 302\<rparr>)" "qrep qt 302 (\<lambda>_. [])"
    using newqueue_qrep [of ?s1 "\<lambda>_. []"] i by (auto simp: qrep_empty_upd)
  let ?s2 = "?s1\<lparr>queuetab := qt, nextqid := 302, readylist := 300\<rparr>"
  have s2: "init_ready ?s1 = ?s2" using q(1) by (simp add: init_ready_def)
  obtain qt' where q': "newqueue ?s2 = (302, ?s2\<lparr>queuetab := qt', nextqid := 304\<rparr>)" "qrep qt' 304 (\<lambda>_. [])"
    using newqueue_qrep [of ?s2 "\<lambda>_. []"] q(2) by (auto simp: qrep_empty_upd)
  show ?thesis using q' i by (simp add: boot_tables_def s2 clkinit_def)
qed

lemma boot_tables_running:
  assumes s: "nextqid s = NPROC" "currpid s = NULLPROC" "ndefers s = 0"
    and c: "prstate (proctab s NULLPROC) = PR_CURR"
    and f: "\<forall>p \<in> {0..<NPROC} - {NULLPROC}. unqueued (prstate (proctab s p)) \<and> prstate (proctab s p) \<noteq> PR_CURR"
    and k: "\<forall>p \<in> {0..<NPROC}. MINKEY < prprio (proctab s p)"
  shows "running (boot_tables s) (\<lambda>_. [])"
proof -
  let ?b = "boot_tables s"
  note b = boot_tables_ok [OF s(1)] and i = init_semtab_ok [OF s(1)]
  have wi: "wiring ?b"
    using b i by (auto simp: wiring_def kqueues_def qids_def inj_on_def)
  have nb: "\<not> belongs ?b (proctab ?b p) q" if "p \<in> {0..<NPROC}" for p q
  proof (cases "p = NULLPROC")
    case True
    then show ?thesis using b c by (simp add: belongs_def)
  next
    case False
    then show ?thesis using b f that by (intro unqueued_belongs) auto
  qed
  have nw: "prstate (proctab s p) \<noteq> PR_WAIT" if "p \<in> {0..<NPROC}" for p
    using f c that by (cases "p = NULLPROC") (auto simp: unqueued_def)
  have cp: "p = NULLPROC" if "p \<in> {0..<NPROC}" "prstate (proctab s p) = PR_CURR" for p
    using f that by blast
  have "kbase {} ?b (\<lambda>_. [])"
    unfolding kbase_def using b wi nb c k s nw cp by (simp add: key_order_def)
  moreover have "sem_ok ?b (\<lambda>_. [])" using b i by (simp add: sem_ok_def)
  ultimately show ?thesis using b c s by (simp add: running_def)
qed

end
