(* ===== verification/Messages.thy ===== *)
theory Messages
  imports Clock
begin

text \<open>
  Message passing and callbacks: \<^verbatim>\<open>system/send.c\<close>, \<^verbatim>\<open>mysend.c\<close>, \<^verbatim>\<open>receive.c\<close>, \<^verbatim>\<open>recvclr.c\<close>,
  \<^verbatim>\<open>recvtime.c\<close>, \<^verbatim>\<open>cbregister.c\<close>, \<^verbatim>\<open>cbunregister.c\<close>, \<^verbatim>\<open>userbuf.c\<close>, \<^verbatim>\<open>usercb.c\<close>. A sent message goes to
  the temporary buffer of the receiver; if the receiver sleeps, the return address of its
  third stack frame is replaced by an address in its callback. The search for the frame walks
  down the stack in memory and is partial: \<open>None\<close> when it never finds a saved base pointer.

  The lemmas show that all of these keep the kernel invariant, what \<open>send\<close> changes, and that
  nothing in this version of the kernel delivers a message to \<open>receive\<close>.
\<close>

section \<open>Operations\<close>

partial_function (option) frame_walk :: "bytes \<Rightarrow> u32 \<Rightarrow> addr \<Rightarrow> addr option" where
  "frame_walk m prevbase a = (if rd32 m a = prevbase then Some a else frame_walk m prevbase (a - 4))"

text \<open>The outer loop: \<open>stkframes\<close> frames, each found from the one before.\<close>

fun find_frames :: "nat \<Rightarrow> bytes \<Rightarrow> addr \<Rightarrow> u32 \<Rightarrow> addr option" where
  "find_frames 0 m retaddr prevbase = Some retaddr"
| "find_frames (Suc n) m retaddr prevbase = do {
     retaddr \<leftarrow> frame_walk m prevbase retaddr;
     find_frames n m retaddr retaddr
   }"

definition send :: "int \<Rightarrow> u32 \<Rightarrow> 'a ks \<Rightarrow> (int \<times> 'a ks) option" where
  "send pid msg s =
     (if isbadpid pid s then Some (SYSERR, s)
      else if prcbvalid (proctab s pid) = 1 \<and> prtmpvalid (proctab s pid) = 1 then Some (SYSERR, s)
      else
        let s = upd_proc pid (\<lambda>p. p\<lparr>prtmpvalid := 1\<rparr>) s;
            s = upd_proc pid (\<lambda>p. p\<lparr>prtmpbuf := msg\<rparr>) s
        in if prstate (proctab s pid) = PR_SLEEP then do {
             let base = prstkbase (proctab s pid);
             retaddr \<leftarrow> find_frames 3 (mem s) base base;
             Some (OK, wrk (retaddr + 4) (prcbptr (proctab s pid) + 3) s)
           }
           else Some (OK, s))"

text \<open>The body of \<open>mysend\<close> is the same.\<close>

definition mysend :: "int \<Rightarrow> u32 \<Rightarrow> 'a ks \<Rightarrow> (int \<times> 'a ks) option" where
  "mysend pid msg s =
     (if isbadpid pid s then Some (SYSERR, s)
      else if prcbvalid (proctab s pid) = 1 \<and> prtmpvalid (proctab s pid) = 1 then Some (SYSERR, s)
      else
        let s = upd_proc pid (\<lambda>p. p\<lparr>prtmpvalid := 1\<rparr>) s;
            s = upd_proc pid (\<lambda>p. p\<lparr>prtmpbuf := msg\<rparr>) s
        in if prstate (proctab s pid) = PR_SLEEP then do {
             let base = prstkbase (proctab s pid);
             retaddr \<leftarrow> find_frames 3 (mem s) base base;
             Some (OK, wrk (retaddr + 4) (prcbptr (proctab s pid) + 3) s)
           }
           else Some (OK, s))"

text \<open>
  \<open>receive\<close> and \<open>recvtime\<close> may block. \<open>receive_end\<close> and \<open>recvtime_end\<close> are what they do when
  the process runs again (at once when rescheduling is deferred); \<open>Blocked\<close> stands for a call
  that is waiting for that.
\<close>

definition receive_end :: "'a ks \<Rightarrow> u32 \<times> 'a ks" where
  "receive_end s =
     (prmsg (proctab s (currpid s)), upd_proc (currpid s) (\<lambda>p. p\<lparr>prhasmsg := 0\<rparr>) s)"

definition receive :: "'a ks \<Rightarrow> (u32 ctl \<times> 'a ks) option" where
  "receive s =
     (if prhasmsg (proctab s (currpid s)) = 0 then do {
        let cur = currpid s;
        s \<leftarrow> resched (upd_proc (currpid s) (\<lambda>p. p\<lparr>prstate := PR_RECV\<rparr>) s);
        if currpid s = cur then case receive_end s of (msg, s) \<Rightarrow> Some (Ret msg, s)
        else Some (Blocked, s)
      }
      else case receive_end s of (msg, s) \<Rightarrow> Some (Ret msg, s))"

definition recvclr :: "'a ks \<Rightarrow> u32 \<times> 'a ks" where
  "recvclr s =
     (if prhasmsg (proctab s (currpid s)) = 1
      then (prmsg (proctab s (currpid s)), upd_proc (currpid s) (\<lambda>p. p\<lparr>prhasmsg := 0\<rparr>) s)
      else (OK32, s))"

definition recvtime_end :: "'a ks \<Rightarrow> u32 \<times> 'a ks" where
  "recvtime_end s =
     (if prhasmsg (proctab s (currpid s)) \<noteq> 0
      then (prmsg (proctab s (currpid s)), upd_proc (currpid s) (\<lambda>p. p\<lparr>prhasmsg := 0\<rparr>) s)
      else (TIMEOUT32, s))"

definition recvtime :: "int \<Rightarrow> 'a ks \<Rightarrow> (u32 ctl \<times> 'a ks) option" where
  "recvtime maxwait s =
     (if maxwait < 0 then Some (Ret SYSERR32, s)
      else if prhasmsg (proctab s (currpid s)) = 0 then do {
        (r, s) \<leftarrow> insertd (currpid s) (sleepq s) maxwait s;
        if r = SYSERR then Some (Ret SYSERR32, s)
        else do {
          let cur = currpid s;
          s \<leftarrow> resched (upd_proc (currpid s) (\<lambda>p. p\<lparr>prstate := PR_RECTIM\<rparr>) s);
          if currpid s = cur then case recvtime_end s of (msg, s) \<Rightarrow> Some (Ret msg, s)
          else Some (Blocked, s)
        }
      }
      else case recvtime_end s of (msg, s) \<Rightarrow> Some (Ret msg, s))"

definition cbregister :: "addr \<Rightarrow> addr \<Rightarrow> 'a ks \<Rightarrow> int \<times> 'a ks" where
  "cbregister fp mbufptr s =
     (if prcbvalid (proctab s (currpid s)) = 1 then (SYSERR, s)
      else if fp < text_seg s \<or> fp > etext_seg s then (SYSERR, s)
      else if mbufptr > text_seg s \<and> mbufptr < etext_seg s then (SYSERR, s)
      else
        let s = upd_proc (currpid s) (\<lambda>p. p\<lparr>prcbptr := fp\<rparr>) s;
            s = upd_proc (currpid s) (\<lambda>p. p\<lparr>prmbufptr := mbufptr\<rparr>) s
        in (OK, upd_proc (currpid s) (\<lambda>p. p\<lparr>prcbvalid := 1\<rparr>) s))"

definition cbunregister :: "'a ks \<Rightarrow> int \<times> 'a ks" where
  "cbunregister s =
     (if prcbvalid (proctab s (currpid s)) = 0 then (SYSERR, s)
      else (OK, upd_proc (currpid s) (\<lambda>p. p\<lparr>prcbvalid := 0\<rparr>) s))"

text \<open>
  \<open>prtmpvalid == 0\<close> is a comparison: the flag stays set. The message goes into the pointer
  \<open>prmbufptr\<close> itself, not into the word it points to.
\<close>

definition userbuf :: "'a ks \<Rightarrow> 'a ks" where
  "userbuf s =
     (if prtmpvalid (proctab s (currpid s)) = 1
      then upd_proc (currpid s) (\<lambda>p. p\<lparr>prmbufptr := prtmpbuf p\<rparr>) s
      else s)"

definition usercb :: "'a ks \<Rightarrow> 'a ks" where
  "usercb s =
     (if prtmpvalid (proctab s (currpid s)) = 1
      then upd_proc (currpid s) (\<lambda>p. p\<lparr>prmbufptr := prtmpbuf p\<rparr>) s
      else s)"

section \<open>Changing fields the scheduler does not read\<close>

definition sched_fields_kept :: "(procent \<Rightarrow> procent) \<Rightarrow> bool" where
  "sched_fields_kept f \<longleftrightarrow> (\<forall>e. prstate (f e) = prstate e \<and> prprio (f e) = prprio e \<and> prsem (f e) = prsem e)"

lemma kbase_upd_proc:
  assumes f: "sched_fields_kept f"
  shows "kbase X (upd_proc p f s) Q = kbase X s Q"
proof -
  have e: "prstate (proctab (upd_proc p f s) x) = prstate (proctab s x)"
    "prprio (proctab (upd_proc p f s) x) = prprio (proctab s x)"
    "prsem (proctab (upd_proc p f s) x) = prsem (proctab s x)" for x
    using f by (auto simp: sched_fields_kept_def upd_proc_def)
  have b: "belongs (upd_proc p f s) (proctab (upd_proc p f s) x) q = belongs s (proctab s x) q" for x q
    unfolding belongs_def e by (simp add: upd_proc_def split: prstate.split)
  have w: "wiring (upd_proc p f s) = wiring s" by (rule wiring_cong) (simp_all add: upd_proc_def)
  show ?thesis unfolding kbase_def b w e by (simp add: upd_proc_def)
qed

lemma kinv_upd_proc:
  assumes f: "sched_fields_kept f"
  shows "kinv (upd_proc p f s) = kinv s"
proof -
  have e: "prstate (proctab (upd_proc p f s) x) = prstate (proctab s x)" for x
    using f by (auto simp: sched_fields_kept_def upd_proc_def)
  show ?thesis
    unfolding kinv_def running_def sem_ok_def e kbase_upd_proc [OF f] by simp
qed

lemma kinv_wrk [simp]: "kinv (wrk a v s) = kinv s"
  by (simp add: kinv_def running_def wrk_def sem_ok_def)

lemma kept_message_fields [simp, intro]:
  "sched_fields_kept (\<lambda>p. p\<lparr>prtmpvalid := v\<rparr>)" "sched_fields_kept (\<lambda>p. p\<lparr>prtmpbuf := m\<rparr>)"
  "sched_fields_kept (\<lambda>p. p\<lparr>prhasmsg := v\<rparr>)" "sched_fields_kept (\<lambda>p. p\<lparr>prcbptr := a\<rparr>)"
  "sched_fields_kept (\<lambda>p. p\<lparr>prmbufptr := a\<rparr>)" "sched_fields_kept (\<lambda>p. p\<lparr>prcbvalid := v\<rparr>)"
  "sched_fields_kept (\<lambda>p. p\<lparr>prmbufptr := prtmpbuf p\<rparr>)"
  by (simp_all add: sched_fields_kept_def)

lemmas kinv_fields [simp] = kept_message_fields [THEN kinv_upd_proc]

section \<open>Sending\<close>

text \<open>A saved frame pointer: the first word at or below \<open>a\<close> that holds \<open>v\<close>.\<close>

lemma frame_walk_found:
  assumes "\<forall>i < k. rd32 m (a - 4 * word_of_nat i) \<noteq> v" "rd32 m (a - 4 * word_of_nat k) = v"
  shows "frame_walk m v a = Some (a - 4 * word_of_nat k)"
  using assms
proof (induction k arbitrary: a)
  case 0
  then show ?case by (subst frame_walk.simps) simp
next
  case (Suc k)
  have s: "a - 4 - 4 * word_of_nat i = a - 4 * word_of_nat (Suc i)" for i
    by (simp add: algebra_simps)
  have "rd32 m a \<noteq> v" using Suc.prems(1) [rule_format, of 0] by simp
  moreover have "frame_walk m v (a - 4) = Some (a - 4 - 4 * word_of_nat k)"
  proof (rule Suc.IH)
    show "\<forall>i < k. rd32 m (a - 4 - 4 * word_of_nat i) \<noteq> v"
      using Suc.prems(1) unfolding s by blast
    show "rd32 m (a - 4 - 4 * word_of_nat k) = v" using Suc.prems(2) unfolding s .
  qed
  ultimately show ?case unfolding s by (subst frame_walk.simps) simp
qed

definition frame_at :: "bytes \<Rightarrow> addr \<Rightarrow> u32 \<Rightarrow> addr \<Rightarrow> bool" where
  "frame_at m a v r \<longleftrightarrow> (\<exists>k. r = a - 4 * word_of_nat k \<and> rd32 m r = v \<and>
     (\<forall>i < k. rd32 m (a - 4 * word_of_nat i) \<noteq> v))"

lemma frame_walk_at: "frame_at m a v r \<Longrightarrow> frame_walk m v a = Some r"
  unfolding frame_at_def using frame_walk_found by blast

lemma find_frames_3:
  "frame_at m b b f1 \<Longrightarrow> frame_at m f1 f1 f2 \<Longrightarrow> frame_at m f2 f2 f3 \<Longrightarrow> find_frames 3 m b b = Some f3"
  by (simp add: numeral_3_eq_3 frame_walk_at)

text \<open>What \<open>send\<close> does to a receiver that does not sleep, and that it leaves everybody's state alone.\<close>

lemma send_cases:
  assumes "send pid msg s = Some (r, s')"
  shows "(r = SYSERR \<and> s' = s) \<or>
    (r = OK \<and> (\<exists>m. s' = (upd_proc pid (\<lambda>p. p\<lparr>prtmpbuf := msg\<rparr>) (upd_proc pid (\<lambda>p. p\<lparr>prtmpvalid := 1\<rparr>) s))\<lparr>mem := m\<rparr> \<and>
       (prstate (proctab s pid) \<noteq> PR_SLEEP \<longrightarrow> m = mem s)))"
proof (cases "isbadpid pid s \<or> prcbvalid (proctab s pid) = 1 \<and> prtmpvalid (proctab s pid) = 1")
  case True
  then have "send pid msg s = Some (SYSERR, s)" by (cases "isbadpid pid s") (simp_all add: send_def)
  then show ?thesis using assms by simp
next
  case False
  let ?s = "upd_proc pid (\<lambda>p. p\<lparr>prtmpbuf := msg\<rparr>) (upd_proc pid (\<lambda>p. p\<lparr>prtmpvalid := 1\<rparr>) s)"
  show ?thesis
  proof (cases "prstate (proctab s pid) = PR_SLEEP")
    case True
    then obtain a where "find_frames 3 (mem ?s) (prstkbase (proctab ?s pid)) (prstkbase (proctab ?s pid)) = Some a"
      "r = OK" "s' = wrk (a + 4) (prcbptr (proctab ?s pid) + 3) ?s"
      using assms False by (auto simp: send_def Let_def split: Option.bind_splits)
    then show ?thesis using True by (auto simp: wrk_def)
  next
    case f: False
    then have "r = OK" "s' = ?s" using assms False by (auto simp: send_def Let_def)
    then show ?thesis using f by (intro disjI2 conjI exI [of _ "mem s"]) (simp_all add: upd_proc_def)
  qed
qed

lemma send_kinv:
  assumes "kinv s" "send pid msg s = Some (r, s')"
  shows "kinv s'"
proof -
  have "kinv (t\<lparr>mem := m\<rparr>) = kinv t" for t :: "'a ks" and m
    by (simp add: kinv_def running_def sem_ok_def)
  then show ?thesis using send_cases [OF assms(2)] assms(1) by auto
qed

lemma mysend_send: "mysend = send"
  by (intro ext) (simp only: mysend_def send_def)

section \<open>Receiving\<close>

text \<open>The current process blocks in a state that is on no queue.\<close>

lemma block_current:
  assumes R: "running s Q" and nz: "currpid s \<noteq> NULLPROC" and u: "unqueued st" "st \<noteq> PR_CURR"
  obtains s' Q' where "resched (upd_proc (currpid s) (\<lambda>p. p\<lparr>prstate := st\<rparr>) s) = Some s'"
    "running s' Q'" "prstate (proctab s' (currpid s)) = st" "currpid s' \<noteq> currpid s"
    "\<forall>p. proctab s' p = (proctab s p)\<lparr>prstate := prstate (proctab s' p)\<rparr>"
proof -
  let ?c = "currpid s" and ?f = "\<lambda>p. p\<lparr>prstate := st\<rparr>"
  note r = runningD [OF R]
  note D = kbaseD [OF r(1)]
  have uc: "?c \<in> {} \<or> unqueued (prstate (proctab s ?c))" using r(3) by simp
  have "kbase ({} - {?c}) (upd_proc ?c ?f s) Q"
    by (rule kbase_set_proc [OF r(1) D(5) nz uc]) (use u D(8) [OF D(5)] in simp_all)
  then have K: "kbase {} (upd_proc ?c ?f s) Q" by simp
  have so: "sem_ok (upd_proc ?c ?f s) Q" using r(2) by (simp add: sem_ok_def)
  obtain s' Q' where e: "resched (upd_proc ?c ?f s) = Some s'" "kbase {} s' Q'"
    "sched_frame (upd_proc ?c ?f s) Q s' Q'"
    "\<not> ndefers (upd_proc ?c ?f s) > 0 \<longrightarrow> prstate (proctab s' (currpid s')) = PR_CURR"
    using resched_ok [OF K] by blast
  note f = sched_ops_frame [OF e(3)]
  have cu: "prstate (proctab s' (currpid s')) = PR_CURR" using e(4) r(4) by simp
  have run: "running s' Q'"
    using e(2) cu sem_ok_frame [OF so kbaseD(2) [OF K] f] ops_frameD(5) [OF f] r(4)
    by (simp add: running_def)
  have "prstate (proctab s' ?c) = st"
  proof -
    have "prstate (proctab (upd_proc ?c ?f s) ?c) = st" by simp
    moreover have "st \<noteq> PR_READY" using u(1) by (auto simp: unqueued_def)
    ultimately show ?thesis using sched_frame_state [OF e(3), of ?c] u(2) by auto
  qed
  moreover have "proctab s' p = (proctab s p)\<lparr>prstate := prstate (proctab s' p)\<rparr>" for p
  proof -
    have "proctab s' p = (proctab (upd_proc ?c ?f s) p)\<lparr>prstate := prstate (proctab s' p)\<rparr>"
      using f unfolding ops_frame_def by blast
    then show ?thesis by (cases "p = ?c") (simp_all add: upd_proc_def)
  qed
  ultimately show ?thesis using cu u(2) by (intro that [OF e(1) run]) auto
qed

lemma receive_ends_kinv [simp]:
  "kinv (snd (receive_end s)) = kinv s" "kinv (snd (recvtime_end s)) = kinv s"
  by (simp_all add: receive_end_def recvtime_end_def)

lemma receive_kinv:
  assumes I: "kinv s" and nz: "currpid s \<noteq> NULLPROC"
  shows "\<exists>r s'. receive s = Some (r, s') \<and> kinv s'"
proof (cases "prhasmsg (proctab s (currpid s)) = 0")
  case True
  obtain s' Q' where "resched (upd_proc (currpid s) (\<lambda>p. p\<lparr>prstate := PR_RECV\<rparr>) s) = Some s'" "running s' Q'"
    by (rule block_current [OF kinv_running [OF I] nz, of PR_RECV]) simp_all
  then show ?thesis using True running_kinv by (auto simp: receive_def split_beta)
next
  case False
  then show ?thesis using I by (simp add: receive_def receive_end_def)
qed

lemma recvtime_kinv:
  assumes I: "kinv s" and nz: "currpid s \<noteq> NULLPROC"
  shows "\<exists>r s'. recvtime maxwait s = Some (r, s') \<and> kinv s'"
proof -
  consider "maxwait < 0" | "0 \<le> maxwait" "prhasmsg (proctab s (currpid s)) = 0"
    | "0 \<le> maxwait" "prhasmsg (proctab s (currpid s)) \<noteq> 0" by linarith
  then show ?thesis
  proof cases
    case 2
    have st: "PR_RECTIM = PR_SLEEP \<or> PR_RECTIM = PR_RECTIM" by simp
    obtain qt s' Q' where g: "insertd (currpid s) (sleepq s) maxwait s = Some (OK, s\<lparr>queuetab := qt\<rparr>)"
      "resched (upd_proc (currpid s) (\<lambda>p. p\<lparr>prstate := PR_RECTIM\<rparr>) (s\<lparr>queuetab := qt\<rparr>)) = Some s'"
      "running s' Q'"
      by (rule go_to_sleep [OF kinv_running [OF I] nz 2(1) st])
    then show ?thesis using 2 running_kinv [OF g(3)] by (simp add: recvtime_def split_beta)
  qed (use I in \<open>simp_all add: recvtime_def recvtime_end_def\<close>)
qed

lemma callback_kinv:
  "kinv s \<Longrightarrow> kinv (snd (cbregister fp buf s))" "kinv s \<Longrightarrow> kinv (snd (cbunregister s))"
  "kinv s \<Longrightarrow> kinv (userbuf s)" "kinv s \<Longrightarrow> kinv (usercb s)" "kinv s \<Longrightarrow> kinv (snd (recvclr s))"
  by (simp_all add: cbregister_def cbunregister_def userbuf_def usercb_def recvclr_def Let_def)

section \<open>Properties\<close>

text \<open>
  C19: sending wakes nobody and delivers nothing to \<open>receive\<close>: whatever the outcome, every
  process keeps its state, its message and its message flag, and the queues are untouched.
\<close>

theorem send_wakes_nobody:
  assumes "send pid msg s = Some (r, s')"
  shows "queuetab s' = queuetab s \<and> currpid s' = currpid s \<and>
    (\<forall>p. prstate (proctab s' p) = prstate (proctab s p) \<and> prhasmsg (proctab s' p) = prhasmsg (proctab s p) \<and>
       prmsg (proctab s' p) = prmsg (proctab s p))"
  using send_cases [OF assms] by (auto simp: upd_proc_def)

text \<open>
  C18: a message to a sleeping process whose stack holds three linked frames replaces the
  return address of the third: the one word above the saved base pointer becomes the callback
  address plus 3, and only the message buffer of the receiver changes otherwise.
\<close>

theorem send_redirects_sleeper:
  assumes "\<not> isbadpid pid s" "prtmpvalid (proctab s pid) = 0" "prstate (proctab s pid) = PR_SLEEP"
    "frame_at (mem s) (prstkbase (proctab s pid)) (prstkbase (proctab s pid)) f1"
    "frame_at (mem s) f1 f1 f2" "frame_at (mem s) f2 f2 f3"
  shows "send pid msg s = Some (OK, s\<lparr>mem := wr32 (mem s) (f3 + 4) (prcbptr (proctab s pid) + 3),
    proctab := (proctab s)(pid := (proctab s pid)\<lparr>prtmpvalid := 1, prtmpbuf := msg\<rparr>)\<rparr>)"
proof -
  let ?s = "upd_proc pid (\<lambda>p. p\<lparr>prtmpbuf := msg\<rparr>) (upd_proc pid (\<lambda>p. p\<lparr>prtmpvalid := 1\<rparr>) s)"
  have "mem ?s = mem s" "prstkbase (proctab ?s pid) = prstkbase (proctab s pid)"
    "prcbptr (proctab ?s pid) = prcbptr (proctab s pid)" "prstate (proctab ?s pid) = PR_SLEEP"
    using assms(3) by (simp_all add: upd_proc_def)
  moreover have "find_frames 3 (mem s) (prstkbase (proctab s pid)) (prstkbase (proctab s pid)) = Some f3"
    using find_frames_3 assms(4-6) by blast
  ultimately have "send pid msg s = Some (OK, wrk (f3 + 4) (prcbptr (proctab s pid) + 3) ?s)"
    using assms(1,2) by (simp add: send_def Let_def)
  then show ?thesis by (simp add: wrk_def upd_proc_def)
qed

text \<open>
  C21: running the callback of a process that was sent a message overwrites its pointer to the
  message buffer with the message, writes nothing to the buffer in memory, and does not free
  the temporary buffer: every later message to the process is refused.
\<close>

theorem usercb_keeps_buffer_full:
  assumes "\<not> isbadpid (currpid s) s" "prcbvalid (proctab s (currpid s)) = 1" "prtmpvalid (proctab s (currpid s)) = 1"
  shows "mem (usercb s) = mem s \<and>
    prmbufptr (proctab (usercb s) (currpid s)) = prtmpbuf (proctab s (currpid s)) \<and>
    send (currpid s) msg (usercb s) = Some (SYSERR, usercb s)"
  using assms by (simp add: usercb_def send_def isbadpid_def)

text \<open>
  a callback is registered exactly when none is, the function lies in the text segment
  (its end included) and the buffer does not lie strictly inside it; otherwise the call returns
  \<open>SYSERR\<close> and changes nothing. A registered callback can be removed once.
\<close>

theorem cbregister_outcome:
  "(if prcbvalid (proctab s (currpid s)) \<noteq> 1 \<and> text_seg s \<le> fp \<and> fp \<le> etext_seg s \<and>
       (buf \<le> text_seg s \<or> etext_seg s \<le> buf)
    then fst (cbregister fp buf s) = OK \<and>
      proctab (snd (cbregister fp buf s)) = (proctab s)(currpid s :=
        (proctab s (currpid s))\<lparr>prcbvalid := 1, prcbptr := fp, prmbufptr := buf\<rparr>) \<and>
      fst (cbunregister (snd (cbregister fp buf s))) = OK \<and>
      fst (cbunregister (snd (cbunregister (snd (cbregister fp buf s))))) = SYSERR
    else cbregister fp buf s = (SYSERR, s))"
proof (cases "prcbvalid (proctab s (currpid s)) \<noteq> 1 \<and> text_seg s \<le> fp \<and> fp \<le> etext_seg s \<and>
       (buf \<le> text_seg s \<or> etext_seg s \<le> buf)")
  case True
  then show ?thesis
    by (auto simp: cbregister_def cbunregister_def Let_def upd_proc_def not_less)
next
  case False
  then show ?thesis by (auto simp: cbregister_def not_le not_less)
qed

text \<open>
  C20: \<open>receive\<close> returns a waiting message at once and clears the flag; without one it blocks
  the caller and another process gets the CPU.
\<close>

theorem receive_returns_or_blocks:
  assumes "kinv s" "currpid s \<noteq> NULLPROC"
  shows "if prhasmsg (proctab s (currpid s)) \<noteq> 0
    then \<exists>s'. receive s = Some (Ret (prmsg (proctab s (currpid s))), s') \<and> kinv s' \<and>
      prhasmsg (proctab s' (currpid s)) = 0
    else \<exists>s'. receive s = Some (Blocked, s') \<and> kinv s' \<and> currpid s' \<noteq> currpid s \<and>
      prstate (proctab s' (currpid s)) = PR_RECV"
proof (cases "prhasmsg (proctab s (currpid s)) = 0")
  case True
  obtain s' Q' where e: "resched (upd_proc (currpid s) (\<lambda>p. p\<lparr>prstate := PR_RECV\<rparr>) s) = Some s'"
    "running s' Q'" "prstate (proctab s' (currpid s)) = PR_RECV" "currpid s' \<noteq> currpid s"
    by (rule block_current [OF kinv_running [OF assms(1)] assms(2), of PR_RECV]) simp_all
  have "receive s = Some (Blocked, s')" using True e(1,4) by (simp add: receive_def)
  with True e(3,4) running_kinv [OF e(2)] show ?thesis by auto
next
  case False
  then show ?thesis using assms(1) by (simp add: receive_def receive_end_def)
qed

end
