(* ===== verification/Strings.thy ===== *)
theory Strings
  imports Xinu_Base
begin

text \<open>
  The string library of \<^verbatim>\<open>lib/\<close>: \<open>strlen\<close>, \<open>strnlen\<close>, \<open>strcmp\<close>, \<open>strncmp\<close>, \<open>memcmp\<close>,
  \<open>strchr\<close>, \<open>strrchr\<close>, \<open>strstr\<close>, \<open>strcpy\<close>, \<open>strncpy\<close>, \<open>strncat\<close>, \<open>memcpy\<close>, \<open>memset\<close>, \<open>bzero\<close>,
  \<open>atoi\<close>, \<open>atol\<close>, \<open>abs\<close>, \<open>labs\<close>, \<open>rand_r\<close>. A pointer is an address in the byte memory, a \<open>char\<close>
  is signed where it is compared. Loops that stop at a NUL are partial: \<open>None\<close> when memory holds
  none. An \<open>int\<close> that counts bytes is a mathematical integer; no count exceeds \<open>2\<^sup>3\<^sup>2\<close>.

  \<open>cstr m p xs\<close> says that the string \<open>xs\<close> is stored at \<open>p\<close>; the lemmas give the result of each
  function on stored strings, and the bytes the writing functions change.
\<close>

section \<open>Reading strings\<close>

partial_function (option) strlen_loop :: "bytes \<Rightarrow> addr \<Rightarrow> int \<Rightarrow> int option" where
  "strlen_loop m p len = (if m p \<noteq> 0 then strlen_loop m (p + 1) (len + 1) else Some len)"

definition strlen :: "bytes \<Rightarrow> addr \<Rightarrow> int option" where
  "strlen m p = strlen_loop m p 0"

text \<open>The test reads the byte before it looks at the count.\<close>

fun strnlen_loop :: "nat \<Rightarrow> bytes \<Rightarrow> addr \<Rightarrow> nat \<Rightarrow> nat" where
  "strnlen_loop 0 m p n = n"
| "strnlen_loop (Suc k) m p n = (if m p \<noteq> 0 then strnlen_loop k m (p + 1) (n + 1) else n)"

definition strnlen :: "bytes \<Rightarrow> addr \<Rightarrow> u32 \<Rightarrow> nat" where
  "strnlen m p len = strnlen_loop (unat len) m p 0"

definition schar :: "u8 \<Rightarrow> int" where
  "schar c = sint c"

partial_function (option) strcmp :: "bytes \<Rightarrow> addr \<Rightarrow> addr \<Rightarrow> int option" where
  "strcmp m str1 str2 =
     (if m str1 = m str2 then
        if m str1 = 0 then Some 0 else strcmp m (str1 + 1) (str2 + 1)
      else if schar (m str1) < schar (m str2) then Some (-1) else Some 1)"

text \<open>\<open>n\<close> counts what is left to compare; the loop decrements it before every comparison.\<close>

fun strncmp_loop :: "nat \<Rightarrow> bytes \<Rightarrow> addr \<Rightarrow> addr \<Rightarrow> int" where
  "strncmp_loop 0 m s1 s2 = 0"
| "strncmp_loop (Suc n) m s1 s2 =
     (if m s1 = m s2 then (if m s1 = 0 then 0 else strncmp_loop n m (s1 + 1) (s2 + 1))
      else schar (m s1) - schar (m s2))"

definition strncmp :: "bytes \<Rightarrow> addr \<Rightarrow> addr \<Rightarrow> int \<Rightarrow> int" where
  "strncmp m s1 s2 n = strncmp_loop (nat n) m s1 s2"

fun memcmp_loop :: "nat \<Rightarrow> bytes \<Rightarrow> addr \<Rightarrow> addr \<Rightarrow> int" where
  "memcmp_loop 0 m c1 c2 = 0"
| "memcmp_loop (Suc n) m c1 c2 =
     (if m c1 \<noteq> m c2 then uint (m c1) - uint (m c2) else memcmp_loop n m (c1 + 1) (c2 + 1))"

definition memcmp :: "bytes \<Rightarrow> addr \<Rightarrow> addr \<Rightarrow> int \<Rightarrow> int" where
  "memcmp m s1 s2 n = memcmp_loop (nat n) m s1 s2"

partial_function (option) strchr :: "bytes \<Rightarrow> addr \<Rightarrow> u8 \<Rightarrow> addr option" where
  "strchr m s c =
     (if m s \<noteq> 0 then (if m s = c then Some s else strchr m (s + 1) c)
      else if c = m s then Some s else Some NULL)"

partial_function (option) strrchr_loop :: "bytes \<Rightarrow> addr \<Rightarrow> u8 \<Rightarrow> addr \<Rightarrow> addr option" where
  "strrchr_loop m s c r =
     (if m s \<noteq> 0 then strrchr_loop m (s + 1) c (if m s = c then s else r)
      else if c = m s then Some s else Some r)"

definition strrchr :: "bytes \<Rightarrow> addr \<Rightarrow> u8 \<Rightarrow> addr option" where
  "strrchr m s c = strrchr_loop m s c NULL"

text \<open>The inner loop of \<open>strstr\<close> returns where it stopped in the pattern.\<close>

partial_function (option) strstr_match :: "bytes \<Rightarrow> addr \<Rightarrow> addr \<Rightarrow> addr option" where
  "strstr_match m cq cr =
     (if m cq \<noteq> 0 \<and> m cr \<noteq> 0 \<and> m cq = m cr then strstr_match m (cq + 1) (cr + 1) else Some cr)"

partial_function (option) strstr :: "bytes \<Rightarrow> addr \<Rightarrow> addr \<Rightarrow> addr option" where
  "strstr m cs ct =
     (if m cs = 0 then Some NULL
      else if m cs = m ct then do {
        cr \<leftarrow> strstr_match m cs ct;
        if m cr = 0 then Some cs else strstr m (cs + 1) ct
      }
      else strstr m (cs + 1) ct)"

section \<open>Writing\<close>

partial_function (option) strcpy :: "addr \<Rightarrow> addr \<Rightarrow> bytes \<Rightarrow> bytes option" where
  "strcpy tar src m =
     (let c = m src; m = m(tar := c)
      in if c \<noteq> 0 then strcpy (tar + 1) (src + 1) m else Some m)"

fun pad_loop :: "nat \<Rightarrow> addr \<Rightarrow> bytes \<Rightarrow> bytes" where
  "pad_loop 0 p m = m"
| "pad_loop (Suc n) p m = pad_loop n (p + 1) (m(p := 0))"

fun strncpy_loop :: "nat \<Rightarrow> addr \<Rightarrow> addr \<Rightarrow> bytes \<Rightarrow> bytes" where
  "strncpy_loop 0 s1 s2 m = m"
| "strncpy_loop (Suc n) s1 s2 m =
     (let c = m s2; m = m(s1 := c)
      in if c = 0 then pad_loop n (s1 + 1) m else strncpy_loop n (s1 + 1) (s2 + 1) m)"

definition strncpy :: "addr \<Rightarrow> addr \<Rightarrow> int \<Rightarrow> bytes \<Rightarrow> addr \<times> bytes" where
  "strncpy s1 s2 n m = (s1, strncpy_loop (nat n) s1 s2 m)"

partial_function (option) find_end :: "bytes \<Rightarrow> addr \<Rightarrow> addr option" where
  "find_end m s = (if m s \<noteq> 0 then find_end m (s + 1) else Some s)"

partial_function (option) strncat_loop :: "int \<Rightarrow> addr \<Rightarrow> addr \<Rightarrow> bytes \<Rightarrow> bytes option" where
  "strncat_loop n s1 s2 m =
     (let c = m s2; m = m(s1 := c)
      in if c = 0 then Some m
         else if n - 1 < 0 then Some (m(s1 := 0))
         else strncat_loop (n - 1) (s1 + 1) (s2 + 1) m)"

definition strncat :: "addr \<Rightarrow> addr \<Rightarrow> int \<Rightarrow> bytes \<Rightarrow> (addr \<times> bytes) option" where
  "strncat s1 s2 n m = do {
     e \<leftarrow> find_end m s1;
     m \<leftarrow> strncat_loop n e s2 m;
     Some (s1, m)
   }"

fun memcpy_loop :: "nat \<Rightarrow> addr \<Rightarrow> addr \<Rightarrow> bytes \<Rightarrow> bytes" where
  "memcpy_loop 0 dst src m = m"
| "memcpy_loop (Suc n) dst src m = memcpy_loop n (dst + 1) (src + 1) (m(dst := m src))"

definition memcpy :: "addr \<Rightarrow> addr \<Rightarrow> int \<Rightarrow> bytes \<Rightarrow> addr \<times> bytes" where
  "memcpy s ct n m = (s, memcpy_loop (nat n) s ct m)"

fun memset_loop :: "nat \<Rightarrow> addr \<Rightarrow> u8 \<Rightarrow> bytes \<Rightarrow> bytes" where
  "memset_loop 0 cp c m = m"
| "memset_loop (Suc n) cp c m = memset_loop n (cp + 1) c (m(cp := c))"

definition memset :: "addr \<Rightarrow> int \<Rightarrow> int \<Rightarrow> bytes \<Rightarrow> addr \<times> bytes" where
  "memset s c n m = (s, memset_loop (nat n) s (word_of_int c) m)"

definition bzero :: "addr \<Rightarrow> int \<Rightarrow> bytes \<Rightarrow> bytes" where
  "bzero p len m = (if len \<le> 0 then m else pad_loop (nat len) p m)"

section \<open>Numbers\<close>

text \<open>
  The leading white space and sign of \<open>atoi\<close>: the first byte after them, and how many \<open>-\<close>
  signs were counted (at most one).
\<close>

partial_function (option) atoi_sign :: "bytes \<Rightarrow> addr \<Rightarrow> (addr \<times> bool) option" where
  "atoi_sign m p =
     (if m p = 32 \<or> m p = 9 then atoi_sign m (p + 1)
      else if m p = 45 then Some (p + 1, True)
      else if m p = 43 then Some (p + 1, False)
      else Some (p, False))"

partial_function (option) atoi_digits :: "bytes \<Rightarrow> addr \<Rightarrow> int \<Rightarrow> int option" where
  "atoi_digits m p n =
     (if 48 \<le> schar (m p) \<and> schar (m p) \<le> 57 then atoi_digits m (p + 1) (n * 10 + schar (m p) - 48)
      else Some n)"

definition atoi :: "bytes \<Rightarrow> addr \<Rightarrow> int option" where
  "atoi m p = do {
     (p, f) \<leftarrow> atoi_sign m p;
     n \<leftarrow> atoi_digits m p 0;
     Some (if f then - n else n)
   }"

text \<open>\<open>atol\<close> is \<open>atoi\<close> at another type; both types have 32 bits.\<close>

definition atol :: "bytes \<Rightarrow> addr \<Rightarrow> int option" where
  "atol m p = do {
     (p, f) \<leftarrow> atoi_sign m p;
     n \<leftarrow> atoi_digits m p 0;
     Some (if f then - n else n)
   }"

definition abs_int :: "u32 \<Rightarrow> u32" where
  "abs_int arg = (if arg <s 0 then - arg else arg)"

definition labs :: "u32 \<Rightarrow> u32" where
  "labs arg = (if arg <s 0 then - arg else arg)"

text \<open>\<open>RAND_MAX + 1\<close> is \<open>2\<^sup>3\<^sup>1 - 1\<close>; the product is taken in 32 bits first.\<close>

definition rand_r :: "u32 \<Rightarrow> u32 \<times> u32" where
  "rand_r seed = (let seed = 16807 * seed mod 0x7FFFFFFF in (seed, seed))"

definition srand :: "u32 \<Rightarrow> u32" where
  "srand seed = seed"

definition rand :: "u32 \<Rightarrow> u32 \<times> u32" where
  "rand rand_seed = rand_r rand_seed"

section \<open>Stored strings\<close>

fun cstr :: "bytes \<Rightarrow> addr \<Rightarrow> u8 list \<Rightarrow> bool" where
  "cstr m p [] \<longleftrightarrow> m p = 0"
| "cstr m p (x # xs) \<longleftrightarrow> m p = x \<and> x \<noteq> 0 \<and> cstr m (p + 1) xs"

text \<open>The bytes of a string and its terminator.\<close>

definition cbytes :: "addr \<Rightarrow> u8 list \<Rightarrow> addr set" where
  "cbytes p xs = (\<lambda>i. p + word_of_nat i) ` {..length xs}"

lemma cbytes_Cons: "cbytes p (x # xs) = insert p (cbytes (p + 1) xs)"
proof -
  have "{..length (x # xs)} = insert 0 (Suc ` {..length xs})"
    by (auto simp: image_iff) (metis Suc_le_mono not0_implies_Suc atMost_iff)
  then show ?thesis by (simp add: cbytes_def image_image add.assoc)
qed

lemma cbytes_Nil [simp]: "cbytes p [] = {p}"
  by (simp add: cbytes_def)

lemma cstr_cong: "(\<And>a. a \<in> cbytes p xs \<Longrightarrow> m a = m' a) \<Longrightarrow> cstr m p xs = cstr m' p xs"
  by (induction xs arbitrary: p) (auto simp: cbytes_Cons)

lemma cstr_no_zero: "cstr m p xs \<Longrightarrow> 0 \<notin> set xs"
  by (induction xs arbitrary: p) auto

lemma strlen_loop_cstr: "cstr m p xs \<Longrightarrow> strlen_loop m p n = Some (n + int (length xs))"
proof (induction xs arbitrary: p n)
  case Nil
  then show ?case by (subst strlen_loop.simps) simp
next
  case (Cons x xs)
  then show ?case by (subst strlen_loop.simps) simp
qed

lemma strlen_cstr: "cstr m p xs \<Longrightarrow> strlen m p = Some (int (length xs))"
  by (simp add: strlen_def strlen_loop_cstr)

lemma strnlen_loop_cstr: "cstr m p xs \<Longrightarrow> strnlen_loop k m p n = n + min k (length xs)"
proof (induction k arbitrary: p n xs)
  case (Suc k)
  then show ?case by (cases xs) auto
qed simp

text \<open>The order \<open>strcmp\<close> decides: lexicographic on signed characters, a prefix first.\<close>

fun str_order :: "u8 list \<Rightarrow> u8 list \<Rightarrow> int" where
  "str_order [] [] = 0"
| "str_order [] (y # ys) = (if 0 < schar y then -1 else 1)"
| "str_order (x # xs) [] = (if schar x < 0 then -1 else 1)"
| "str_order (x # xs) (y # ys) =
     (if x = y then str_order xs ys else if schar x < schar y then -1 else 1)"

lemma schar_0 [simp]: "schar 0 = 0"
  by (simp add: schar_def)

lemma strcmp_cstr: "cstr m p xs \<Longrightarrow> cstr m q ys \<Longrightarrow> strcmp m p q = Some (str_order xs ys)"
proof (induction xs ys arbitrary: p q rule: str_order.induct)
  case (4 x xs y ys)
  then show ?case by (subst strcmp.simps) auto
qed (subst strcmp.simps, auto)+

lemma str_order_0: "str_order xs ys = 0 \<longleftrightarrow> xs = ys"
  by (induction xs ys rule: str_order.induct) auto

lemma schar_eq: "schar a = schar b \<longleftrightarrow> a = b"
  unfolding schar_def using signed_word_eqI by auto

lemma strncmp_loop_cstr:
  "cstr m p xs \<Longrightarrow> cstr m q ys \<Longrightarrow> strncmp_loop n m p q = 0 \<longleftrightarrow> take n xs = take n ys"
proof (induction n arbitrary: p q xs ys)
  case (Suc n)
  have z: "schar a = 0 \<longleftrightarrow> a = 0" for a using schar_eq [of a 0] by simp
  note inj = schar_eq z
  show ?case
  proof (cases xs)
    case Nil
    then show ?thesis using Suc.prems inj by (cases ys) auto
  next
    case (Cons x xs')
    then show ?thesis using Suc inj by (cases ys) auto
  qed
qed simp

lemma memcmp_loop_0: "memcmp_loop n m p q = 0 \<longleftrightarrow> (\<forall>i < n. m (p + word_of_nat i) = m (q + word_of_nat i))"
proof (induction n arbitrary: p q)
  case (Suc n)
  have "(\<forall>i < Suc n. m (p + word_of_nat i) = m (q + word_of_nat i)) \<longleftrightarrow>
      m p = m q \<and> (\<forall>i < n. m (p + 1 + word_of_nat i) = m (q + 1 + word_of_nat i))"
    by (auto simp: less_Suc_eq_0_disj add.assoc)
  with Suc show ?case by (simp add: word_uint_eq_iff)
qed simp

lemma strchr_cstr:
  "cstr m p xs \<Longrightarrow> strchr m p c =
     Some (if c = 0 then p + word_of_nat (length xs)
           else if c \<in> set xs then p + word_of_nat (length (takeWhile (\<lambda>x. x \<noteq> c) xs)) else NULL)"
proof (induction xs arbitrary: p)
  case Nil
  then show ?case by (subst strchr.simps) simp
next
  case (Cons x xs)
  then show ?case by (subst strchr.simps) (auto simp: add.assoc)
qed

text \<open>\<open>strstr\<close>: the first place the pattern starts at.\<close>

fun find_sub :: "u8 list \<Rightarrow> u8 list \<Rightarrow> nat option" where
  "find_sub [] ys = None"
| "find_sub (x # xs) ys =
     (if ys \<noteq> [] \<and> take (length ys) (x # xs) = ys then Some 0 else map_option Suc (find_sub xs ys))"

lemma strstr_match_cstr:
  "cstr m p xs \<Longrightarrow> cstr m q ys \<Longrightarrow>
     \<exists>r. strstr_match m p q = Some r \<and> (m r = 0 \<longleftrightarrow> take (length ys) xs = ys)"
proof (induction ys arbitrary: p q xs)
  case Nil
  then show ?case by (subst strstr_match.simps) auto
next
  case (Cons y ys)
  show ?case
  proof (cases xs)
    case Nil
    then show ?thesis using Cons.prems by (subst strstr_match.simps) auto
  next
    case xs: (Cons x xs')
    then show ?thesis using Cons.prems Cons.IH [of "p + 1" xs' "q + 1"]
      by (subst strstr_match.simps) auto
  qed
qed

lemma strstr_cstr:
  "cstr m p xs \<Longrightarrow> cstr m q ys \<Longrightarrow> ys \<noteq> [] \<Longrightarrow> strstr m p q =
     Some (case find_sub xs ys of None \<Rightarrow> NULL | Some i \<Rightarrow> p + word_of_nat i)"
proof (induction xs arbitrary: p)
  case Nil
  then show ?case by (subst strstr.simps) simp
next
  case (Cons x xs)
  obtain y ys' where ys: "ys = y # ys'" using Cons.prems(3) by (cases ys) auto
  obtain r where r: "strstr_match m p q = Some r" "m r = 0 \<longleftrightarrow> take (length ys) (x # xs) = ys"
    using strstr_match_cstr [OF Cons.prems(1,2)] by blast
  have IH: "strstr m (p + 1) q = Some (case find_sub xs ys of None \<Rightarrow> NULL | Some i \<Rightarrow> p + 1 + word_of_nat i)"
    using Cons.IH Cons.prems by simp
  have q: "m p = x" "x \<noteq> 0" "m q = y" using Cons.prems ys by auto
  show ?case
  proof (cases "x = y")
    case True
    then show ?thesis
      using q r IH Cons.prems(3) by (subst strstr.simps) (auto split: option.splits simp: add.assoc)
  next
    case False
    then have "take (length ys) (x # xs) \<noteq> ys" using ys by simp
    then show ?thesis
      using q False IH ys by (subst strstr.simps) (auto split: option.splits simp: add.assoc)
  qed
qed

section \<open>Copies\<close>

lemma add_nat_neq:
  fixes p :: addr
  assumes "i < 2 ^ 32" "0 < i"
  shows "p \<noteq> p + word_of_nat i"
proof
  assume "p = p + word_of_nat i"
  then have "word_of_nat i = (0 :: u32)" by simp
  then have "unat (word_of_nat i :: u32) = 0" by simp
  moreover have "unat (word_of_nat i :: u32) = i" using assms(1) by (simp add: unat_of_nat)
  ultimately show False using assms(2) by simp
qed

lemma not_in_cbytes_Suc:
  assumes "Suc (length xs) < 2 ^ 32"
  shows "p \<notin> cbytes (p + 1) xs"
proof
  assume "p \<in> cbytes (p + 1) xs"
  then obtain i where "i \<le> length xs" "p = p + 1 + word_of_nat i" by (auto simp: cbytes_def)
  then have "p = p + word_of_nat (Suc i)" by (simp add: add.assoc)
  then show False using add_nat_neq [of "Suc i" p] \<open>i \<le> length xs\<close> assms by simp
qed

text \<open>A copy to a place apart from the source: the string arrives, nothing else changes.\<close>

lemma strcpy_cstr:
  "cstr m src xs \<Longrightarrow> cbytes tar xs \<inter> cbytes src xs = {} \<Longrightarrow> length xs < 2 ^ 32 - 1 \<Longrightarrow>
     \<exists>m'. strcpy tar src m = Some m' \<and> cstr m' tar xs \<and> (\<forall>a. a \<notin> cbytes tar xs \<longrightarrow> m' a = m a)"
proof (induction xs arbitrary: tar src m)
  case Nil
  then show ?case by (subst strcpy.simps) auto
next
  case (Cons x xs)
  let ?m = "m(tar := x)"
  have d: "cbytes (tar + 1) xs \<inter> cbytes (src + 1) xs = {}" "tar \<notin> cbytes (src + 1) xs"
    using Cons.prems(2) by (auto simp: cbytes_Cons)
  have "cstr ?m (src + 1) xs = cstr m (src + 1) xs" by (rule cstr_cong) (use d(2) in auto)
  then have "cstr ?m (src + 1) xs" using Cons.prems(1) by simp
  moreover have "length xs < 2 ^ 32 - 1" using Cons.prems(3) by simp
  ultimately obtain m' where
    m: "strcpy (tar + 1) (src + 1) ?m = Some m'" "cstr m' (tar + 1) xs"
      "\<forall>a. a \<notin> cbytes (tar + 1) xs \<longrightarrow> m' a = ?m a" using Cons.IH [OF _ d(1)] by blast
  have "m' tar = x" using m(3) not_in_cbytes_Suc [of xs tar] Cons.prems(3) by simp
  moreover have "strcpy tar src m = Some m'"
    using Cons.prems(1) m(1) by (subst strcpy.simps) simp
  ultimately show ?case using m Cons.prems(1) by (auto simp: cbytes_Cons)
qed

definition range_at :: "addr \<Rightarrow> nat \<Rightarrow> addr set" where
  "range_at p n = (\<lambda>i. p + word_of_nat i) ` {..<n}"

lemma range_at_Suc: "range_at p (Suc n) = insert p (range_at (p + 1) n)"
  by (simp add: range_at_def lessThan_Suc_eq_insert_0 image_image add.assoc)

lemma range_at_0 [simp]: "range_at p 0 = {}"
  by (simp add: range_at_def)

lemma range_at_mem: "i < n \<Longrightarrow> p + word_of_nat i \<in> range_at p n"
  by (auto simp: range_at_def)

lemma not_in_range_Suc: "Suc n \<le> 2 ^ 32 \<Longrightarrow> p \<notin> range_at (p + 1) n"
proof
  assume n: "Suc n \<le> 2 ^ 32" and "p \<in> range_at (p + 1) n"
  then obtain i where "i < n" "p = p + 1 + word_of_nat i" by (auto simp: range_at_def)
  then have "p = p + word_of_nat (Suc i)" by (simp add: add.assoc)
  then show False using add_nat_neq [of "Suc i" p] \<open>i < n\<close> n by simp
qed

lemma memcpy_loop_ok:
  "range_at dst n \<inter> range_at src n = {} \<Longrightarrow> n \<le> 2 ^ 32 \<Longrightarrow>
     (\<forall>i < n. memcpy_loop n dst src m (dst + word_of_nat i) = m (src + word_of_nat i)) \<and>
     (\<forall>a. a \<notin> range_at dst n \<longrightarrow> memcpy_loop n dst src m a = m a)"
proof (induction n arbitrary: dst src m)
  case (Suc n)
  let ?m = "m(dst := m src)"
  have d: "range_at (dst + 1) n \<inter> range_at (src + 1) n = {}" "dst \<notin> range_at (src + 1) n"
    using Suc.prems(1) by (auto simp: range_at_Suc)
  have nd: "dst \<notin> range_at (dst + 1) n" by (rule not_in_range_Suc) (use Suc.prems(2) in simp)
  have n: "n \<le> 2 ^ 32" using Suc.prems(2) by simp
  note I1 = Suc.IH [OF d(1) n, of ?m, THEN conjunct1, rule_format]
  note I2 = Suc.IH [OF d(1) n, of ?m, THEN conjunct2, rule_format]
  have "memcpy_loop (Suc n) dst src m (dst + word_of_nat i) = m (src + word_of_nat i)" if "i < Suc n" for i
  proof (cases i)
    case 0
    then show ?thesis using I2 [OF nd] by (simp del: fun_upd_apply) simp
  next
    case (Suc j)
    then have j: "j < n" using that by simp
    then have ne: "src + 1 + word_of_nat j \<noteq> dst" using d(2) range_at_mem [of j n "src + 1"] by auto
    have "memcpy_loop n (dst + 1) (src + 1) ?m (dst + 1 + word_of_nat j) = m (src + 1 + word_of_nat j)"
      by (rule trans [OF I1 [OF j] fun_upd_other [OF ne]])
    then show ?thesis by (simp only: memcpy_loop.simps Suc of_nat_Suc add.assoc)
  qed
  moreover have "memcpy_loop (Suc n) dst src m a = m a" if "a \<notin> range_at dst (Suc n)" for a
  proof -
    have "a \<notin> range_at (dst + 1) n" "a \<noteq> dst" using that by (auto simp: range_at_Suc)
    then show ?thesis unfolding memcpy_loop.simps using trans [OF I2 fun_upd_other] by blast
  qed
  ultimately show ?case by blast
qed simp

lemma memset_loop_ok:
  "n \<le> 2 ^ 32 \<Longrightarrow> memset_loop n p c m a = (if a \<in> range_at p n then c else m a)"
proof (induction n arbitrary: p m)
  case (Suc n)
  have "p \<notin> range_at (p + 1) n" by (rule not_in_range_Suc) (use Suc.prems in simp)
  then show ?case using Suc by (auto simp: range_at_Suc)
qed simp

lemma pad_memset: "pad_loop n p m = memset_loop n p 0 m"
  by (induction n arbitrary: p m) auto

section \<open>Decimal numbers\<close>

fun dec_value :: "int \<Rightarrow> u8 list \<Rightarrow> int" where
  "dec_value n [] = n"
| "dec_value n (d # ds) = dec_value (n * 10 + (schar d - 48)) ds"

definition is_dec :: "u8 \<Rightarrow> bool" where
  "is_dec c \<longleftrightarrow> 48 \<le> schar c \<and> schar c \<le> 57"

lemma atoi_digits_cstr:
  "cstr m p (ds @ rest) \<Longrightarrow> \<forall>d \<in> set ds. is_dec d \<Longrightarrow> (case rest of [] \<Rightarrow> True | c # _ \<Rightarrow> \<not> is_dec c) \<Longrightarrow>
     atoi_digits m p n = Some (dec_value n ds)"
proof (induction ds arbitrary: p n)
  case Nil
  then show ?case by (subst atoi_digits.simps) (auto simp: is_dec_def split: list.splits)
next
  case (Cons d ds)
  then have "atoi_digits m (p + 1) (n * 10 + (schar d - 48)) = Some (dec_value n (d # ds))"
    by simp
  with Cons.prems show ?case by (subst atoi_digits.simps) (auto simp: is_dec_def algebra_simps)
qed

fun digits_of :: "nat \<Rightarrow> nat \<Rightarrow> u8 list" where
  "digits_of 0 n = []"
| "digits_of (Suc k) n = digits_of k (n div 10) @ [word_of_nat (48 + n mod 10)]"

text \<open>The decimal digits of \<open>n\<close>, as many as asked for.\<close>

lemma dec_value_append: "dec_value n (xs @ ys) = dec_value (dec_value n xs) ys"
  by (induction xs arbitrary: n) auto

lemma schar_digit: "d < 10 \<Longrightarrow> schar (word_of_nat (48 + d)) = 48 + int d"
proof -
  assume "d < 10"
  then have "d \<in> {0, 1, 2, 3, 4, 5, 6, 7, 8, 9}" by auto
  then show ?thesis by (auto simp: schar_def)
qed

lemma dec_value_digits: "n < 10 ^ k \<Longrightarrow> dec_value 0 (digits_of k n) = int n"
proof (induction k arbitrary: n)
  case (Suc k)
  then have "n div 10 < 10 ^ k" by (simp add: div_less_iff_less_mult mult.commute)
  with Suc.IH have IH: "dec_value 0 (digits_of k (n div 10)) = int (n div 10)" by blast
  have "schar (word_of_nat (48 + n mod 10)) = 48 + int (n mod 10)" by (rule schar_digit) simp
  then have "dec_value 0 (digits_of (Suc k) n) = int (n div 10) * 10 + int (n mod 10)"
    by (simp add: dec_value_append IH del: of_nat_add)
  also have "\<dots> = int n" by (metis div_mult_mod_eq of_nat_add of_nat_mult of_nat_numeral)
  finally show ?case .
qed simp

lemma digits_dec: "d \<in> set (digits_of k n) \<Longrightarrow> is_dec d"
proof (induction k arbitrary: n)
  case (Suc k)
  have "is_dec (word_of_nat (48 + n mod 10))"
    using schar_digit [of "n mod 10"] by (simp add: is_dec_def del: of_nat_add)
  with Suc show ?case by (auto simp del: of_nat_add)
qed simp

lemma cstr_append: "cstr m p (xs @ ys) \<longleftrightarrow>
    (\<forall>x \<in> set xs. x \<noteq> 0) \<and> (\<forall>i < length xs. m (p + word_of_nat i) = xs ! i) \<and>
    cstr m (p + word_of_nat (length xs)) ys"
proof (induction xs arbitrary: p)
  case (Cons x xs)
  have "(\<forall>i < length (x # xs). m (p + word_of_nat i) = (x # xs) ! i) \<longleftrightarrow>
      m p = x \<and> (\<forall>i < length xs. m (p + 1 + word_of_nat i) = xs ! i)"
    by (auto simp: less_Suc_eq_0_disj add.assoc)
  with Cons show ?case by (auto simp: add.assoc)
qed simp

lemma atoi_sign_blanks:
  "cstr m p (bs @ xs) \<Longrightarrow> \<forall>b \<in> set bs. b = 32 \<or> b = 9 \<Longrightarrow>
     atoi_sign m p = atoi_sign m (p + word_of_nat (length bs))"
proof (induction bs arbitrary: p)
  case (Cons b bs)
  then have "atoi_sign m p = atoi_sign m (p + 1)" by (subst atoi_sign.simps) auto
  with Cons show ?case by (simp add: add.assoc)
qed simp

lemma dec_not_sign: "is_dec c \<Longrightarrow> c \<noteq> 32 \<and> c \<noteq> 9 \<and> c \<noteq> 45 \<and> c \<noteq> 43"
  by (auto simp: is_dec_def schar_def)

section \<open>Properties\<close>

text \<open>
  C33: \<open>strcmp\<close> on two stored strings decides their lexicographic order on signed characters;
  it is 0 exactly for equal strings.
\<close>

theorem strcmp_orders:
  assumes "cstr m p xs" "cstr m q ys"
  shows "strcmp m p q = Some (str_order xs ys) \<and> (strcmp m p q = Some 0 \<longleftrightarrow> xs = ys) \<and>
    (strncmp m p q n = 0 \<longleftrightarrow> take (nat n) xs = take (nat n) ys)"
  using strcmp_cstr [OF assms] str_order_0 strncmp_loop_cstr [OF assms] by (simp add: strncmp_def)

text \<open>
  C34: \<open>strstr\<close> with a non-empty pattern finds the first occurrence, or \<open>NULL\<close> when there is none.
\<close>

theorem strstr_finds_first:
  assumes "cstr m p xs" "cstr m q ys" "ys \<noteq> []"
  shows "strstr m p q = Some (case find_sub xs ys of None \<Rightarrow> NULL | Some i \<Rightarrow> p + word_of_nat i)"
  using strstr_cstr [OF assms] .

text \<open>
  \<open>strcpy\<close> to a place apart from the source returns, leaves a copy of the string there and
  changes no other byte; \<open>strlen\<close> of the copy is the length of the string.
\<close>

theorem strcpy_copies:
  assumes "cstr m src xs" "cbytes tar xs \<inter> cbytes src xs = {}" "length xs < 2 ^ 32 - 1"
  shows "\<exists>m'. strcpy tar src m = Some m' \<and> cstr m' tar xs \<and> strlen m' tar = Some (int (length xs)) \<and>
    (\<forall>a. a \<notin> cbytes tar xs \<longrightarrow> m' a = m a)"
  using strcpy_cstr [OF assms] strlen_cstr by metis

text \<open>
  \<open>memcpy\<close> between regions that do not overlap copies every byte and changes no other.
\<close>

theorem memcpy_copies:
  assumes "range_at dst (nat n) \<inter> range_at src (nat n) = {}" "n \<le> 2 ^ 32"
  shows "(\<forall>i < nat n. snd (memcpy dst src n m) (dst + word_of_nat i) = m (src + word_of_nat i)) \<and>
    (\<forall>a. a \<notin> range_at dst (nat n) \<longrightarrow> snd (memcpy dst src n m) a = m a) \<and>
    memcmp (snd (memcpy dst src n m)) dst src n = 0"
proof -
  have n: "nat n \<le> 2 ^ 32" using assms(2) by simp
  note c = memcpy_loop_ok [OF assms(1) n, of m]
  have "src + word_of_nat i \<notin> range_at dst (nat n)" if "i < nat n" for i
    using assms(1) range_at_mem [OF that, of src] by blast
  with c show ?thesis by (simp add: memcpy_def memcmp_def memcmp_loop_0)
qed


text \<open>
  \<open>rand_r\<close> stays within \<open>0 .. RAND_MAX\<close>, its result is the new seed, and as an \<open>int\<close> it is
  never negative.
\<close>

theorem rand_r_range:
  "fst (rand_r seed) = snd (rand_r seed) \<and> unat (fst (rand_r seed)) \<le> 2147483646 \<and> 0 \<le> sint (fst (rand_r seed))"
proof -
  have u: "unat (16807 * seed mod (0x7FFFFFFF :: u32)) < 2147483647"
    by (simp add: unat_mod)
  then have "uint (16807 * seed mod (0x7FFFFFFF :: u32)) < 2147483647" by (simp add: uint_mod)
  then have "sint (16807 * seed mod (0x7FFFFFFF :: u32)) = uint (16807 * seed mod (0x7FFFFFFF :: u32))"
    unfolding sint_uint by (intro signed_take_bit_int_eq_self) (simp_all add: order_trans [OF _ uint_ge_0])
  with u show ?thesis by (simp add: rand_r_def Let_def)
qed

end
