(* ===== verification/Devices.thy ===== *)
theory Devices
  imports Messages Strings
begin

text \<open>
  Device-independent input and output: the device switch table of \<^verbatim>\<open>system/conf.c\<close>, the
  operations \<^verbatim>\<open>system/open.c\<close>, \<^verbatim>\<open>close.c\<close>, \<^verbatim>\<open>read.c\<close>, \<^verbatim>\<open>write.c\<close>, \<^verbatim>\<open>seek.c\<close>, \<^verbatim>\<open>getc.c\<close>, \<^verbatim>\<open>putc.c\<close>,
  \<^verbatim>\<open>control.c\<close>, \<^verbatim>\<open>init.c\<close>, which dispatch through it, the two default drivers
  \<^verbatim>\<open>ionull.c\<close> and \<^verbatim>\<open>ioerr.c\<close>, and the name lookup \<^verbatim>\<open>getdev.c\<close>. A function pointer is a
  constructor of \<open>devfn\<close>; the code of the drivers other than the two defaults is an argument,
  so that each driver can be modelled in a theory of its own.
\<close>

section \<open>The device switch table\<close>

text \<open>The functions \<open>devtab\<close> refers to.\<close>

datatype devfn =
    Ttyinit | Ionull | Ttyread | Ttywrite | Ioerr | Ttygetc | Ttyputc | Ttycontrol
  | Ttydispatch | Ethinit | Ethread | Ethwrite | Ethcontrol | Ethdispatch | Naminit | Namopen
  | Rdsinit | Rdsopen | Rdsclose | Rdsread | Rdswrite | Rdscontrol | Raminit | Ramopen
  | Ramclose | Ramread | Ramwrite | Rfsinit | Rfsopen | Rfscontrol | Rflinit | Rflclose
  | Rflread | Rflwrite | Rflseek | Rflgetc | Rflputc | Lfsinit | Lfsopen | Lflinit
  | Lflclose | Lflread | Lflwrite | Lflseek | Lflgetc | Lflputc | Lflcontrol

record dentry =
  dvnum :: int
  dvminor :: int
  dvname :: string
  dvinit :: devfn
  dvopen :: devfn
  dvclose :: devfn
  dvread :: devfn
  dvwrite :: devfn
  dvseek :: devfn
  dvgetc :: devfn
  dvputc :: devfn
  dvcntl :: devfn
  dvcsr :: u32
  dvintr :: devfn
  dvirq :: u8

definition devtab_list :: "dentry list" where
  "devtab_list = [
   \<lparr>dvnum = 0, dvminor = 0, dvname = ''CONSOLE'', dvinit = Ttyinit, dvopen = Ionull, dvclose = Ionull,
      dvread = Ttyread, dvwrite = Ttywrite, dvseek = Ioerr, dvgetc = Ttygetc, dvputc = Ttyputc, dvcntl = Ttycontrol,
      dvcsr = 0x3f8, dvintr = Ttydispatch, dvirq = 42\<rparr>,
   \<lparr>dvnum = 1, dvminor = 0, dvname = ''NULLDEV'', dvinit = Ionull, dvopen = Ionull, dvclose = Ionull,
      dvread = Ionull, dvwrite = Ionull, dvseek = Ioerr, dvgetc = Ionull, dvputc = Ionull, dvcntl = Ioerr,
      dvcsr = 0x0, dvintr = Ioerr, dvirq = 0\<rparr>,
   \<lparr>dvnum = 2, dvminor = 0, dvname = ''ETHER0'', dvinit = Ethinit, dvopen = Ioerr, dvclose = Ioerr,
      dvread = Ethread, dvwrite = Ethwrite, dvseek = Ioerr, dvgetc = Ioerr, dvputc = Ioerr, dvcntl = Ethcontrol,
      dvcsr = 0x0, dvintr = Ethdispatch, dvirq = 43\<rparr>,
   \<lparr>dvnum = 3, dvminor = 0, dvname = ''NAMESPACE'', dvinit = Naminit, dvopen = Namopen, dvclose = Ioerr,
      dvread = Ioerr, dvwrite = Ioerr, dvseek = Ioerr, dvgetc = Ioerr, dvputc = Ioerr, dvcntl = Ioerr,
      dvcsr = 0x0, dvintr = Ioerr, dvirq = 0\<rparr>,
   \<lparr>dvnum = 4, dvminor = 0, dvname = ''RDISK'', dvinit = Rdsinit, dvopen = Rdsopen, dvclose = Rdsclose,
      dvread = Rdsread, dvwrite = Rdswrite, dvseek = Ioerr, dvgetc = Ioerr, dvputc = Ioerr, dvcntl = Rdscontrol,
      dvcsr = 0x0, dvintr = Ionull, dvirq = 0\<rparr>,
   \<lparr>dvnum = 5, dvminor = 0, dvname = ''RAM0'', dvinit = Raminit, dvopen = Ramopen, dvclose = Ramclose,
      dvread = Ramread, dvwrite = Ramwrite, dvseek = Ioerr, dvgetc = Ioerr, dvputc = Ioerr, dvcntl = Ioerr,
      dvcsr = 0x0, dvintr = Ionull, dvirq = 0\<rparr>,
   \<lparr>dvnum = 6, dvminor = 0, dvname = ''RFILESYS'', dvinit = Rfsinit, dvopen = Rfsopen, dvclose = Ioerr,
      dvread = Ioerr, dvwrite = Ioerr, dvseek = Ioerr, dvgetc = Ioerr, dvputc = Ioerr, dvcntl = Rfscontrol,
      dvcsr = 0x0, dvintr = Ionull, dvirq = 0\<rparr>,
   \<lparr>dvnum = 7, dvminor = 0, dvname = ''RFILE0'', dvinit = Rflinit, dvopen = Ioerr, dvclose = Rflclose,
      dvread = Rflread, dvwrite = Rflwrite, dvseek = Rflseek, dvgetc = Rflgetc, dvputc = Rflputc, dvcntl = Ioerr,
      dvcsr = 0x0, dvintr = Ionull, dvirq = 0\<rparr>,
   \<lparr>dvnum = 8, dvminor = 1, dvname = ''RFILE1'', dvinit = Rflinit, dvopen = Ioerr, dvclose = Rflclose,
      dvread = Rflread, dvwrite = Rflwrite, dvseek = Rflseek, dvgetc = Rflgetc, dvputc = Rflputc, dvcntl = Ioerr,
      dvcsr = 0x0, dvintr = Ionull, dvirq = 0\<rparr>,
   \<lparr>dvnum = 9, dvminor = 2, dvname = ''RFILE2'', dvinit = Rflinit, dvopen = Ioerr, dvclose = Rflclose,
      dvread = Rflread, dvwrite = Rflwrite, dvseek = Rflseek, dvgetc = Rflgetc, dvputc = Rflputc, dvcntl = Ioerr,
      dvcsr = 0x0, dvintr = Ionull, dvirq = 0\<rparr>,
   \<lparr>dvnum = 10, dvminor = 3, dvname = ''RFILE3'', dvinit = Rflinit, dvopen = Ioerr, dvclose = Rflclose,
      dvread = Rflread, dvwrite = Rflwrite, dvseek = Rflseek, dvgetc = Rflgetc, dvputc = Rflputc, dvcntl = Ioerr,
      dvcsr = 0x0, dvintr = Ionull, dvirq = 0\<rparr>,
   \<lparr>dvnum = 11, dvminor = 4, dvname = ''RFILE4'', dvinit = Rflinit, dvopen = Ioerr, dvclose = Rflclose,
      dvread = Rflread, dvwrite = Rflwrite, dvseek = Rflseek, dvgetc = Rflgetc, dvputc = Rflputc, dvcntl = Ioerr,
      dvcsr = 0x0, dvintr = Ionull, dvirq = 0\<rparr>,
   \<lparr>dvnum = 12, dvminor = 5, dvname = ''RFILE5'', dvinit = Rflinit, dvopen = Ioerr, dvclose = Rflclose,
      dvread = Rflread, dvwrite = Rflwrite, dvseek = Rflseek, dvgetc = Rflgetc, dvputc = Rflputc, dvcntl = Ioerr,
      dvcsr = 0x0, dvintr = Ionull, dvirq = 0\<rparr>,
   \<lparr>dvnum = 13, dvminor = 6, dvname = ''RFILE6'', dvinit = Rflinit, dvopen = Ioerr, dvclose = Rflclose,
      dvread = Rflread, dvwrite = Rflwrite, dvseek = Rflseek, dvgetc = Rflgetc, dvputc = Rflputc, dvcntl = Ioerr,
      dvcsr = 0x0, dvintr = Ionull, dvirq = 0\<rparr>,
   \<lparr>dvnum = 14, dvminor = 7, dvname = ''RFILE7'', dvinit = Rflinit, dvopen = Ioerr, dvclose = Rflclose,
      dvread = Rflread, dvwrite = Rflwrite, dvseek = Rflseek, dvgetc = Rflgetc, dvputc = Rflputc, dvcntl = Ioerr,
      dvcsr = 0x0, dvintr = Ionull, dvirq = 0\<rparr>,
   \<lparr>dvnum = 15, dvminor = 8, dvname = ''RFILE8'', dvinit = Rflinit, dvopen = Ioerr, dvclose = Rflclose,
      dvread = Rflread, dvwrite = Rflwrite, dvseek = Rflseek, dvgetc = Rflgetc, dvputc = Rflputc, dvcntl = Ioerr,
      dvcsr = 0x0, dvintr = Ionull, dvirq = 0\<rparr>,
   \<lparr>dvnum = 16, dvminor = 9, dvname = ''RFILE9'', dvinit = Rflinit, dvopen = Ioerr, dvclose = Rflclose,
      dvread = Rflread, dvwrite = Rflwrite, dvseek = Rflseek, dvgetc = Rflgetc, dvputc = Rflputc, dvcntl = Ioerr,
      dvcsr = 0x0, dvintr = Ionull, dvirq = 0\<rparr>,
   \<lparr>dvnum = 17, dvminor = 0, dvname = ''LFILESYS'', dvinit = Lfsinit, dvopen = Lfsopen, dvclose = Ioerr,
      dvread = Ioerr, dvwrite = Ioerr, dvseek = Ioerr, dvgetc = Ioerr, dvputc = Ioerr, dvcntl = Ioerr,
      dvcsr = 0x0, dvintr = Ionull, dvirq = 0\<rparr>,
   \<lparr>dvnum = 18, dvminor = 0, dvname = ''LFILE0'', dvinit = Lflinit, dvopen = Ioerr, dvclose = Lflclose,
      dvread = Lflread, dvwrite = Lflwrite, dvseek = Lflseek, dvgetc = Lflgetc, dvputc = Lflputc, dvcntl = Lflcontrol,
      dvcsr = 0x0, dvintr = Ionull, dvirq = 0\<rparr>,
   \<lparr>dvnum = 19, dvminor = 1, dvname = ''LFILE1'', dvinit = Lflinit, dvopen = Ioerr, dvclose = Lflclose,
      dvread = Lflread, dvwrite = Lflwrite, dvseek = Lflseek, dvgetc = Lflgetc, dvputc = Lflputc, dvcntl = Lflcontrol,
      dvcsr = 0x0, dvintr = Ionull, dvirq = 0\<rparr>,
   \<lparr>dvnum = 20, dvminor = 2, dvname = ''LFILE2'', dvinit = Lflinit, dvopen = Ioerr, dvclose = Lflclose,
      dvread = Lflread, dvwrite = Lflwrite, dvseek = Lflseek, dvgetc = Lflgetc, dvputc = Lflputc, dvcntl = Lflcontrol,
      dvcsr = 0x0, dvintr = Ionull, dvirq = 0\<rparr>,
   \<lparr>dvnum = 21, dvminor = 3, dvname = ''LFILE3'', dvinit = Lflinit, dvopen = Ioerr, dvclose = Lflclose,
      dvread = Lflread, dvwrite = Lflwrite, dvseek = Lflseek, dvgetc = Lflgetc, dvputc = Lflputc, dvcntl = Lflcontrol,
      dvcsr = 0x0, dvintr = Ionull, dvirq = 0\<rparr>,
   \<lparr>dvnum = 22, dvminor = 4, dvname = ''LFILE4'', dvinit = Lflinit, dvopen = Ioerr, dvclose = Lflclose,
      dvread = Lflread, dvwrite = Lflwrite, dvseek = Lflseek, dvgetc = Lflgetc, dvputc = Lflputc, dvcntl = Lflcontrol,
      dvcsr = 0x0, dvintr = Ionull, dvirq = 0\<rparr>,
   \<lparr>dvnum = 23, dvminor = 5, dvname = ''LFILE5'', dvinit = Lflinit, dvopen = Ioerr, dvclose = Lflclose,
      dvread = Lflread, dvwrite = Lflwrite, dvseek = Lflseek, dvgetc = Lflgetc, dvputc = Lflputc, dvcntl = Lflcontrol,
      dvcsr = 0x0, dvintr = Ionull, dvirq = 0\<rparr>]"

definition devtab :: "int \<Rightarrow> dentry" where
  "devtab i = devtab_list ! nat i"

section \<open>Operations\<close>

type_synonym 'a drivers = "devfn \<Rightarrow> dentry \<Rightarrow> u32 list \<Rightarrow> 'a ks \<Rightarrow> (int \<times> 'a ks) option"

definition ioerr :: "'a ks \<Rightarrow> int \<times> 'a ks" where
  "ioerr s = (SYSERR, s)"

definition ionull :: "'a ks \<Rightarrow> int \<times> 'a ks" where
  "ionull s = (OK, s)"

text \<open>The call through a function pointer of the table.\<close>

definition devcall :: "'a drivers \<Rightarrow> 'a drivers" where
  "devcall drv f d args s =
     (case f of Ioerr \<Rightarrow> Some (ioerr s) | Ionull \<Rightarrow> Some (ionull s) | _ \<Rightarrow> drv f d args s)"

definition dev_init :: "'a drivers \<Rightarrow> int \<Rightarrow> 'a ks \<Rightarrow> (int \<times> 'a ks) option" where
  "dev_init drv descrp s =
     (if isbaddev descrp then Some (SYSERR, s)
      else let d = devtab descrp in devcall drv (dvinit d) d [] s)"

definition dev_open :: "'a drivers \<Rightarrow> int \<Rightarrow> addr \<Rightarrow> addr \<Rightarrow> 'a ks \<Rightarrow> (int \<times> 'a ks) option" where
  "dev_open drv descrp name mode s =
     (if isbaddev descrp then Some (SYSERR, s)
      else let d = devtab descrp in devcall drv (dvopen d) d [name, mode] s)"

definition dev_close :: "'a drivers \<Rightarrow> int \<Rightarrow> 'a ks \<Rightarrow> (int \<times> 'a ks) option" where
  "dev_close drv descrp s =
     (if isbaddev descrp then Some (SYSERR, s)
      else let d = devtab descrp in devcall drv (dvclose d) d [] s)"

definition dev_read :: "'a drivers \<Rightarrow> int \<Rightarrow> addr \<Rightarrow> u32 \<Rightarrow> 'a ks \<Rightarrow> (int \<times> 'a ks) option" where
  "dev_read drv descrp buffer count s =
     (if isbaddev descrp then Some (SYSERR, s)
      else let d = devtab descrp in devcall drv (dvread d) d [buffer, count] s)"

definition dev_write :: "'a drivers \<Rightarrow> int \<Rightarrow> addr \<Rightarrow> u32 \<Rightarrow> 'a ks \<Rightarrow> (int \<times> 'a ks) option" where
  "dev_write drv descrp buffer count s =
     (if isbaddev descrp then Some (SYSERR, s)
      else let d = devtab descrp in devcall drv (dvwrite d) d [buffer, count] s)"

definition dev_seek :: "'a drivers \<Rightarrow> int \<Rightarrow> u32 \<Rightarrow> 'a ks \<Rightarrow> (int \<times> 'a ks) option" where
  "dev_seek drv descrp pos s =
     (if isbaddev descrp then Some (SYSERR, s)
      else let d = devtab descrp in devcall drv (dvseek d) d [pos] s)"

definition dev_getc :: "'a drivers \<Rightarrow> int \<Rightarrow> 'a ks \<Rightarrow> (int \<times> 'a ks) option" where
  "dev_getc drv descrp s =
     (if isbaddev descrp then Some (SYSERR, s)
      else let d = devtab descrp in devcall drv (dvgetc d) d [] s)"

definition dev_putc :: "'a drivers \<Rightarrow> int \<Rightarrow> u8 \<Rightarrow> 'a ks \<Rightarrow> (int \<times> 'a ks) option" where
  "dev_putc drv descrp ch s =
     (if isbaddev descrp then Some (SYSERR, s)
      else let d = devtab descrp in devcall drv (dvputc d) d [signed ch] s)"

definition dev_control :: "'a drivers \<Rightarrow> int \<Rightarrow> u32 \<Rightarrow> u32 \<Rightarrow> u32 \<Rightarrow> 'a ks \<Rightarrow> (int \<times> 'a ks) option" where
  "dev_control drv descrp func arg1 arg2 s =
     (if isbaddev descrp then Some (SYSERR, s)
      else let d = devtab descrp in devcall drv (dvcntl d) d [func, arg1, arg2] s)"

text \<open>
  \<open>getdev\<close>: \<open>name_at i\<close> is the address at which the linker put the name of device \<open>i\<close>. The first
  argument of the loop is the number of devices left.
\<close>

abbreviation (input) DEVNAMLEN :: int where "DEVNAMLEN \<equiv> 16"

fun getdev_loop :: "nat \<Rightarrow> bytes \<Rightarrow> (int \<Rightarrow> addr) \<Rightarrow> addr \<Rightarrow> int \<Rightarrow> int" where
  "getdev_loop 0 m name_at devname i = SYSERR"
| "getdev_loop (Suc n) m name_at devname i =
     (if strncmp m devname (name_at i) DEVNAMLEN \<noteq> 0 then i
      else getdev_loop n m name_at devname (i + 1))"

definition getdev :: "(int \<Rightarrow> addr) \<Rightarrow> addr \<Rightarrow> 'a ks \<Rightarrow> int" where
  "getdev name_at devname s = getdev_loop 24 (mem s) name_at devname 0"

section \<open>The table\<close>

lemma devtab_length: "length devtab_list = 24"
  by (simp add: devtab_list_def)

definition ascii :: "string \<Rightarrow> u8 list" where
  "ascii = map (\<lambda>c. of_nat (of_char c))"

lemma devtab_console [simp]: "dvclose (devtab 0) = Ionull" "dvinit (devtab 0) = Ttyinit"
  by (simp_all add: devtab_def devtab_list_def)

lemma close_console [simp]: "dev_close drv 0 s = Some (OK, s)"
  by (simp add: dev_close_def isbaddev_def devcall_def ionull_def)

lemma names_differ:
  "\<forall>d \<in> set (tl devtab_list). take 16 (ascii (dvname d)) \<noteq> take 16 (ascii ''CONSOLE'')"
  "dvname (devtab 0) = ''CONSOLE''"
  by code_simp+

lemma getdev_wrong:
  assumes "cstr (mem s) devname (ascii (dvname (devtab i)))" "0 \<le> i" "i < NDEVS"
    "\<forall>j \<in> {0..<NDEVS}. cstr (mem s) (name_at j) (ascii (dvname (devtab j)))"
  shows "getdev name_at devname s = (if i = 0 then 1 else 0)"
proof -
  have tl: "devtab j \<in> set (tl devtab_list)" if j: "0 < j" "j < NDEVS" for j
  proof -
    obtain k where k: "nat j = Suc k" using j(1) by (cases "nat j") auto
    moreover have "k < length (tl devtab_list)" using j k devtab_length by simp
    ultimately show ?thesis by (simp add: devtab_def nth_tl [symmetric])
  qed
  have cmp: "strncmp (mem s) devname (name_at j) 16 = 0 \<longleftrightarrow>
      take 16 (ascii (dvname (devtab i))) = take 16 (ascii (dvname (devtab j)))" if "j \<in> {0..<NDEVS}" for j
    using strncmp_loop_cstr [OF assms(1), of "name_at j" "ascii (dvname (devtab j))" 16] assms(4) that
    by (simp add: strncmp_def)
  show ?thesis
  proof (cases "i = 0")
    case True
    have "take 16 (ascii (dvname (devtab 1))) \<noteq> take 16 (ascii (dvname (devtab 0)))"
      using names_differ tl [of 1] by simp
    then show ?thesis using True cmp [of 0] cmp [of 1] by (simp add: getdev_def eval_nat_numeral)
  next
    case False
    then have "take 16 (ascii (dvname (devtab i))) \<noteq> take 16 (ascii (dvname (devtab 0)))"
      using names_differ tl [of i] assms(2,3) by simp
    then show ?thesis using False cmp [of 0] by (simp add: getdev_def eval_nat_numeral)
  qed
qed

section \<open>Properties\<close>

text \<open>
  a descriptor out of range gives \<open>SYSERR\<close> for every operation, and no driver is called: the
  kernel is as it was.
\<close>

theorem bad_device_rejected:
  assumes "isbaddev d"
  shows "dev_init drv d s = Some (SYSERR, s) \<and> dev_open drv d name mode s = Some (SYSERR, s) \<and>
    dev_close drv d s = Some (SYSERR, s) \<and> dev_read drv d buf n s = Some (SYSERR, s) \<and>
    dev_write drv d buf n s = Some (SYSERR, s) \<and> dev_seek drv d pos s = Some (SYSERR, s) \<and>
    dev_getc drv d s = Some (SYSERR, s) \<and> dev_putc drv d ch s = Some (SYSERR, s) \<and>
    dev_control drv d fn a1 a2 s = Some (SYSERR, s)"
  using assms by (simp add: dev_init_def dev_open_def dev_close_def dev_read_def dev_write_def
      dev_seek_def dev_getc_def dev_putc_def dev_control_def)

text \<open>
  every row of the switch table stands at its own device number, so an operation passes its
  driver the entry of the descriptor it was called with.
\<close>

theorem devtab_rows_numbered:
  "map (\<lambda>i. dvnum (devtab i)) [0..23] = [0..23] \<and> distinct (map (\<lambda>i. dvname (devtab i)) [0..23])"
  by code_simp

text \<open>
  \<open>getdev\<close> tests the result of \<open>strncmp\<close> the wrong way round: it returns the first device
  whose name is different from the one asked for, so every device is found as device 0, except
  device 0 itself, which is found as device 1.
\<close>

theorem getdev_finds_wrong_device:
  assumes "cstr (mem s) devname (ascii (dvname (devtab i)))" "0 \<le> i" "i < NDEVS"
    "\<forall>j \<in> {0..<NDEVS}. cstr (mem s) (name_at j) (ascii (dvname (devtab j)))"
  shows "getdev name_at devname s = (if i = 0 then 1 else 0)"
  using getdev_wrong [OF assms] .

end
