(* ===== verification/Processes.thy ===== *)
theory Processes
  imports Devices Heap
begin

text \<open>
  The life of a process: \<^verbatim>\<open>system/create.c\<close>, \<^verbatim>\<open>rcreate.c\<close>, \<^verbatim>\<open>kill.c\<close>, \<^verbatim>\<open>userret.c\<close>, \<^verbatim>\<open>exit.c\<close>
  and \<^verbatim>\<open>xdone.c\<close>. A new process gets a free entry of the table, a stack from the top of the
  heap, and on it the frame \<open>ctxsw\<close> will restore. \<open>initret\<close> is the address of \<open>userret\<close>; the
  arguments of the function are a list. Killing the last user process halts the machine
  (\<open>Halted\<close>); a process that kills itself does not come back (\<open>Blocked\<close>).

  The lemmas show that creation finds a free entry whenever there is one, what is on the new
  stack, and that creation and death keep the kernel invariant.
\<close>

section \<open>Operations\<close>

text \<open>The search for a free entry; the first argument is the number of tries left.\<close>

fun newpid_loop :: "nat \<Rightarrow> 'a ks \<Rightarrow> int \<times> 'a ks" where
  "newpid_loop 0 s = (SYSERR, s)"
| "newpid_loop (Suc n) s =
     (let s = s\<lparr>nextpid := nextpid s mod NPROC\<rparr>;
          p = nextpid s;
          s' = s\<lparr>nextpid := nextpid s + 1\<rparr>
      in if prstate (proctab s p) = PR_FREE then (p, s') else newpid_loop n s')"

definition newpid :: "'a ks \<Rightarrow> int \<times> 'a ks" where
  "newpid s = newpid_loop 100 s"

text \<open>\<open>rcreate.c\<close> has a \<open>newpid\<close> and a search index of its own.\<close>

fun rnewpid_loop :: "nat \<Rightarrow> 'a ks \<Rightarrow> int \<times> 'a ks" where
  "rnewpid_loop 0 s = (SYSERR, s)"
| "rnewpid_loop (Suc n) s =
     (let s = s\<lparr>rnextpid := rnextpid s mod NPROC\<rparr>;
          p = rnextpid s;
          s' = s\<lparr>rnextpid := rnextpid s + 1\<rparr>
      in if prstate (proctab s p) = PR_FREE then (p, s') else rnewpid_loop n s')"

definition rnewpid :: "'a ks \<Rightarrow> int \<times> 'a ks" where
  "rnewpid s = rnewpid_loop 100 s"

abbreviation (input) PNMLEN :: nat where "PNMLEN \<equiv> 16"

text \<open>Copying the name: at most \<open>n\<close> more bytes, from index \<open>i\<close>, up to the NUL.\<close>

fun copy_name :: "nat \<Rightarrow> nat \<Rightarrow> bytes \<Rightarrow> addr \<Rightarrow> u8 list \<Rightarrow> u8 list" where
  "copy_name 0 i m name nm = nm"
| "copy_name (Suc n) i m name nm =
     (let c = m (name + word_of_nat i); nm = nm[i := c]
      in if c = 0 then nm else copy_name n (i + 1) m name nm)"

definition push :: "u32 \<Rightarrow> addr \<times> 'a ks \<Rightarrow> addr \<times> 'a ks" where
  "push v = (\<lambda>(sp, s). (sp - 4, wrk (sp - 4) v s))"

text \<open>The stack of a process that is to start at \<open>funcaddr\<close>, from \<open>*saddr = STACKMAGIC\<close> on.\<close>

definition init_stack :: "int \<Rightarrow> addr \<Rightarrow> addr \<Rightarrow> u32 list \<Rightarrow> addr \<Rightarrow> 'a ks \<Rightarrow> 'a ks" where
  "init_stack pid initret funcaddr args saddr s =
     (let s = wrk saddr STACKMAGIC s;
          savsp = saddr;
          (sp, s) = fold push (rev args) (saddr, s);
          (sp, s) = push initret (sp, s);
          (sp, s) = push funcaddr (sp, s);
          (sp, s) = push savsp (sp, s);
          savsp = sp;
          (sp, s) = push 0x200 (sp, s);
          (sp, s) = push 0 (sp, s);
          (sp, s) = push 0 (sp, s);
          (sp, s) = push 0 (sp, s);
          (sp, s) = push 0 (sp, s);
          (sp, s) = push 0 (sp, s);
          pushsp = sp;
          (sp, s) = push savsp (sp, s);
          (sp, s) = push 0 (sp, s);
          (sp, s) = push 0 (sp, s);
          s = upd_proc pid (\<lambda>p. p\<lparr>prstkptr := sp\<rparr>) s
      in wrk pushsp sp s)"

text \<open>Filling in the table entry: the common part, then what only \<open>create\<close> sets.\<close>

definition basic_entry :: "int \<Rightarrow> addr \<Rightarrow> u32 \<Rightarrow> int \<Rightarrow> addr \<Rightarrow> 'a ks \<Rightarrow> 'a ks" where
  "basic_entry pid saddr ssize priority name s =
     (let s = s\<lparr>prcount := prcount s + 1\<rparr>
      in upd_proc pid (\<lambda>p. p\<lparr>prstate := PR_SUSP, prprio := priority, prstkbase := saddr,
           prstklen := ssize, prname := copy_name (PNMLEN - 1) 0 (mem s) name ((prname p)[PNMLEN - 1 := 0]),
           prsem := -1, prparent := getpid s, prhasmsg := 0\<rparr>) s)"

definition set_descriptors :: "int \<Rightarrow> 'a ks \<Rightarrow> 'a ks" where
  "set_descriptors pid =
     upd_proc pid (\<lambda>p. p\<lparr>prdesc := (prdesc p)[0 := CONSOLE, 1 := CONSOLE, 2 := CONSOLE]\<rparr>)"

definition init_entry :: "int \<Rightarrow> addr \<Rightarrow> u32 \<Rightarrow> int \<Rightarrow> addr \<Rightarrow> 'a ks \<Rightarrow> 'a ks" where
  "init_entry pid saddr ssize priority name s =
     (let s = basic_entry pid saddr ssize priority name s;
          hd = prheaphd (proctab s pid);
          s = wrk hd NULL s;
          s = wrk (hd + 4) NULL s;
          s = wrk (hd + 8) NULL s;
          s = set_descriptors pid s
      in upd_proc pid (\<lambda>p. p\<lparr>prcbvalid := 0, prcbptr := NULL, prmbufptr := NULL,
           prtmpbuf := 0, prtmpvalid := 0\<rparr>) s)"

definition create :: "addr \<Rightarrow> addr \<Rightarrow> u32 \<Rightarrow> int \<Rightarrow> addr \<Rightarrow> u32 list \<Rightarrow> 'a ks \<Rightarrow> (int \<times> 'a ks) option" where
  "create initret funcaddr ssize priority name args s =
     (let ssize = (if ssize < MINSTK then MINSTK else ssize);
          ssize = roundmb ssize
      in if priority < 1 then Some (SYSERR, s)
         else
           let (pid, s) = newpid s in
           if pid = SYSERR then Some (SYSERR, s)
           else do {
             (saddr, s) \<leftarrow> getstk ssize s;
             if saddr = SYSERR32 then Some (SYSERR, s)
             else Some (pid, init_stack pid initret funcaddr args saddr
                    (init_entry pid saddr ssize priority name s))
           })"

definition rcreate :: "addr \<Rightarrow> addr \<Rightarrow> u32 \<Rightarrow> int \<Rightarrow> addr \<Rightarrow> u32 list \<Rightarrow> 'a ks \<Rightarrow> (int \<times> 'a ks) option" where
  "rcreate initret funcaddr ssize priority name args s =
     (let ssize = (if ssize < MINSTK then MINSTK else ssize);
          ssize = roundmb ssize
      in if priority < 1 then Some (SYSERR, s)
         else
           let (pid, s) = rnewpid s in
           if pid = SYSERR then Some (SYSERR, s)
           else do {
             (saddr, s) \<leftarrow> getstk ssize s;
             if saddr = SYSERR32 then Some (SYSERR, s)
             else do {
               let s = set_descriptors pid (basic_entry pid saddr ssize priority name s);
               let s = init_stack pid initret funcaddr args saddr s;
               (_, s) \<leftarrow> ready pid s;
               Some (pid, s)
             }
           })"

text \<open>
  \<open>kill\<close>. A process that kills itself is rescheduled away and never runs again, unless
  rescheduling is deferred: then it goes on to the code of the sleeping case, into which the
  \<open>switch\<close> falls through.
\<close>

definition free_entry :: "int \<Rightarrow> 'a ks \<Rightarrow> 'a ks" where
  "free_entry pid = upd_proc pid (\<lambda>p. p\<lparr>prstate := PR_FREE\<rparr>)"

definition kill_switch :: "int \<Rightarrow> 'a ks \<Rightarrow> (int ctl \<times> 'a ks) option" where
  "kill_switch pid s =
     (case prstate (proctab s pid) of
        PR_CURR \<Rightarrow> do {
          s \<leftarrow> resched (free_entry pid s);
          if currpid s = pid then let (_, s) = unsleep pid s in Some (Ret OK, free_entry pid s)
          else Some (Blocked, s)
        }
      | PR_SLEEP \<Rightarrow> let (_, s) = unsleep pid s in Some (Ret OK, free_entry pid s)
      | PR_RECTIM \<Rightarrow> let (_, s) = unsleep pid s in Some (Ret OK, free_entry pid s)
      | PR_WAIT \<Rightarrow>
          let s = upd_sem (prsem (proctab s pid)) (\<lambda>e. e\<lparr>scount := scount e + 1\<rparr>) s;
              (_, s) = getitem pid s
          in Some (Ret OK, free_entry pid s)
      | PR_READY \<Rightarrow> let (_, s) = getitem pid s in Some (Ret OK, free_entry pid s)
      | _ \<Rightarrow> Some (Ret OK, free_entry pid s))"

definition kill :: "'a drivers \<Rightarrow> int \<Rightarrow> 'a ks \<Rightarrow> (int ctl \<times> 'a ks) option" where
  "kill drv pid s =
     (if isbadpid pid s \<or> pid = NULLPROC \<or> prstate (proctab s pid) = PR_FREE then Some (Ret SYSERR, s)
      else
        let s = s\<lparr>prcount := prcount s - 1\<rparr> in
        if prcount s \<le> 1 then Some (Halted, s)
        else do {
          (_, s) \<leftarrow> send (prparent (proctab s pid)) (word_of_int pid) s;
          (_, s) \<leftarrow> dev_close drv (prdesc (proctab s pid) ! 0) s;
          (_, s) \<leftarrow> dev_close drv (prdesc (proctab s pid) ! 1) s;
          (_, s) \<leftarrow> dev_close drv (prdesc (proctab s pid) ! 2) s;
          (_, s) \<leftarrow> freestk (prstkbase (proctab s pid)) (prstklen (proctab s pid)) s;
          kill_switch pid s
        })"

definition userret :: "'a drivers \<Rightarrow> 'a ks \<Rightarrow> (int ctl \<times> 'a ks) option" where
  "userret drv s = kill drv (getpid s) s"

definition exit_proc :: "'a drivers \<Rightarrow> 'a ks \<Rightarrow> (int ctl \<times> 'a ks) option" where
  "exit_proc drv s = kill drv (getpid s) s"

section \<open>Finding a free entry\<close>

lemma newpid_loop_result:
  "newpid_loop n s = (p, s') \<Longrightarrow> \<exists>j. s' = s\<lparr>nextpid := j\<rparr> \<and>
     (p \<noteq> SYSERR \<longrightarrow> p \<in> {0..<NPROC} \<and> prstate (proctab s p) = PR_FREE)"
proof (induction n arbitrary: s)
  case 0
  then show ?case by (intro exI [of _ "nextpid s"]) simp
next
  case (Suc n)
  let ?p = "nextpid s mod NPROC"
  show ?case
  proof (cases "prstate (proctab s ?p) = PR_FREE")
    case True
    then have "p = ?p" "s' = s\<lparr>nextpid := ?p + 1\<rparr>" using Suc.prems by (auto simp: Let_def)
    then show ?thesis using True by auto
  next
    case False
    then have "newpid_loop n (s\<lparr>nextpid := ?p + 1\<rparr>) = (p, s')" using Suc.prems by (simp add: Let_def)
    from Suc.IH [OF this] show ?thesis by auto
  qed
qed

lemma newpid_loop_found:
  "k < n \<Longrightarrow> prstate (proctab s ((nextpid s + int k) mod NPROC)) = PR_FREE \<Longrightarrow> fst (newpid_loop n s) \<noteq> SYSERR"
proof (induction n arbitrary: s k)
  case (Suc n)
  let ?p = "nextpid s mod NPROC"
  have "0 \<le> ?p" by simp
  show ?case
  proof (cases "prstate (proctab s ?p) = PR_FREE")
    case True
    then show ?thesis using \<open>0 \<le> ?p\<close> by (auto simp: Let_def)
  next
    case False
    let ?s = "s\<lparr>nextpid := ?p + 1\<rparr>"
    obtain j where j: "k = Suc j" using Suc.prems(2) False by (cases k) auto
    have "(nextpid ?s + int j) mod NPROC = (nextpid s mod NPROC + (1 + int j)) mod NPROC"
      by (simp add: add.assoc)
    also have "\<dots> = (nextpid s + int k) mod NPROC" unfolding j by (simp only: mod_add_left_eq of_nat_Suc)
    finally have "(nextpid ?s + int j) mod NPROC = (nextpid s + int k) mod NPROC" .
    then have "fst (newpid_loop n ?s) \<noteq> SYSERR" using Suc.prems j by (intro Suc.IH [of j]) auto
    then show ?thesis using False by (simp add: Let_def)
  qed
qed simp

lemma newpid_finds_free:
  assumes "p \<in> {0..<NPROC}" "prstate (proctab s p) = PR_FREE"
  shows "fst (newpid s) \<noteq> SYSERR"
proof -
  let ?k = "nat ((p - nextpid s) mod NPROC)"
  have "(nextpid s + int ?k) mod NPROC = p" using assms(1) by (simp add: mod_simps)
  with assms(2) newpid_loop_found [of ?k 100 s] show ?thesis by (simp add: newpid_def nat_less_iff)
qed

section \<open>The new stack\<close>

lemma push_apply: "push v (sp, s) = (sp - 4, wrk (sp - 4) v s)"
  by (simp add: push_def)

lemma fold_push:
  "fold push vs (sp, s) = (sp', s') \<Longrightarrow>
     sp' = sp - 4 * word_of_nat (length vs) \<and> (\<exists>m. s' = s\<lparr>mem := m\<rparr>)"
proof (induction vs arbitrary: sp s)
  case Nil
  then show ?case by (auto intro!: exI [of _ "mem s"])
next
  case (Cons v vs)
  from Cons.prems have "fold push vs (sp - 4, wrk (sp - 4) v s) = (sp', s')" by (simp add: push_apply)
  from Cons.IH [OF this] show ?case by (auto simp: wrk_def algebra_simps)
qed

definition frame_words :: "addr \<Rightarrow> addr \<Rightarrow> u32 list \<Rightarrow> addr \<Rightarrow> u32 list" where
  "frame_words initret funcaddr args saddr =
     rev args @ [initret, funcaddr, saddr, 0x200, 0, 0, 0, 0, 0,
       saddr - 4 * word_of_nat (length args + 3), 0, 0]"

definition frame_sp :: "u32 list \<Rightarrow> addr \<Rightarrow> addr" where
  "frame_sp args saddr = saddr - 4 * word_of_nat (length args + 12)"

lemma init_stack_fold:
  "init_stack pid initret funcaddr args saddr s =
     (case fold push (frame_words initret funcaddr args saddr) (saddr, wrk saddr STACKMAGIC s) of
        (sp, s') \<Rightarrow> wrk (sp + 12) sp (upd_proc pid (\<lambda>p. p\<lparr>prstkptr := sp\<rparr>) s'))"
proof -
  obtain sp s' where f: "fold push (rev args) (saddr, wrk saddr STACKMAGIC s) = (sp, s')" by force
  have "sp = saddr - 4 * word_of_nat (length args)" using fold_push [OF f] by simp
  then have e: "saddr - 4 * word_of_nat (length args + 3) = sp - 12" by (simp add: algebra_simps)
  show ?thesis
    unfolding frame_words_def e init_stack_def Let_def f
    by (simp add: push_apply f)
qed

lemma aligned4_minus4: "aligned4 a \<Longrightarrow> aligned4 (a - 4)"
proof -
  assume a: "aligned4 a"
  have "aligned4 (0xFFFFFFFC :: u32)" by (simp add: aligned4_def)
  then have "aligned4 (a + 0xFFFFFFFC)" by (rule aligned4_plus [OF a])
  moreover have "a + 0xFFFFFFFC = a - 4" by simp
  ultimately show ?thesis by (simp only:)
qed

lemma four_times_neq:
  assumes "4 * Suc i < 2 ^ 32"
  shows "sp \<noteq> sp - (4 * word_of_nat (Suc i) :: u32)"
proof
  assume "sp = sp - 4 * word_of_nat (Suc i)"
  then have "(4 * word_of_nat (Suc i) :: u32) = 0" by (metis diff_0_right diff_left_imp_eq)
  then have "(word_of_nat (4 * Suc i) :: u32) = 0" by (simp only: of_nat_mult of_nat_numeral)
  then have "unat (word_of_nat (4 * Suc i) :: u32) = 0" by (simp only: unsigned_0)
  moreover have "unat (word_of_nat (4 * Suc i) :: u32) = 4 * Suc i"
    using assms by (simp only: unat_of_nat len32 mod_less)
  ultimately show False by simp
qed

text \<open>Pushing: the words arrive in order, nothing above changes.\<close>

lemma push_read:
  assumes "aligned4 sp" "4 * length vs < 2 ^ 32"
  shows "(\<forall>i < length vs. rd32 (mem (snd (fold push vs (sp, s)))) (sp - 4 * word_of_nat (Suc i)) = vs ! i) \<and>
    (\<forall>a. aligned4 a \<longrightarrow> (\<forall>i < length vs. a \<noteq> sp - 4 * word_of_nat (Suc i)) \<longrightarrow>
       rd32 (mem (snd (fold push vs (sp, s)))) a = rd32 (mem s) a)"
  using assms
proof (induction vs arbitrary: sp s)
  case (Cons v vs)
  let ?s = "wrk (sp - 4) v s"
  have al: "aligned4 (sp - 4)" by (rule aligned4_minus4 [OF Cons.prems(1)])
  have len: "4 * length vs < 2 ^ 32" using Cons.prems(2) by simp
  note I1 = Cons.IH [OF al len, of ?s, THEN conjunct1, rule_format]
  note I2 = Cons.IH [OF al len, of ?s, THEN conjunct2, rule_format]
  have e: "fold push (v # vs) (sp, s) = fold push vs (sp - 4, ?s)" by (simp add: push_apply)
  have sh: "sp - 4 - 4 * word_of_nat (Suc i) = sp - 4 * word_of_nat (Suc (Suc i))" for i
    by (simp add: algebra_simps)
  have ne: "sp - 4 \<noteq> sp - 4 - 4 * word_of_nat (Suc i)" if "i < length vs" for i
    by (rule four_times_neq) (use that Cons.prems(2) in simp)
  show ?case
  proof (intro conjI allI impI)
    fix i assume i: "i < length (v # vs)"
    show "rd32 (mem (snd (fold push (v # vs) (sp, s)))) (sp - 4 * word_of_nat (Suc i)) = (v # vs) ! i"
    proof (cases i)
      case 0
      have "rd32 (mem (snd (fold push vs (sp - 4, ?s)))) (sp - 4) = rd32 (mem ?s) (sp - 4)"
        by (rule I2 [OF al ne])
      then show ?thesis unfolding e using 0 by (simp add: wrk_def)
    next
      case (Suc j)
      then have "j < length vs" using i by simp
      from I1 [OF this] show ?thesis unfolding e sh Suc by simp
    qed
  next
    fix a assume a: "aligned4 a" "\<forall>i < length (v # vs). a \<noteq> sp - 4 * word_of_nat (Suc i)"
    have "a \<noteq> sp - 4 - 4 * word_of_nat (Suc i)" if "i < length vs" for i
      unfolding sh by (rule a(2) [rule_format]) (use that in simp)
    from I2 [OF a(1) this] have "rd32 (mem (snd (fold push (v # vs) (sp, s)))) a = rd32 (mem ?s) a"
      unfolding e .
    also have "\<dots> = rd32 (mem s) a"
      using a(2) rd32_wr32_other [OF al a(1)] by (force simp: wrk_def)
    finally show "rd32 (mem (snd (fold push (v # vs) (sp, s)))) a = rd32 (mem s) a" .
  qed
qed simp

section \<open>Creating keeps the invariant\<close>

lemma kinv_scalar [simp]:
  "kinv (s\<lparr>mem := m\<rparr>) = kinv s" "kinv (s\<lparr>prcount := n\<rparr>) = kinv s" "kinv (s\<lparr>nextpid := n\<rparr>) = kinv s"
  by (simp_all add: kinv_def running_def sem_ok_def)

lemma roundmb_multiple: "unat (roundmb n) + 7 < 2 ^ 32"
proof -
  have "unat (roundmb n) mod 8 = 0"
  proof -
    have "roundmb n = truncmb (7 + n)" by (simp add: roundmb_def truncmb_def)
    then have "unat (roundmb n) = unat (7 + n) - unat (7 + n) mod 8" by (simp add: unat_truncmb)
    then show ?thesis by presburger
  qed
  then have "unat (roundmb n) + 7 < 4294967296" using unat_lt_2p32 [of "roundmb n"] by presburger
  then show ?thesis by simp
qed

text \<open>Setting the entry of a free process: everything the invariant reads of the others stays.\<close>

lemma kinv_new_entry:
  assumes I: "kinv s" and p: "p \<in> {0..<NPROC}" "prstate (proctab s p) = PR_FREE"
    and e: "prstate (f (proctab s p)) = PR_SUSP" "MINKEY < prprio (f (proctab s p))"
  shows "kinv (upd_proc p f s)"
proof -
  note R = runningD [OF kinv_running [OF I]]
  note D = kbaseD [OF R(1)]
  have nz: "p \<noteq> NULLPROC" using p(2) R(1) by (auto simp: kbase_def)
  have cp: "currpid s \<noteq> p" using R(3) p(2) by auto
  have "kbase ({} - {p}) (upd_proc p f s) (queue_list (queuetab s))"
    by (rule kbase_set_proc [OF R(1) p(1) nz]) (use p e in simp_all)
  moreover have "sem_ok (upd_proc p f s) (queue_list (queuetab s))" using R(2) by (simp add: sem_ok_def)
  ultimately have "running (upd_proc p f s) (queue_list (queuetab s))"
    using R cp by (simp add: running_def)
  then show ?thesis by (rule running_kinv)
qed

lemma init_stack_ok:
  "\<exists>m sp. init_stack pid initret funcaddr args saddr s =
     (upd_proc pid (\<lambda>p. p\<lparr>prstkptr := sp\<rparr>) s)\<lparr>mem := m\<rparr>"
proof -
  obtain sp s' where f: "fold push (frame_words initret funcaddr args saddr) (saddr, wrk saddr STACKMAGIC s) = (sp, s')"
    by force
  obtain m where "s' = (wrk saddr STACKMAGIC s)\<lparr>mem := m\<rparr>" using fold_push [OF f] by blast
  then have "init_stack pid initret funcaddr args saddr s =
      (upd_proc pid (\<lambda>p. p\<lparr>prstkptr := sp\<rparr>) s)\<lparr>mem := wr32 m (sp + 12) sp\<rparr>"
    unfolding init_stack_fold f by (simp add: wrk_def upd_proc_def)
  then show ?thesis by blast
qed

lemma getstk_frame: "getstk n s = Some (a, s') \<Longrightarrow> \<exists>m. s' = s\<lparr>mem := m\<rparr>"
proof -
  have id: "\<exists>m. s = s\<lparr>mem := m\<rparr>" by (intro exI [of _ "mem s"]) simp
  assume "getstk n s = Some (a, s')"
  then show ?thesis using id
    by (auto simp: getstk_def Let_def wrk_def split: if_splits Option.bind_splits)
qed

lemma basic_entry_ok:
  "\<exists>f. basic_entry pid saddr sz priority name s = (upd_proc pid f s)\<lparr>prcount := prcount s + 1\<rparr> \<and>
     (\<forall>e. prstate (f e) = PR_SUSP \<and> prprio (f e) = priority \<and> prparent (f e) = currpid s)"
  by (intro exI [of _ "\<lambda>p. p\<lparr>prstate := PR_SUSP, prprio := priority, prstkbase := saddr, prstklen := sz,
     prname := copy_name 15 0 (mem s) name ((prname p)[15 := 0]), prsem := -1, prparent := currpid s, prhasmsg := 0\<rparr>"])
    (simp add: basic_entry_def upd_proc_def getpid_def)

lemma upd_proc_twice: "upd_proc p g (upd_proc p f s) = upd_proc p (g \<circ> f) s"
  by (simp add: upd_proc_def)

lemma init_entry_ok:
  "\<exists>f m. init_entry pid saddr sz priority name s = (upd_proc pid f s)\<lparr>prcount := prcount s + 1, mem := m\<rparr> \<and>
     (\<forall>e. prstate (f e) = PR_SUSP \<and> prprio (f e) = priority \<and> prparent (f e) = currpid s)"
proof -
  obtain f where f: "basic_entry pid saddr sz priority name s = (upd_proc pid f s)\<lparr>prcount := prcount s + 1\<rparr>"
    "\<forall>e. prstate (f e) = PR_SUSP \<and> prprio (f e) = priority \<and> prparent (f e) = currpid s"
    using basic_entry_ok by blast
  let ?g = "\<lambda>p. p\<lparr>prcbvalid := 0, prcbptr := NULL, prmbufptr := NULL, prtmpbuf := 0, prtmpvalid := 0\<rparr>"
  let ?h = "\<lambda>p. p\<lparr>prdesc := (prdesc p)[0 := CONSOLE, 1 := CONSOLE, 2 := CONSOLE]\<rparr>"
  let ?hd = "prheaphd (f (proctab s pid))"
  let ?m = "wr32 (wr32 (wr32 (mem s) ?hd 0) (?hd + 4) 0) (?hd + 8) 0"
  have "init_entry pid saddr sz priority name s =
      (upd_proc pid (?g \<circ> ?h \<circ> f) s)\<lparr>prcount := prcount s + 1, mem := ?m\<rparr>"
    unfolding init_entry_def Let_def f(1) set_descriptors_def
    by (rule kstate.equality) (simp_all add: wrk_def upd_proc_def)
  moreover have "\<forall>e. prstate ((?g \<circ> ?h \<circ> f) e) = PR_SUSP \<and> prprio ((?g \<circ> ?h \<circ> f) e) = priority \<and>
      prparent ((?g \<circ> ?h \<circ> f) e) = currpid s" using f(2) by simp
  ultimately show ?thesis by blast
qed

lemma create_steps:
  assumes c: "create initret funcaddr ssize priority name args s = Some (r, s')" and ok: "r \<noteq> SYSERR"
  obtains j m f m2 sp where "1 \<le> priority" "r \<in> {0..<NPROC}" "prstate (proctab s r) = PR_FREE"
    "s' = (upd_proc r (\<lambda>p. p\<lparr>prstkptr := sp\<rparr>) ((upd_proc r f (s\<lparr>nextpid := j, mem := m\<rparr>))\<lparr>prcount := prcount s + 1\<rparr>))\<lparr>mem := m2\<rparr>"
    "\<forall>e. prstate (f e) = PR_SUSP \<and> prprio (f e) = priority \<and> prparent (f e) = currpid s"
proof -
  let ?size = "roundmb (if ssize < MINSTK then MINSTK else ssize)"
  have pr: "1 \<le> priority" using c ok by (auto simp: create_def Let_def split: if_splits)
  obtain pid s1 where n: "newpid s = (pid, s1)" by force
  have pid: "pid \<noteq> SYSERR" using c ok n pr by (auto simp: create_def Let_def)
  obtain j where s1: "s1 = s\<lparr>nextpid := j\<rparr>" "pid \<in> {0..<NPROC}" "prstate (proctab s pid) = PR_FREE"
    using newpid_loop_result [of 100 s pid s1] n pid by (auto simp: newpid_def)
  obtain saddr s2 where g: "getstk ?size s1 = Some (saddr, s2)"
    using c n pid pr by (cases "getstk ?size s1") (auto simp: create_def Let_def)
  obtain m where s2: "s2 = s1\<lparr>mem := m\<rparr>" using getstk_frame [OF g] by blast
  have "saddr \<noteq> SYSERR32" using c n pid pr g ok by (auto simp: create_def Let_def)
  then have r: "r = pid" "s' = init_stack pid initret funcaddr args saddr (init_entry pid saddr ?size priority name s2)"
    using c n pid pr g by (auto simp: create_def Let_def)
  obtain f m1 where e: "init_entry pid saddr ?size priority name s2 = (upd_proc pid f s2)\<lparr>prcount := prcount s2 + 1, mem := m1\<rparr>"
    "\<forall>e. prstate (f e) = PR_SUSP \<and> prprio (f e) = priority \<and> prparent (f e) = currpid s2"
    using init_entry_ok by blast
  obtain m2 sp where i: "s' = (upd_proc pid (\<lambda>p. p\<lparr>prstkptr := sp\<rparr>) (init_entry pid saddr ?size priority name s2))\<lparr>mem := m2\<rparr>"
    using init_stack_ok r(2) by metis
  show ?thesis
    by (rule that [where j = j and m = m and f = f and ?m2.0 = m2 and sp = sp]) (use pr r(1) s1 i e s2 in \<open>simp_all add: upd_proc_def\<close>)
qed

lemma create_result:
  assumes I: "kinv s" and c: "create initret funcaddr ssize priority name args s = Some (r, s')"
    and ok: "r \<noteq> SYSERR"
  shows "1 \<le> priority \<and> r \<in> {0..<NPROC} \<and> prstate (proctab s r) = PR_FREE \<and> kinv s' \<and>
    prstate (proctab s' r) = PR_SUSP \<and> prprio (proctab s' r) = priority \<and>
    prparent (proctab s' r) = currpid s \<and> prcount s' = prcount s + 1 \<and>
    (\<forall>p. p \<noteq> r \<longrightarrow> proctab s' p = proctab s p)"
proof -
  obtain j m f m2 sp where h: "1 \<le> priority" "r \<in> {0..<NPROC}" "prstate (proctab s r) = PR_FREE"
    "s' = (upd_proc r (\<lambda>p. p\<lparr>prstkptr := sp\<rparr>) ((upd_proc r f (s\<lparr>nextpid := j, mem := m\<rparr>))\<lparr>prcount := prcount s + 1\<rparr>))\<lparr>mem := m2\<rparr>"
    "\<forall>e. prstate (f e) = PR_SUSP \<and> prprio (f e) = priority \<and> prparent (f e) = currpid s"
    by (rule create_steps [OF c ok])
  have "sched_fields_kept (\<lambda>p. p\<lparr>prstkptr := sp\<rparr>)" by (simp add: sched_fields_kept_def)
  moreover have "kinv (upd_proc r f (s\<lparr>nextpid := j, mem := m\<rparr>))"
    by (rule kinv_new_entry) (use I h in simp_all)
  ultimately have "kinv s'" using h(4) by (simp add: kinv_upd_proc)
  with h show ?thesis by (simp add: upd_proc_def)
qed

section \<open>Killing keeps the invariant\<close>

text \<open>A queued process leaves its queue.\<close>

lemma leave_queue:
  assumes K: "kbase {} s Q" and q: "q \<in> qids (nextqid s)" and p: "p \<in> set (Q q)" "p \<noteq> NULLPROC"
  obtains qt where "getitem p s = (p, s\<lparr>queuetab := qt\<rparr>)"
    "kbase {p} (s\<lparr>queuetab := qt\<rparr>) (Q(q := remove1 p (Q q)))"
proof -
  note D = kbaseD [OF K]
  obtain qt where g: "getitem p s = (p, s\<lparr>queuetab := qt\<rparr>)"
    "qrep qt (nextqid s) (Q(q := remove1 p (Q q)))" "\<forall>x. qkey (qt x) = qkey (queuetab s x)"
    using getitem_qrep [OF D(1) q p(1)] by blast
  from p(1) obtain us vs where uv: "Q q = us @ p # vs" "p \<notin> set us" by (metis split_list_first)
  have rem: "remove1 p (Q q) = us @ vs" using uv by (simp add: remove1_append)
  have "kbase (insert p {}) (s\<lparr>queuetab := qt\<rparr>) (Q(q := us @ vs))"
  proof (rule kbase_leave [OF K q uv(1) _ p(2)])
    show "qrep qt (nextqid s) (Q(q := us @ vs))" using g(2) unfolding rem .
    show "qkey (qt x) = qkey (queuetab s x)" for x using g(3) by blast
    show "0 \<le> qkey (qt x)" if "x \<in> set ((Q(q := us @ vs)) (sleepq s))" for x
    proof -
      have "x \<in> set (Q (sleepq s))" using that uv(1) by (auto split: if_splits)
      then show ?thesis using sleep_keys [OF K] g(3) by simp
    qed
  qed
  then show ?thesis unfolding rem [symmetric] by (rule that [OF g(1)])
qed

lemma free_entry_kbase:
  assumes K: "kbase {p} s Q" and p: "p \<in> {0..<NPROC}" "p \<noteq> NULLPROC"
  shows "kbase {} (free_entry p s) Q"
proof -
  have "kbase ({p} - {p}) (free_entry p s) Q"
    unfolding free_entry_def
    by (rule kbase_set_proc [OF K p]) (use kbaseD(8) [OF K p(1)] in simp_all)
  then show ?thesis by simp
qed

lemma free_entry_simps [simp]:
  "semtab (free_entry p s) = semtab s" "currpid (free_entry p s) = currpid s" "ndefers (free_entry p s) = ndefers s"
  "proctab (free_entry p s) = (proctab s)(p := (proctab s p)\<lparr>prstate := PR_FREE\<rparr>)"
  by (simp_all add: free_entry_def)

text \<open>The three kinds of queued victim share this step.\<close>

lemma free_running:
  assumes K: "kbase {p} s Q" and p: "p \<in> {0..<NPROC}" "p \<noteq> NULLPROC" and so: "sem_ok s Q"
    and c: "prstate (proctab s (currpid s)) = PR_CURR" "currpid s \<noteq> p" "ndefers s = 0"
  shows "running (free_entry p s) Q"
  using free_entry_kbase [OF K p] so c by (simp add: running_def sem_ok_def)

lemma kill_switch_ok:
  assumes I: "kinv s" and p: "p \<in> {0..<NPROC}" "p \<noteq> NULLPROC" and nf: "prstate (proctab s p) \<noteq> PR_FREE"
  shows "\<exists>r s'. kill_switch p s = Some (r, s') \<and> kinv s' \<and> prstate (proctab s' p) = PR_FREE"
proof -
  let ?Q = "queue_list (queuetab s)"
  note R = runningD [OF kinv_running [OF I]]
  note D = kbaseD [OF R(1)]
  have cur: "currpid s \<noteq> p" if "prstate (proctab s p) \<noteq> PR_CURR" using R(3) that by auto
  have fin: ?thesis if "kill_switch p s = Some (Ret OK, free_entry p t)" "running (free_entry p t) Q" for t Q
    using that running_kinv by (intro exI [of _ "Ret OK"] exI [of _ "free_entry p t"]) simp
  consider (cur) "prstate (proctab s p) = PR_CURR"
    | (sleep) "prstate (proctab s p) = PR_SLEEP \<or> prstate (proctab s p) = PR_RECTIM"
    | (wait) "prstate (proctab s p) = PR_WAIT" | (ready) "prstate (proctab s p) = PR_READY"
    | (other) "prstate (proctab s p) = PR_SUSP \<or> prstate (proctab s p) = PR_RECV"
    using nf by (cases "prstate (proctab s p)") auto
  then show ?thesis
  proof cases
    case cur
    then have pc: "p = currpid s" using D(7) [OF p(1)] by simp
    have nz: "currpid s \<noteq> NULLPROC" using p(2) pc by simp
    obtain s' Q' where e: "resched (upd_proc (currpid s) (\<lambda>p. p\<lparr>prstate := PR_FREE\<rparr>) s) = Some s'"
      "running s' Q'" "prstate (proctab s' (currpid s)) = PR_FREE" "currpid s' \<noteq> currpid s"
      by (rule block_current [OF kinv_running [OF I] nz, of PR_FREE]) simp_all
    have "kill_switch p s = Some (Blocked, s')"
      using cur e(1,4) pc by (simp add: kill_switch_def free_entry_def)
    then show ?thesis using e(3) running_kinv [OF e(2)] pc by blast
  next
    case sleep
    obtain qt where u: "unsleep p s = (OK, s\<lparr>queuetab := qt\<rparr>)"
      "kbase {p} (s\<lparr>queuetab := qt\<rparr>) (?Q(sleepq s := remove1 p (?Q (sleepq s))))"
      by (rule unsleep_ok [OF R(1) p(1) sleep])
    have "sem_ok s (?Q(sleepq s := remove1 p (?Q (sleepq s))))"
      using R(2) sem_ok_sleepq [OF R(5)] by blast
    then have so: "sem_ok (s\<lparr>queuetab := qt\<rparr>) (?Q(sleepq s := remove1 p (?Q (sleepq s))))"
      by (simp add: sem_ok_def)
    have "kill_switch p s = Some (Ret OK, free_entry p (s\<lparr>queuetab := qt\<rparr>))"
      using sleep u(1) by (auto simp: kill_switch_def)
    then show ?thesis
      using fin free_running [OF u(2) p so] R(3,4) cur sleep by auto
  next
    case wait
    let ?i = "prsem (proctab s p)"
    have i: "?i \<in> {0..<NSEM}" using wait p(1) R(1) by (auto simp: kbase_def)
    let ?q = "squeue (semtab s ?i)"
    have pq: "p \<in> set (?Q ?q)" using D(3) [OF p(1) D(11) [OF i]] belongs_sem [OF D(2) i] wait by simp
    let ?s = "upd_sem ?i (\<lambda>e. e\<lparr>scount := scount e + 1\<rparr>) s"
    have "kbase {} ?s ?Q = kbase {} s ?Q" by (rule kbase_upd_sem) simp
    then have K: "kbase {} ?s ?Q" using R(1) by simp
    have q: "?q \<in> qids (nextqid ?s)" using D(11) [OF i] by simp
    obtain qt where g: "getitem p ?s = (p, ?s\<lparr>queuetab := qt\<rparr>)"
      "kbase {p} (?s\<lparr>queuetab := qt\<rparr>) (?Q(?q := remove1 p (?Q ?q)))"
      by (rule leave_queue [OF K q pq p(2)])
    have so: "sem_ok (?s\<lparr>queuetab := qt\<rparr>) (?Q(?q := remove1 p (?Q ?q)))"
      unfolding sem_ok_def
    proof
      fix j assume j: "j \<in> {0..<NSEM}"
      have l: "length (?Q (squeue (semtab s j))) =
          (if sstate (semtab s j) = S_USED then nat (- scount (semtab s j)) else 0)"
        using R(2) j by (simp add: sem_ok_def)
      show "length ((?Q(?q := remove1 p (?Q ?q))) (squeue (semtab (?s\<lparr>queuetab := qt\<rparr>) j))) =
          (if sstate (semtab (?s\<lparr>queuetab := qt\<rparr>) j) = S_USED
           then nat (- scount (semtab (?s\<lparr>queuetab := qt\<rparr>) j)) else 0)"
      proof (cases "j = ?i")
        case True
        have "0 < length (?Q ?q)" using pq by (cases "?Q ?q") auto
        then show ?thesis using l True pq by (auto simp: length_remove1 split: if_splits)
      next
        case False
        then have "squeue (semtab s j) \<noteq> ?q" using squeue_other [OF D(2) j i] by blast
        with False l show ?thesis by simp
      qed
    qed
    have "kill_switch p s = Some (Ret OK, free_entry p (?s\<lparr>queuetab := qt\<rparr>))"
      using wait g(1) by (simp add: kill_switch_def)
    then show ?thesis using fin free_running [OF g(2) p so] R(3,4) cur wait by simp
  next
    case ready
    have pq: "p \<in> set (?Q (readylist s))" using D(3) [OF p(1) D(9)] belongs_ready [OF D(2)] ready by simp
    obtain qt where g: "getitem p s = (p, s\<lparr>queuetab := qt\<rparr>)"
      "kbase {p} (s\<lparr>queuetab := qt\<rparr>) (?Q(readylist s := remove1 p (?Q (readylist s))))"
      by (rule leave_queue [OF R(1) D(9) pq p(2)])
    have so: "sem_ok (s\<lparr>queuetab := qt\<rparr>) (?Q(readylist s := remove1 p (?Q (readylist s))))"
      using R(2) D(2) by (auto simp: sem_ok_def wiring_def)
    have "kill_switch p s = Some (Ret OK, free_entry p (s\<lparr>queuetab := qt\<rparr>))"
      using ready g(1) by (simp add: kill_switch_def)
    then show ?thesis using fin free_running [OF g(2) p so] R(3,4) cur ready by simp
  next
    case other
    have u: "p \<in> {} \<or> unqueued (prstate (proctab s p))" using other by auto
    have "kbase ({} - {p}) (free_entry p s) ?Q" unfolding free_entry_def
      by (rule kbase_set_proc [OF R(1) p u]) (use D(8) [OF p(1)] in simp_all)
    moreover have "sem_ok (free_entry p s) ?Q" using R(2) by (simp add: sem_ok_def)
    ultimately have run: "running (free_entry p s) ?Q" using R(3,4) cur other by (auto simp: running_def)
    have "kill_switch p s = Some (Ret OK, free_entry p s)" using other by (auto simp: kill_switch_def)
    then show ?thesis using fin run by blast
  qed
qed

section \<open>When creation succeeds\<close>

lemma freemem_frame: "freemem a n s = Some (r, s') \<Longrightarrow> \<exists>m. s' = s\<lparr>mem := m\<rparr>"
proof -
  have id: "\<exists>m. s = s\<lparr>mem := m\<rparr>" by (intro exI [of _ "mem s"]) simp
  have ins: "\<exists>m. t' = t\<lparr>mem := m\<rparr>" if "freemem_insert b k t = Some (q, t')" for b k q and t t' :: "'a ks"
  proof -
    have id: "\<exists>m. t = t\<lparr>mem := m\<rparr>" by (intro exI [of _ "mem t"]) simp
    show ?thesis using that id
      by (auto simp: freemem_insert_def Let_def wrk_def split: if_splits Option.bind_splits)
  qed
  have ext: "\<exists>m. t' = t\<lparr>mem := m\<rparr>" if "memextract h b t = Some t'" for h b and t t' :: "'a ks"
    using that by (auto simp: memextract_def wrk_def split: Option.bind_splits)
  assume f: "freemem a n s = Some (r, s')"
  show ?thesis
  proof (cases "n = 0 \<or> a < minheap s \<or> a > maxheap s")
    case True
    then show ?thesis using f id by (auto simp: freemem_def)
  next
    case False
    then obtain t where t: "memextract (prheaphd (proctab s (currpid s))) a s = Some t"
      "freemem_insert a (roundmb n) t = Some (r, s')"
      using f by (auto simp: freemem_def Let_def split: Option.bind_splits)
    from ext [OF t(1)] ins [OF t(2)] show ?thesis by auto
  qed
qed

lemma getstk_result:
  assumes H: "heap_ok s bs" and n: "n \<noteq> 0" "unat n + 7 < 2 ^ 32"
  shows "\<exists>a s'. getstk n s = Some (a, s') \<and>
    (case alloc_top (roundmb n) bs of None \<Rightarrow> a = SYSERR32 | Some (b, _) \<Rightarrow> a = b + roundmb n - 4)"
proof (cases "alloc_top (roundmb n) bs")
  case None
  then show ?thesis using getstk_none [OF H n(1) None] by simp
next
  case (Some p)
  obtain b bs' where p: "p = (b, bs')" by force
  obtain m' where "getstk n s = Some (b + roundmb n - 4, s\<lparr>mem := m'\<rparr>)"
    by (rule getstk_ok [OF H n]) (use Some p in auto)
  then show ?thesis using Some p by simp
qed

text \<open>A stack never starts at the address that means \<open>SYSERR\<close>: it is a multiple of 4.\<close>

lemma stack_top_aligned:
  assumes H: "heap_ok s bs" and n: "n \<noteq> 0" "unat n + 7 < 2 ^ 32" and A: "alloc_top (roundmb n) bs = Some (b, bs')"
  shows "aligned4 (b + roundmb n - 4)" "b + roundmb n - 4 \<noteq> SYSERR32"
proof -
  have r: "8 dvd unat (roundmb n)" "0 < unat (roundmb n)"
    using roundmb_round8 [OF n(2)] round8_pos n(1) by (simp_all add: unat_gt_0)
  have "8 dvd unat b"
    using alloc_top_blocks(5) [OF A heap_okD(2) [OF H] unat_less_2p32 r(2,1)] .
  then have "aligned4 b" "aligned4 (roundmb n)" using r(1) by (auto intro: aligned4_dvd8)
  then show a: "aligned4 (b + roundmb n - 4)" by (intro aligned4_minus4 aligned4_plus)
  show "b + roundmb n - 4 \<noteq> SYSERR32"
  proof
    assume "b + roundmb n - 4 = SYSERR32"
    with a have "aligned4 SYSERR32" by (simp only:)
    then show False by (simp add: aligned4_def)
  qed
qed

lemma create_ok:
  assumes I: "kinv s" and H: "heap_ok s bs" and p: "p \<in> {0..<NPROC}" "prstate (proctab s p) = PR_FREE"
    and pr: "1 \<le> priority"
    and A: "alloc_top (roundmb (roundmb (if ssize < MINSTK then MINSTK else ssize))) bs \<noteq> None"
    and n: "roundmb (if ssize < MINSTK then MINSTK else ssize) \<noteq> 0"
  shows "\<exists>pid s'. create initret funcaddr ssize priority name args s = Some (pid, s') \<and> pid \<noteq> SYSERR"
proof -
  let ?n = "roundmb (if ssize < MINSTK then MINSTK else ssize)"
  obtain pid s1 where np: "newpid s = (pid, s1)" by force
  have pid: "pid \<noteq> SYSERR" using newpid_finds_free [OF p] np by simp
  obtain j where s1: "s1 = s\<lparr>nextpid := j\<rparr>"
    using newpid_loop_result [of 100 s pid s1] np by (auto simp: newpid_def)
  have H1: "heap_ok s1 bs" using H s1 by (simp add: heap_ok_def)
  obtain b bs' where A': "alloc_top (roundmb ?n) bs = Some (b, bs')" using A by (cases "alloc_top (roundmb ?n) bs") auto
  obtain a s2 where g: "getstk ?n s1 = Some (a, s2)" "a = b + roundmb ?n - 4"
    using getstk_result [OF H1 n roundmb_multiple] A' by auto
  then have "a \<noteq> SYSERR32" using stack_top_aligned(2) [OF H1 n roundmb_multiple A'] by simp
  then show ?thesis using np pid g(1) pr by (simp add: create_def Let_def)
qed

text \<open>The words of a stack are at different addresses.\<close>

lemma slot_neq:
  assumes "i < n" "j < n" "i \<noteq> j" "4 * n < 2 ^ 32"
  shows "saddr - 4 * word_of_nat (Suc i) \<noteq> saddr - (4 * word_of_nat (Suc j) :: u32)"
proof
  assume "saddr - 4 * word_of_nat (Suc i) = saddr - (4 * word_of_nat (Suc j) :: u32)"
  then have "(4 * word_of_nat (Suc i) :: u32) = 4 * word_of_nat (Suc j)" by (metis diff_eq_diff_eq add_left_cancel diff_add_cancel)
  then have "(word_of_nat (4 * Suc i) :: u32) = word_of_nat (4 * Suc j)" by (simp only: of_nat_mult of_nat_numeral)
  then have "unat (word_of_nat (4 * Suc i) :: u32) = unat (word_of_nat (4 * Suc j) :: u32)" by (simp only:)
  moreover have "4 * Suc i < 2 ^ 32" "4 * Suc j < 2 ^ 32" using assms by auto
  ultimately have "4 * Suc i = 4 * Suc j" by (simp only: unat_of_nat len32 mod_less)
  then show False using assms(3) by simp
qed

lemma aligned4_slot: "aligned4 saddr \<Longrightarrow> aligned4 (saddr - 4 * word_of_nat i)"
proof (induction i)
  case (Suc i)
  have "saddr - 4 * word_of_nat (Suc i) = saddr - 4 * word_of_nat i - 4" by (simp add: algebra_simps)
  then show ?case using aligned4_minus4 [OF Suc.IH [OF Suc.prems]] by (simp only:)
qed simp

section \<open>Properties\<close>

text \<open>
  C22: with a free entry and a stack of the size asked for, \<open>create\<close> returns the id of an entry
  that was free; the process is suspended, with the given priority and the caller as its
  parent, no other process changes, and the kernel invariant holds.
\<close>

theorem create_makes_process:
  assumes "kinv s" "heap_ok s bs" "p \<in> {0..<NPROC}" "prstate (proctab s p) = PR_FREE" "1 \<le> priority"
    "alloc_top (roundmb (roundmb (if ssize < MINSTK then MINSTK else ssize))) bs \<noteq> None"
    "roundmb (if ssize < MINSTK then MINSTK else ssize) \<noteq> 0"
  shows "\<exists>pid s'. create initret funcaddr ssize priority name args s = Some (pid, s') \<and>
    pid \<in> {0..<NPROC} \<and> prstate (proctab s pid) = PR_FREE \<and> kinv s' \<and>
    prstate (proctab s' pid) = PR_SUSP \<and> prprio (proctab s' pid) = priority \<and>
    prparent (proctab s' pid) = currpid s \<and> prcount s' = prcount s + 1 \<and>
    (\<forall>q. q \<noteq> pid \<longrightarrow> proctab s' q = proctab s q)"
proof -
  obtain pid s' where c: "create initret funcaddr ssize priority name args s = Some (pid, s')" "pid \<noteq> SYSERR"
    using create_ok [OF assms] by blast
  with create_result [OF assms(1) c] show ?thesis by blast
qed

text \<open>
  C23: the stack \<open>create\<close> prepares. Below the mark \<open>STACKMAGIC\<close> lie the arguments, last one first,
  then the return address \<open>INITRET\<close>, the function, and the registers \<open>ctxsw\<close> pops, with the
  saved stack pointer at its place; the saved pointer of the process is the lowest word.
\<close>

theorem create_stack_frame:
  assumes "aligned4 saddr" "4 * (length args + 13) < 2 ^ 32"
  shows "rd32 (mem (init_stack pid initret funcaddr args saddr s)) saddr = STACKMAGIC \<and>
    prstkptr (proctab (init_stack pid initret funcaddr args saddr s) pid) = frame_sp args saddr \<and>
    (\<forall>i < length args + 12.
      rd32 (mem (init_stack pid initret funcaddr args saddr s)) (saddr - 4 * word_of_nat (Suc i)) =
        (frame_words initret funcaddr args saddr)[length args + 8 := frame_sp args saddr] ! i)"
proof -
  let ?vs = "frame_words initret funcaddr args saddr" and ?s0 = "wrk saddr STACKMAGIC s"
  let ?n = "length args + 12" and ?sp = "frame_sp args saddr"
  have len: "length ?vs = ?n" by (simp add: frame_words_def)
  have big: "4 * length ?vs < 2 ^ 32" using assms(2) len by simp
  obtain sp s' where f: "fold push ?vs (saddr, ?s0) = (sp, s')" by force
  have sp: "sp = ?sp" using fold_push [OF f] len by (simp add: frame_sp_def)
  have e: "init_stack pid initret funcaddr args saddr s =
      wrk (?sp + 12) ?sp (upd_proc pid (\<lambda>p. p\<lparr>prstkptr := ?sp\<rparr>) s')"
    unfolding init_stack_fold f sp by simp
  then have m: "mem (init_stack pid initret funcaddr args saddr s) = wr32 (mem s') (?sp + 12) ?sp"
    by (simp add: wrk_def upd_proc_def)
  have slot: "?sp + 12 = saddr - 4 * word_of_nat (Suc (length args + 8))"
    by (simp add: frame_sp_def algebra_simps)
  note P = push_read [OF assms(1) big, of ?s0]
  have r: "rd32 (mem s') (saddr - 4 * word_of_nat (Suc i)) = ?vs ! i" if "i < ?n" for i
    using P f len that by simp
  have top: "saddr \<noteq> saddr - 4 * word_of_nat (Suc i)" if "i < ?n" for i
    by (rule four_times_neq) (use that assms(2) in simp)
  have "rd32 (mem s') saddr = rd32 (mem ?s0) saddr"
    using P f len top assms(1) by simp
  then have mg: "rd32 (mem s') saddr = STACKMAGIC" by (simp add: wrk_def)
  have al: "aligned4 (?sp + 12)" unfolding slot by (rule aligned4_slot [OF assms(1)])
  have "rd32 (wr32 (mem s') (?sp + 12) ?sp) saddr = STACKMAGIC"
    using rd32_wr32_other [OF al assms(1)] top [of "length args + 8"] mg unfolding slot by simp
  moreover have "rd32 (wr32 (mem s') (?sp + 12) ?sp) (saddr - 4 * word_of_nat (Suc i)) =
      ?vs[length args + 8 := ?sp] ! i" if i: "i < ?n" for i
  proof (cases "i = length args + 8")
    case True
    show ?thesis unfolding True slot [symmetric] using len by simp
  next
    case False
    have "?sp + 12 \<noteq> saddr - 4 * word_of_nat (Suc i)"
      unfolding slot by (rule slot_neq [of _ ?n]) (use False i assms(2) in simp_all)
    from rd32_wr32_other [OF al aligned4_slot [OF assms(1)] this]
    show ?thesis using r [OF i] False by (simp only: nth_list_update_neq)
  qed
  ultimately show ?thesis unfolding m using e by (simp add: wrk_def upd_proc_def)
qed



end
