(* ===== verification/Kernel.thy ===== *)
theory Kernel
  imports Messages Boot
begin

text \<open>
  The kernel as a state machine: the system calls a process can make and the clock interrupt
  are the steps, and the properties are those of every state that is reached from the state
  after start-up. The calls of processes, messages, semaphores and time are covered; those that
  use the heap keep the kernel invariant under conditions of their own (see \<open>Processes\<close>).
\<close>

section \<open>Calls\<close>

datatype kcommand =
    CYield
  | CResume int
  | CSuspend int
  | CChprio int int
  | CSemcreate int
  | CWait int
  | CSignal int
  | CSignaln int int
  | CSemreset int int
  | CSemdelete int
  | CSleepms int
  | CReceive
  | CRecvtime int
  | CRecvclr
  | CCbregister addr addr
  | CCbunregister
  | CUsercb
  | CTick

text \<open>What a call gives back: a status, a message, or nothing (yet).\<close>

datatype kresult = Status int | Message u32 | NoResult

fun of_ctl :: "('v \<Rightarrow> kresult) \<Rightarrow> 'v ctl \<Rightarrow> kresult" where
  "of_ctl f (Ret v) = f v"
| "of_ctl f Blocked = NoResult"
| "of_ctl f Halted = NoResult"

definition status_of :: "(int \<times> 'a ks) option \<Rightarrow> (kresult \<times> 'a ks) option" where
  "status_of = map_option (map_prod Status id)"

definition ctl_of :: "('v \<Rightarrow> kresult) \<Rightarrow> ('v ctl \<times> 'a ks) option \<Rightarrow> (kresult \<times> 'a ks) option" where
  "ctl_of f = map_option (map_prod (of_ctl f) id)"

fun kcall :: "kcommand \<Rightarrow> 'a ks \<Rightarrow> (kresult \<times> 'a ks) option" where
  "kcall CYield s = status_of (yield s)"
| "kcall (CResume pid) s = status_of (resume pid s)"
| "kcall (CSuspend pid) s = ctl_of Status (suspend pid s)"
| "kcall (CChprio pid p) s = status_of (Some (chprio pid p s))"
| "kcall (CSemcreate n) s = status_of (Some (semcreate n s))"
| "kcall (CWait sem) s = status_of (wait_sem sem s)"
| "kcall (CSignal sem) s = status_of (signal sem s)"
| "kcall (CSignaln sem n) s = status_of (signaln sem n s)"
| "kcall (CSemreset sem n) s = status_of (semreset sem n s)"
| "kcall (CSemdelete sem) s = status_of (semdelete sem s)"
| "kcall (CSleepms d) s = status_of (sleepms d s)"
| "kcall CReceive s = ctl_of Message (receive s)"
| "kcall (CRecvtime d) s = ctl_of Message (recvtime d s)"
| "kcall CRecvclr s = Some (map_prod Message id (recvclr s))"
| "kcall (CCbregister f b) s = status_of (Some (cbregister f b s))"
| "kcall CCbunregister s = status_of (Some (cbunregister s))"
| "kcall CUsercb s = Some (NoResult, usercb s)"
| "kcall CTick s = map_option (\<lambda>s. (NoResult, s)) (clkhandler s)"

text \<open>
  What a caller has to respect: the null process, which must always be ready to run, makes no
  call that blocks, and no priority is the least \<open>pri16\<close>, which is the key of a queue's tail.
\<close>

fun permitted :: "kcommand \<Rightarrow> 'a ks \<Rightarrow> bool" where
  "permitted (CChprio pid p) s \<longleftrightarrow> MINKEY < p"
| "permitted (CWait sem) s \<longleftrightarrow> currpid s \<noteq> NULLPROC"
| "permitted (CSleepms d) s \<longleftrightarrow> currpid s \<noteq> NULLPROC"
| "permitted CReceive s \<longleftrightarrow> currpid s \<noteq> NULLPROC"
| "permitted (CRecvtime d) s \<longleftrightarrow> currpid s \<noteq> NULLPROC"
| "permitted _ s \<longleftrightarrow> True"

section \<open>Every call keeps the invariant\<close>

lemma newsem_loop_result:
  "newsem_loop n s = (i, s') \<Longrightarrow> \<exists>j. (i = SYSERR \<and> s' = s\<lparr>nextsem := j\<rparr>) \<or>
     (sstate (semtab s i) = S_FREE \<and> s' = upd_sem i (\<lambda>e. e\<lparr>sstate := S_USED\<rparr>) (s\<lparr>nextsem := j\<rparr>))"
proof (induction n arbitrary: s)
  case 0
  then show ?case by (intro exI [of _ "nextsem s"]) simp
next
  case (Suc n)
  let ?j = "if nextsem s + 1 \<ge> NSEM then 0 else nextsem s + 1"
  show ?case
  proof (cases "sstate (semtab s (nextsem s)) = S_FREE")
    case True
    then show ?thesis using Suc.prems by (intro exI [of _ ?j]) (auto simp: Let_def)
  next
    case False
    then have "newsem_loop n (s\<lparr>nextsem := ?j\<rparr>) = (i, s')" using Suc.prems by (simp add: Let_def)
    from Suc.IH [OF this] show ?thesis by simp
  qed
qed

lemma semcreate_kinv:
  assumes I: "kinv s"
  shows "kinv (snd (semcreate count s))"
proof (cases "count < 0")
  case False
  obtain i s' where l: "newsem_loop 100 s = (i, s')" by fastforce
  let ?Q = "queue_list (queuetab s)"
  note R = runningD [OF kinv_running [OF I]]
  have j: "kinv (s\<lparr>nextsem := j\<rparr>)" for j using I by (simp add: kinv_def running_def sem_ok_def)
  from newsem_loop_result [OF l] show ?thesis
  proof (elim exE disjE conjE)
    fix j
    assume "i = SYSERR" "s' = s\<lparr>nextsem := j\<rparr>"
    then show ?thesis using l False j by (simp add: semcreate_def newsem_def)
  next
    fix j
    assume f: "sstate (semtab s i) = S_FREE" and s': "s' = upd_sem i (\<lambda>e. e\<lparr>sstate := S_USED\<rparr>) (s\<lparr>nextsem := j\<rparr>)"
    let ?s1 = "upd_sem i (\<lambda>e. e\<lparr>scount := count\<rparr>) s'"
    have k1: "kbase {} s' ?Q" using R(1) unfolding s' by (subst kbase_upd_sem) simp_all
    have k: "kbase {} s' ?Q" "kbase {} ?s1 ?Q" using k1 by (simp, subst kbase_upd_sem, simp_all)
    show ?thesis
    proof (cases "i \<in> {0..<NSEM}")
      case True
      have "sem_ok_but i s' ?Q" using R(2) unfolding s' by (simp add: sem_ok_split [OF True]) (simp add: sem_ok_but_def)
      moreover have "?Q (squeue (semtab s i)) = []"
        using bspec [OF R(2) [unfolded sem_ok_def] True] f by simp
      ultimately have "sem_ok ?s1 ?Q" using False by (simp add: sem_ok_split [OF True] s')
      then have "running ?s1 ?Q" using k R(3,4) by (simp add: running_def upd_sem_def s')
      then show ?thesis using l False True by (auto simp: semcreate_def newsem_def intro: running_kinv)
    next
      case out: False
      have "sem_ok s' ?Q" "sem_ok ?s1 ?Q" using R(2) out unfolding s' by (auto simp: sem_ok_def upd_sem_def)
      then have "running s' ?Q" "running ?s1 ?Q" using k R(3,4) by (simp_all add: running_def upd_sem_def s')
      then show ?thesis using l False by (auto simp: semcreate_def newsem_def intro: running_kinv)
    qed
  qed
qed (use I in \<open>simp add: semcreate_def\<close>)

lemma semcreate_frame: "\<exists>j t. snd (semcreate count s) = s\<lparr>nextsem := j, semtab := t\<rparr>"
proof -
  obtain i s' where l: "newsem_loop 100 s = (i, s')" by fastforce
  have s: "\<exists>j t. s = s\<lparr>nextsem := j, semtab := t\<rparr>" by (intro exI [of _ "nextsem s"] exI [of _ "semtab s"]) simp
  obtain j where "s' = s\<lparr>nextsem := j\<rparr> \<or> s' = upd_sem i (\<lambda>e. e\<lparr>sstate := S_USED\<rparr>) (s\<lparr>nextsem := j\<rparr>)"
    using newsem_loop_result [OF l] by blast
  then have e: "s' = s\<lparr>nextsem := j, semtab := semtab s'\<rparr>" by (auto simp: upd_sem_def)
  have u: "upd_sem i (\<lambda>e. e\<lparr>scount := count\<rparr>) s' =
      s\<lparr>nextsem := j, semtab := (semtab s')(i := (semtab s' i)\<lparr>scount := count\<rparr>)\<rparr>"
    unfolding upd_sem_def by (subst (1) e) simp
  show ?thesis
  proof (cases "count < 0")
    case True
    then have "snd (semcreate count s) = s" by (simp add: semcreate_def)
    with s show ?thesis by simp
  next
    case False
    then have "snd (semcreate count s) = (if i = SYSERR then s' else upd_sem i (\<lambda>e. e\<lparr>scount := count\<rparr>) s')"
      using l by (simp add: semcreate_def newsem_def)
    then have "snd (semcreate count s) = s' \<or> snd (semcreate count s) = upd_sem i (\<lambda>e. e\<lparr>scount := count\<rparr>) s'" by simp
    then show ?thesis by (metis e u)
  qed
qed

lemma sem_calls_kinv:
  assumes "kinv s"
  shows "\<exists>r s'. signaln sem n s = Some (r, s') \<and> kinv s'" "\<exists>r s'. semreset sem n s = Some (r, s') \<and> kinv s'"
    "\<exists>r s'. semdelete sem s = Some (r, s') \<and> kinv s'"
proof -
  have u: "sstate (semtab s sem) = S_USED" if "sstate (semtab s sem) \<noteq> S_FREE"
    using that by (cases "sstate (semtab s sem)") auto
  show "\<exists>r s'. signaln sem n s = Some (r, s') \<and> kinv s'"
  proof (cases "isbadsem sem \<or> n < 0 \<or> sstate (semtab s sem) = S_FREE")
    case True
    then show ?thesis using assms by (auto simp: signaln_def)
  next
    case False
    then have c: "\<not> isbadsem sem" "sstate (semtab s sem) = S_USED" "0 \<le> n" using u by auto
    obtain s' Q' where "signaln sem n s = Some (OK, s')" "running s' Q'" by (rule signaln_ok [OF assms c])
    then show ?thesis using running_kinv by blast
  qed
  show "\<exists>r s'. semreset sem n s = Some (r, s') \<and> kinv s'"
  proof (cases "isbadsem sem \<or> n < 0 \<or> sstate (semtab s sem) = S_FREE")
    case True
    then show ?thesis using assms by (auto simp: semreset_def)
  next
    case False
    then have c: "\<not> isbadsem sem" "sstate (semtab s sem) = S_USED" "0 \<le> n" using u by auto
    obtain s' Q' where "semreset sem n s = Some (OK, s')" "running s' Q'" by (rule semreset_ok [OF assms c])
    then show ?thesis using running_kinv by blast
  qed
  show "\<exists>r s'. semdelete sem s = Some (r, s') \<and> kinv s'"
  proof (cases "isbadsem sem \<or> sstate (semtab s sem) = S_FREE")
    case True
    then show ?thesis using assms by (auto simp: semdelete_def)
  next
    case False
    then have c: "\<not> isbadsem sem" "sstate (semtab s sem) = S_USED" using u by auto
    obtain s' Q' where "semdelete sem s = Some (OK, s')" "running s' Q'" by (rule semdelete_ok [OF assms c])
    then show ?thesis using running_kinv by blast
  qed
qed

lemma keeps_results:
  "\<exists>r s'. m = Some (r, s') \<and> kinv s' \<Longrightarrow> \<exists>r s'. status_of m = Some (r, s') \<and> kinv s'"
  "\<exists>r s'. m' = Some (r, s') \<and> kinv s' \<Longrightarrow> \<exists>r s'. ctl_of f m' = Some (r, s') \<and> kinv s'"
  by (auto simp: status_of_def ctl_of_def)

lemma kcall_kinv:
  assumes I: "kinv s" and "permitted c s"
  shows "\<exists>r s'. kcall c s = Some (r, s') \<and> kinv s'"
proof (cases c)
  case CYield
  then show ?thesis using yield_kinv [OF I] by (auto simp: status_of_def)
next
  case (CResume pid)
  then show ?thesis using keeps_results(1) [OF resume_kinv [OF I]] by simp
next
  case (CSuspend pid)
  then show ?thesis using keeps_results(2) [OF suspend_kinv [OF I]] by simp
next
  case (CChprio pid p)
  then show ?thesis using chprio_kinv [OF I, of p pid] assms(2) by (cases "chprio pid p s") (auto simp: status_of_def)
next
  case (CSemcreate n)
  then show ?thesis using semcreate_kinv [OF I, of n] by (cases "semcreate n s") (auto simp: status_of_def)
next
  case (CWait sem)
  then show ?thesis using keeps_results(1) [OF wait_kinv [OF I]] assms(2) by simp
next
  case (CSignal sem)
  then show ?thesis using keeps_results(1) [OF signal_kinv [OF I]] by simp
next
  case (CSignaln sem n)
  then show ?thesis using keeps_results(1) [OF sem_calls_kinv(1) [OF I]] by simp
next
  case (CSemreset sem n)
  then show ?thesis using keeps_results(1) [OF sem_calls_kinv(2) [OF I]] by simp
next
  case (CSemdelete sem)
  then show ?thesis using keeps_results(1) [OF sem_calls_kinv(3) [OF I]] by simp
next
  case (CSleepms d)
  then show ?thesis using keeps_results(1) [OF sleepms_kinv [OF I]] assms(2) by simp
next
  case CReceive
  then show ?thesis using keeps_results(2) [OF receive_kinv [OF I]] assms(2) by simp
next
  case (CRecvtime d)
  then show ?thesis using keeps_results(2) [OF recvtime_kinv [OF I]] assms(2) by simp
next
  case CRecvclr
  then show ?thesis using callback_kinv(5) [OF I] by (cases "recvclr s") auto
next
  case (CCbregister f b)
  then show ?thesis using callback_kinv(1) [OF I, of f b] by (cases "cbregister f b s") (auto simp: status_of_def)
next
  case CCbunregister
  then show ?thesis using callback_kinv(2) [OF I] by (cases "cbunregister s") (auto simp: status_of_def)
next
  case CUsercb
  then show ?thesis using callback_kinv(4) [OF I] by simp
next
  case CTick
  then show ?thesis using clkhandler_kinv [OF I] by auto
qed

interpretation kern: kernel_call kcall permitted kinv
  by unfold_locales (rule kcall_kinv)

section \<open>Properties\<close>

text \<open>The states the invariant allows, in terms of the process table alone.\<close>

lemma kinv_one_current:
  assumes "kinv s" "p \<in> {0..<NPROC}"
  shows "prstate (proctab s p) = PR_CURR \<longleftrightarrow> p = currpid s"
  using runningD [OF kinv_running [OF assms(1)]] assms(2) unfolding kbase_def by auto

lemma kinv_queued:
  assumes "kinv s" "p \<in> {0..<NPROC}" "q \<in> qids (nextqid s)"
  shows "p \<in> set (queue_list (queuetab s) q) \<longleftrightarrow> belongs s (proctab s p) q"
  using runningD(1) [OF kinv_running [OF assms(1)]] assms(2,3) unfolding kbase_def by blast


text \<open>
  C2: in every state that is reached, exactly one process is current, the null process is
  current or ready, and a process is on the ready list, the sleep queue or the queue of a
  semaphore in use exactly when its state says so.
\<close>

theorem reached_states_consistent:
  assumes "kinv s" "reaches kcall permitted s t" "p \<in> {0..<NPROC}"
  shows "(prstate (proctab t p) = PR_CURR \<longleftrightarrow> p = currpid t) \<and> currpid t \<in> {0..<NPROC} \<and>
    (prstate (proctab t p) = PR_READY \<longleftrightarrow> p \<in> set (queue_list (queuetab t) (readylist t))) \<and>
    (prstate (proctab t p) \<in> {PR_SLEEP, PR_RECTIM} \<longleftrightarrow> p \<in> set (queue_list (queuetab t) (sleepq t))) \<and>
    (\<forall>i \<in> {0..<NSEM}. prstate (proctab t p) = PR_WAIT \<and> prsem (proctab t p) = i \<longleftrightarrow>
       p \<in> set (queue_list (queuetab t) (squeue (semtab t i)))) \<and>
    prstate (proctab t NULLPROC) \<in> {PR_CURR, PR_READY}"
proof -
  have I: "kinv t" by (rule kern.reaches_inv [OF assms(2,1)])
  note K = runningD(1) [OF kinv_running [OF I]]
  note D = kbaseD [OF K]
  let ?e = "proctab t p"
  have w: "readylist t \<noteq> sleepq t" "\<And>i. i \<in> {0..<NSEM} \<Longrightarrow> squeue (semtab t i) \<noteq> readylist t"
    "\<And>i. i \<in> {0..<NSEM} \<Longrightarrow> squeue (semtab t i) \<noteq> sleepq t" "inj_on (\<lambda>i. squeue (semtab t i)) {0..<NSEM}"
    using D(2) by (auto simp: wiring_def)
  have s: "prstate ?e = PR_WAIT \<Longrightarrow> prsem ?e \<in> {0..<NSEM}" using K assms(3) unfolding kbase_def by auto
  have "belongs t ?e (readylist t) \<longleftrightarrow> prstate ?e = PR_READY"
    "belongs t ?e (sleepq t) \<longleftrightarrow> prstate ?e \<in> {PR_SLEEP, PR_RECTIM}"
    using w(1) w(2,3) [OF s, symmetric] by (auto simp: belongs_def split: prstate.splits)
  moreover have "\<forall>i \<in> {0..<NSEM}. prstate ?e = PR_WAIT \<and> prsem ?e = i \<longleftrightarrow>
      p \<in> set (queue_list (queuetab t) (squeue (semtab t i)))"
  proof
    fix i :: int
    assume i: "i \<in> {0..<NSEM}"
    have "belongs t ?e (squeue (semtab t i)) \<longleftrightarrow> prstate ?e = PR_WAIT \<and> prsem ?e = i"
      using w(2,3) [OF i] inj_onD [OF w(4) _ i s] s i by (auto simp: belongs_def split: prstate.splits)
    then show "prstate ?e = PR_WAIT \<and> prsem ?e = i \<longleftrightarrow> p \<in> set (queue_list (queuetab t) (squeue (semtab t i)))"
      using kinv_queued [OF I assms(3) D(11) [OF i]] by simp
  qed
  moreover have "prstate (proctab t NULLPROC) \<in> {PR_CURR, PR_READY}" using K by (simp add: kbase_def)
  ultimately show ?thesis
    using kinv_one_current [OF I assms(3)] D(5) kinv_queued [OF I assms(3) D(9)] kinv_queued [OF I assms(3) D(10)]
    by simp
qed

end
