(* ===== verification/Ipc_State.thy ===== *)
theory Ipc_State
  imports Processes
begin

text \<open>
  The kernel state extended by the tables of buffer pools (\<^verbatim>\<open>include/bufpool.h\<close>), ports
  (\<^verbatim>\<open>include/ports.h\<close>) and memory marks (\<^verbatim>\<open>include/mark.h\<close>). The kernel operations apply to
  the extended record as they are. Linked lists in memory, which both components use, are
  refined to lists of addresses here.
\<close>

record bpentry =
  bpnext :: addr
  bpsem :: int
  bpsize :: u32

datatype ptstate = PT_FREE | PT_LIMBO | PT_ALLOC

record ptentry =
  ptssem :: int
  ptrsem :: int
  ptstate :: ptstate
  ptmaxcnt :: u16
  ptseq :: int
  pthead :: addr
  pttail :: addr

abbreviation (input) NBPOOLS :: int where "NBPOOLS \<equiv> 20"
abbreviation (input) NPORTS :: int where "NPORTS \<equiv> 30"
abbreviation (input) MAXMARK :: int where "MAXMARK \<equiv> 20"

record ipcstate = kstate +
  buftab :: "int \<Rightarrow> bpentry"
  nbpools :: int
  porttab :: "int \<Rightarrow> ptentry"
  ptfree :: addr
  ptnextid :: int
  marks :: "int \<Rightarrow> addr"
  nmarks :: int
  mkmutex :: int

type_synonym 'a ips = "'a ipcstate_scheme"

definition upd_buf :: "int \<Rightarrow> (bpentry \<Rightarrow> bpentry) \<Rightarrow> 'a ips \<Rightarrow> 'a ips" where
  "upd_buf i f s = s\<lparr>buftab := (buftab s)(i := f (buftab s i))\<rparr>"

definition upd_port :: "int \<Rightarrow> (ptentry \<Rightarrow> ptentry) \<Rightarrow> 'a ips \<Rightarrow> 'a ips" where
  "upd_port i f s = s\<lparr>porttab := (porttab s)(i := f (porttab s i))\<rparr>"

text \<open>
  A step after which the caller goes on only if it still has the CPU; otherwise it goes on
  when it is scheduled again, and the call is \<open>Blocked\<close> until then.
\<close>

definition when_current :: "int \<Rightarrow> ('a ks \<Rightarrow> ('r ctl \<times> 'a ks) option) \<Rightarrow> 'a ks \<Rightarrow> ('r ctl \<times> 'a ks) option" where
  "when_current p k s = (if currpid s = p then k s else Some (Blocked, s))"

section \<open>Linked lists in memory\<close>

text \<open>
  \<open>chain m off p bs\<close>: the nodes \<open>bs\<close> are linked from \<open>p\<close> through the word at \<open>off\<close> in each of
  them; the last link is \<open>NULL\<close>.
\<close>

fun chain :: "bytes \<Rightarrow> addr \<Rightarrow> addr \<Rightarrow> addr list \<Rightarrow> bool" where
  "chain m off p [] \<longleftrightarrow> p = NULL"
| "chain m off p (b # bs) \<longleftrightarrow> p = b \<and> b \<noteq> NULL \<and> chain m off (rd32 m (b + off)) bs"

lemma chain_cong:
  "(\<And>b. b \<in> set bs \<Longrightarrow> rd32 m' (b + off) = rd32 m (b + off)) \<Longrightarrow> chain m' off p bs = chain m off p bs"
  by (induction bs arbitrary: p) auto

lemma chain_wr32 [simp]:
  assumes "aligned4 a" "\<forall>b \<in> set bs. aligned4 (b + off) \<and> b + off \<noteq> a"
  shows "chain (wr32 m a v) off p bs = chain m off p bs"
  by (rule chain_cong) (use assms in \<open>auto simp: rd32_wr32\<close>)

lemma chain_append_one:
  "chain m off p (bs @ [b]) \<Longrightarrow> distinct (bs @ [b]) \<Longrightarrow> \<forall>x \<in> set (bs @ [b, n]). aligned4 (x + off) \<Longrightarrow> n \<noteq> NULL \<Longrightarrow>
     rd32 m (n + off) = NULL \<Longrightarrow> n \<notin> set (bs @ [b]) \<Longrightarrow> chain (wr32 m (b + off) n) off p (bs @ [b, n])"
  by (induction bs arbitrary: p) (auto simp: rd32_wr32)

section \<open>The invariant reads only the kernel's own tables\<close>

lemma kinv_same_tables:
  assumes "queuetab s' = queuetab s" "nextqid s' = nextqid s" "proctab s' = proctab s" "currpid s' = currpid s"
    "semtab s' = semtab s" "readylist s' = readylist s" "sleepq s' = sleepq s" "ndefers s' = ndefers s"
  shows "kinv s' = kinv s"
proof -
  have "kbase X s' Q = kbase X s Q" for X Q by (rule kbase_fields) (simp_all add: assms)
  then show ?thesis by (simp add: kinv_def running_def sem_ok_def assms)
qed

lemma kinv_ips [simp]:
  "kinv (s\<lparr>buftab := a\<rparr>) = kinv s" "kinv (s\<lparr>nbpools := n\<rparr>) = kinv s" "kinv (s\<lparr>porttab := p\<rparr>) = kinv s"
  "kinv (s\<lparr>ptfree := f\<rparr>) = kinv s" "kinv (s\<lparr>ptnextid := n\<rparr>) = kinv s" "kinv (s\<lparr>marks := k\<rparr>) = kinv s"
  "kinv (s\<lparr>nmarks := n\<rparr>) = kinv s" "kinv (s\<lparr>mkmutex := n\<rparr>) = kinv s"
  "kinv (upd_buf i g s) = kinv s" "kinv (upd_port i h s) = kinv s"
  by (rule kinv_same_tables; simp add: upd_buf_def upd_port_def)+

end
