(* ===== verification/Buffers.thy ===== *)
theory Buffers
  imports Ipc_State Kernel
begin

text \<open>
  Buffer pools (\<^verbatim>\<open>system/bufinit.c\<close>, \<^verbatim>\<open>mkbufpool.c\<close>, \<^verbatim>\<open>getbuf.c\<close>, \<^verbatim>\<open>freebuf.c\<close>) and memory
  marks (\<^verbatim>\<open>system/mark.c\<close>). A pool is a chain of free buffers in memory and a semaphore that
  counts them; a buffer handed out carries the id of its pool in front. \<open>pool s i bs\<close> says that
  \<open>bs\<close> are the free buffers of pool \<open>i\<close>, in the order in which they are handed out.
\<close>

section \<open>Operations\<close>

definition bufinit :: "'a ips \<Rightarrow> int \<times> 'a ips" where
  "bufinit s = (OK, s\<lparr>nbpools := 0\<rparr>)"

text \<open>Linking the buffers: the first argument is how many follow the one at \<open>buf\<close>.\<close>

fun link_buffers :: "nat \<Rightarrow> u32 \<Rightarrow> addr \<Rightarrow> 'a ks \<Rightarrow> 'a ks" where
  "link_buffers 0 bufsiz buf s = wrk buf NULL s"
| "link_buffers (Suc n) bufsiz buf s = link_buffers n bufsiz (buf + bufsiz) (wrk buf (buf + bufsiz) s)"

definition mkbufpool :: "int \<Rightarrow> int \<Rightarrow> 'a ips \<Rightarrow> (int \<times> 'a ips) option" where
  "mkbufpool bufsiz numbufs s =
     (if bufsiz < 8 \<or> bufsiz > 8192 \<or> numbufs < 1 \<or> numbufs > 2048 \<or> nbpools s \<ge> NBPOOLS
      then Some (SYSERR, s)
      else
        let bufsiz = (bufsiz + 3) div 4 * 4;
            nbytes = word_of_int (numbufs * (bufsiz + 4))
        in do {
          (buf, s) \<leftarrow> getmem nbytes s;
          if buf = SYSERR32 then Some (SYSERR, s)
          else
            let poolid = nbpools s;
                s = s\<lparr>nbpools := nbpools s + 1\<rparr>;
                s = upd_buf poolid (\<lambda>e. e\<lparr>bpnext := buf, bpsize := word_of_int bufsiz\<rparr>) s;
                (sem, s) = semcreate numbufs s;
                s = upd_buf poolid (\<lambda>e. e\<lparr>bpsem := sem\<rparr>) s
            in if sem = SYSERR then do {
                 (_, s) \<leftarrow> freemem buf nbytes s;
                 Some (SYSERR, s\<lparr>nbpools := nbpools s - 1\<rparr>)
               }
               else Some (poolid, link_buffers (nat (numbufs - 1)) (word_of_int (bufsiz + 4)) buf s)
        })"

text \<open>The second half of \<open>getbuf\<close>, after the wait.\<close>

definition getbuf_end :: "int \<Rightarrow> 'a ips \<Rightarrow> (addr ctl \<times> 'a ips) option" where
  "getbuf_end poolid s =
     (let bufptr = bpnext (buftab s poolid);
          s = upd_buf poolid (\<lambda>e. e\<lparr>bpnext := rd32 (mem s) bufptr\<rparr>) s;
          s = wrk bufptr (word_of_int poolid) s
      in Some (Ret (bufptr + 4), s))"

definition getbuf :: "int \<Rightarrow> 'a ips \<Rightarrow> (addr ctl \<times> 'a ips) option" where
  "getbuf poolid s =
     (if poolid < 0 \<or> poolid \<ge> nbpools s then Some (Ret SYSERR32, s)
      else do {
        let cur = currpid s;
        (_, s) \<leftarrow> wait_sem (bpsem (buftab s poolid)) s;
        when_current cur (getbuf_end poolid) s
      })"

definition freebuf :: "addr \<Rightarrow> 'a ips \<Rightarrow> (int \<times> 'a ips) option" where
  "freebuf bufaddr s =
     (let bufaddr = bufaddr - 4;
          poolid = sint (rd32 (mem s) bufaddr)
      in if poolid < 0 \<or> poolid \<ge> nbpools s then Some (SYSERR, s)
         else do {
           let s = wrk bufaddr (bpnext (buftab s poolid)) s;
           let s = upd_buf poolid (\<lambda>e. e\<lparr>bpnext := bufaddr\<rparr>) s;
           (_, s) \<leftarrow> signal (bpsem (buftab s poolid)) s;
           Some (OK, s)
         })"

section \<open>Marks\<close>

text \<open>A location is marked when it holds its own index in \<open>marks\<close>.\<close>

definition notmarked :: "addr \<Rightarrow> 'a ips \<Rightarrow> bool" where
  "notmarked loc s \<longleftrightarrow>
     (let i = sint (rd32 (mem s) loc) in i < 0 \<or> i \<ge> nmarks s \<or> marks s i \<noteq> loc)"

definition markinit :: "'a ips \<Rightarrow> 'a ips" where
  "markinit s =
     (let (sem, s) = semcreate 1 (s\<lparr>nmarks := 0\<rparr>) in s\<lparr>mkmutex := sem\<rparr>)"

definition mark_locked :: "addr \<Rightarrow> 'a ips \<Rightarrow> (int ctl \<times> 'a ips) option" where
  "mark_locked loc s = do {
     let i = nmarks s;
     let s = s\<lparr>nmarks := i + 1\<rparr>;
     let s = wrk loc (word_of_int i) s;
     let s = s\<lparr>marks := (marks s)(i := loc)\<rparr>;
     (_, s) \<leftarrow> signal (mkmutex s) s;
     Some (Ret OK, s)
   }"

definition mark :: "addr \<Rightarrow> 'a ips \<Rightarrow> (int ctl \<times> 'a ips) option" where
  "mark loc s =
     (let i = sint (rd32 (mem s) loc) in
      if 0 \<le> i \<and> i < nmarks s \<and> marks s i = loc then Some (Ret OK, s)
      else if nmarks s \<ge> MAXMARK then Some (Ret SYSERR, s)
      else do {
        let cur = currpid s;
        (_, s) \<leftarrow> wait_sem (mkmutex s) s;
        when_current cur (mark_locked loc) s
      })"

section \<open>Pools as lists of free buffers\<close>

definition pool :: "'a ips \<Rightarrow> int \<Rightarrow> addr list \<Rightarrow> bool" where
  "pool s i bs \<longleftrightarrow> i \<in> {0..<nbpools s} \<and> nbpools s \<le> NBPOOLS \<and>
     chain (mem s) 0 (bpnext (buftab s i)) bs \<and> distinct bs \<and> (\<forall>b \<in> set bs. aligned4 b) \<and>
     \<not> isbadsem (bpsem (buftab s i)) \<and> sstate (semtab s (bpsem (buftab s i))) = S_USED \<and>
     scount (semtab s (bpsem (buftab s i))) = int (length bs)"

lemma poolD:
  assumes "pool s i bs"
  shows "0 \<le> i" "i < nbpools s" "i < 20" "sint (word_of_int i :: u32) = i"
    "\<not> isbadsem (bpsem (buftab s i))" "sstate (semtab s (bpsem (buftab s i))) = S_USED"
    "scount (semtab s (bpsem (buftab s i))) = int (length bs)"
  using assms by (auto simp: pool_def sint_sbintrunc' signed_take_bit_int_eq_self)

lemma getbuf_takes:
  assumes I: "kinv s" and P: "pool s i (b # bs)"
  obtains s' where "getbuf i s = Some (Ret (b + 4), s')" "kinv s'" "pool s' i bs"
    "rd32 (mem s') b = word_of_int i" "currpid s' = currpid s" "nbpools s' = nbpools s"
    "mem s' = wr32 (mem s) b (word_of_int i)"
proof -
  let ?sem = "bpsem (buftab s i)"
  let ?s1 = "upd_sem ?sem (\<lambda>e. e\<lparr>scount := scount e - 1\<rparr>) s"
  let ?s2 = "wrk b (word_of_int i) (upd_buf i (\<lambda>e. e\<lparr>bpnext := rd32 (mem s) b\<rparr>) ?s1)"
  note D = poolD [OF P]
  have nx: "bpnext (buftab s i) = b" using P by (simp add: pool_def)
  have c: "0 < scount (semtab s ?sem)" using D(7) by simp
  note w = wait_pass [OF I D(5,6) c]
  have g: "getbuf i s = Some (Ret (b + 4), ?s2)"
    unfolding getbuf_def using D(1,2) w(1)
    by (simp add: when_current_def getbuf_end_def Let_def nx upd_sem_def)
  have "kinv ?s2" using w(2) by simp
  moreover have "pool ?s2 i bs"
    using P by (auto simp: pool_def upd_buf_def upd_sem_def wrk_def intro!: chain_wr32 [THEN iffD2])
  ultimately show ?thesis using g by (intro that [of ?s2]) (simp_all add: wrk_def upd_buf_def upd_sem_def)
qed

lemma freebuf_puts:
  assumes I: "kinv s" and P: "pool s i bs" and b: "b \<notin> set bs" "b \<noteq> NULL" "aligned4 b"
    and h: "rd32 (mem s) b = word_of_int i"
  obtains s' where "freebuf (b + 4) s = Some (OK, s')" "kinv s'" "pool s' i (b # bs)"
    "mem s' = wr32 (mem s) b (bpnext (buftab s i))"
proof -
  let ?sem = "bpsem (buftab s i)"
  let ?s1 = "upd_buf i (\<lambda>e. e\<lparr>bpnext := b\<rparr>) (wrk b (bpnext (buftab s i)) s)"
  let ?s2 = "upd_sem ?sem (\<lambda>e. e\<lparr>scount := scount (semtab s ?sem) + 1\<rparr>) ?s1"
  note D = poolD [OF P]
  have e: "buftab ?s1 i = (buftab s i)\<lparr>bpnext := b\<rparr>" "semtab ?s1 = semtab s"
    by (simp_all add: upd_buf_def wrk_def)
  have sg: "signal ?sem ?s1 = Some (OK, ?s2)"
    using D(5-7) by (simp add: signal_def e Let_def)
  have g: "freebuf (b + 4) s = Some (OK, ?s2)"
    unfolding freebuf_def using D(1,2,4) sg by (simp add: h Let_def e)
  have "kinv ?s2"
  proof -
    have I1: "kinv ?s1" using I by simp
    obtain r s' where "signal ?sem ?s1 = Some (r, s')" "kinv s'" using signal_kinv [OF I1] by blast
    then show ?thesis using sg by simp
  qed
  moreover have "pool ?s2 i (b # bs)"
    using P b by (auto simp: pool_def upd_buf_def upd_sem_def wrk_def intro!: chain_wr32 [THEN iffD2])
  ultimately show ?thesis using g by (intro that [of ?s2]) (simp_all add: wrk_def upd_buf_def upd_sem_def)
qed

section \<open>Creating a pool\<close>

definition buf_addrs :: "nat \<Rightarrow> u32 \<Rightarrow> addr \<Rightarrow> addr list" where
  "buf_addrs n sz buf = map (\<lambda>k. buf + word_of_nat k * sz) [0..<n]"

lemma buf_addrs_Suc: "buf_addrs (Suc n) sz buf = buf # buf_addrs n sz (buf + sz)"
  by (simp add: buf_addrs_def upt_conv_Cons algebra_simps flip: map_Suc_upt del: upt_Suc)

lemma link_buffers_chain:
  assumes "\<forall>b \<in> set (buf_addrs (Suc n) sz buf). aligned4 b \<and> b \<noteq> NULL" "distinct (buf_addrs (Suc n) sz buf)"
  shows "\<exists>m. link_buffers n sz buf s = s\<lparr>mem := m\<rparr> \<and> chain m 0 buf (buf_addrs (Suc n) sz buf) \<and>
    (\<forall>a. aligned4 a \<longrightarrow> a \<notin> set (buf_addrs (Suc n) sz buf) \<longrightarrow> rd32 m a = rd32 (mem s) a)"
  using assms
proof (induction n arbitrary: buf s)
  case 0
  then show ?case by (auto simp: buf_addrs_def wrk_def rd32_wr32)
next
  case (Suc n)
  note S = buf_addrs_Suc [of "Suc n" sz buf]
  obtain m where m: "link_buffers n sz (buf + sz) (wrk buf (buf + sz) s) = (wrk buf (buf + sz) s)\<lparr>mem := m\<rparr>"
    "chain m 0 (buf + sz) (buf_addrs (Suc n) sz (buf + sz))"
    "\<forall>a. aligned4 a \<longrightarrow> a \<notin> set (buf_addrs (Suc n) sz (buf + sz)) \<longrightarrow> rd32 m a = rd32 (mem (wrk buf (buf + sz) s)) a"
    using Suc.IH [of "buf + sz" "wrk buf (buf + sz) s"] Suc.prems unfolding S by auto
  have b: "aligned4 buf" "buf \<notin> set (buf_addrs (Suc n) sz (buf + sz))" "buf \<noteq> NULL"
    using Suc.prems unfolding S by auto
  have "rd32 m buf = buf + sz" using m(3) b by (simp add: wrk_def)
  with m b have "chain m 0 buf (buf_addrs (Suc (Suc n)) sz buf)" unfolding S by simp
  moreover have "link_buffers (Suc n) sz buf s = s\<lparr>mem := m\<rparr>" using m(1) by (simp add: wrk_def)
  moreover have "rd32 m a = rd32 (mem s) a" if "aligned4 a" "a \<notin> set (buf_addrs (Suc (Suc n)) sz buf)" for a
    using m(3) that b unfolding S by (auto simp: wrk_def rd32_wr32)
  ultimately show ?case by blast
qed

lemma buf_addrs_ok:
  assumes a: "aligned4 buf" "buf \<noteq> NULL" and sz: "0 < k" "4 dvd k" and w: "unat buf + n * k \<le> 2 ^ 32"
  shows "\<forall>b \<in> set (buf_addrs n (word_of_nat k) buf). aligned4 b \<and> b \<noteq> NULL"
    "distinct (buf_addrs n (word_of_nat k) buf)"
proof -
  have u: "unat (buf + word_of_nat i * word_of_nat k) = unat buf + i * k" if "i < n" for i
  proof -
    have "i * k < n * k" using that sz(1) by simp
    then have "unat buf + i * k < 2 ^ 32" using w by linarith
    then have "unat (word_of_nat (unat buf + i * k) :: u32) = unat buf + i * k"
      by (simp only: unat_of_nat) simp
    then show ?thesis by simp
  qed
  have "unat buf \<noteq> 0" using a(2) by (simp add: unat_eq_0)
  then have "aligned4 (buf + word_of_nat i * word_of_nat k) \<and> buf + word_of_nat i * word_of_nat k \<noteq> NULL" if "i < n" for i
    using a(1) sz(2) u [OF that] by (auto simp: aligned4_def mod_eq_0_iff_dvd simp flip: unat_eq_0)
  then show "\<forall>b \<in> set (buf_addrs n (word_of_nat k) buf). aligned4 b \<and> b \<noteq> NULL" by (simp add: buf_addrs_def)
  have "inj_on (\<lambda>i. buf + word_of_nat i * word_of_nat k) {0..<n}"
  proof (rule inj_onI)
    fix i j
    assume i: "i \<in> {0..<n}" and j: "j \<in> {0..<n}"
      and e: "buf + word_of_nat i * word_of_nat k = buf + word_of_nat j * word_of_nat k"
    have "i < n" "j < n" using i j by simp_all
    then have "unat buf + i * k = unat buf + j * k" using u [of i] u [of j] unfolding e by linarith
    then show "i = j" using sz(1) by simp
  qed
  then show "distinct (buf_addrs n (word_of_nat k) buf)" by (simp add: buf_addrs_def distinct_map)
qed

section \<open>Properties\<close>

text \<open>
  C26: a buffer taken from a pool and given back: \<open>getbuf\<close> hands out the first free buffer and
  marks it with its pool, \<open>freebuf\<close> puts it back in front, and the pool is as before.
\<close>

theorem buffer_roundtrip:
  assumes "kinv s" "pool s i (b # bs)"
  shows "\<exists>s1 s2. getbuf i s = Some (Ret (b + 4), s1) \<and> pool s1 i bs \<and> kinv s1 \<and>
    freebuf (b + 4) s1 = Some (OK, s2) \<and> pool s2 i (b # bs) \<and> kinv s2"
proof -
  obtain s1 where s1: "getbuf i s = Some (Ret (b + 4), s1)" "kinv s1" "pool s1 i bs"
    "rd32 (mem s1) b = word_of_int i"
    by (rule getbuf_takes [OF assms])
  have "b \<notin> set bs" "b \<noteq> NULL" "aligned4 b" using assms(2) by (auto simp: pool_def)
  then obtain s2 where "freebuf (b + 4) s1 = Some (OK, s2)" "kinv s2" "pool s2 i (b # bs)"
    using freebuf_puts [OF s1(2,3) _ _ _ s1(4)] by blast
  with s1 show ?thesis by blast
qed

text \<open>
  a new pool. Once \<open>getmem\<close> has found room and a semaphore is free, \<open>mkbufpool\<close> returns the
  next pool id, and the pool consists of the asked number of buffers, each of the size asked
  for, rounded to a multiple of 4, plus 4 bytes for the pool id.
\<close>

theorem mkbufpool_makes_pool:
  assumes "kinv s" "0 \<le> nbpools s" "nbpools s < NBPOOLS" "8 \<le> bufsiz" "bufsiz \<le> 8192" "1 \<le> n" "n \<le> 2048"
    "sz = nat ((bufsiz + 3) div 4 * 4 + 4)"
    "getmem (word_of_int (n * ((bufsiz + 3) div 4 * 4 + 4))) s = Some (buf, s\<lparr>mem := m, memblockkflag := k\<rparr>)"
    "buf \<noteq> SYSERR32" "buf \<noteq> NULL" "aligned4 buf" "unat buf + nat n * sz \<le> 2 ^ 32"
    "nextsem s \<in> {0..<NSEM}" "j \<in> {0..<NSEM}" "sstate (semtab s j) = S_FREE"
  shows "\<exists>s'. mkbufpool bufsiz n s = Some (nbpools s, s') \<and> kinv s' \<and>
    pool s' (nbpools s) (buf_addrs (nat n) (word_of_nat sz) buf)"
proof -
  let ?i = "nbpools s" and ?b = "(bufsiz + 3) div 4 * 4"
  let ?s1 = "s\<lparr>mem := m, memblockkflag := k, nbpools := ?i + 1\<rparr>"
  let ?s2 = "upd_buf ?i (\<lambda>e. e\<lparr>bpnext := buf, bpsize := word_of_int ?b\<rparr>) ?s1"
  have I2: "kinv ?s2" using assms(1) by (subst kinv_same_tables [of _ s]) (simp_all add: upd_buf_def)
  have "nextsem ?s2 \<in> {0..<NSEM}" "sstate (semtab ?s2 j) = S_FREE" "0 \<le> n"
    using assms(6,14,16) by (simp_all add: upd_buf_def)
  from semcreate_ok [OF I2 this(1,3) assms(15) this(2)] obtain sem s3 where
    c: "semcreate n ?s2 = (sem, s3)" "sem \<in> {0..<NSEM}" "sstate (semtab s3 sem) = S_USED"
      "scount (semtab s3 sem) = n" "kinv s3" by blast
  obtain ns st where s3: "s3 = ?s2\<lparr>nextsem := ns, semtab := st\<rparr>" using semcreate_frame [of n ?s2] c(1) by auto
  let ?s4 = "upd_buf ?i (\<lambda>e. e\<lparr>bpsem := sem\<rparr>) s3"
  obtain n' where n': "nat n = Suc n'" "nat (n - 1) = n'" using assms(6) by (cases "nat n") auto
  have z: "word_of_int (?b + 4) = (word_of_nat sz :: u32)" "0 < sz" "4 dvd sz"
  proof -
    have b: "0 \<le> ?b + 4" "0 \<le> (bufsiz + 3) div 4 + 1" "?b + 4 = ((bufsiz + 3) div 4 + 1) * 4" using assms(4) by simp_all
    show "word_of_int (?b + 4) = (word_of_nat sz :: u32)" unfolding assms(8) using of_nat_nat [OF b(1)] by metis
    show "0 < sz" using assms(4) unfolding assms(8) by simp
    show "4 dvd sz" unfolding assms(8) b(3) nat_mult_distrib [OF b(2)] by (simp only: nat_numeral dvd_triv_right)
  qed
  note A = buf_addrs_ok [OF assms(12,11) z(2,3) assms(13), unfolded n'(1)]
  obtain m' where l: "link_buffers n' (word_of_nat sz) buf ?s4 = ?s4\<lparr>mem := m'\<rparr>"
    "chain m' 0 buf (buf_addrs (Suc n') (word_of_nat sz) buf)"
    using link_buffers_chain [OF A, of ?s4] by blast
  have "sem \<noteq> SYSERR" using c(2) by auto
  then have g: "mkbufpool bufsiz n s = Some (?i, ?s4\<lparr>mem := m'\<rparr>)"
    unfolding mkbufpool_def using assms(2-10) c(1) l(1) z(1) n' by (simp add: Let_def)
  have "kinv (?s4\<lparr>mem := m'\<rparr>)" using c(5) by (subst kinv_same_tables [of _ s3]) (simp_all add: upd_buf_def)
  moreover have "pool (?s4\<lparr>mem := m'\<rparr>) ?i (buf_addrs (nat n) (word_of_nat sz) buf)"
    using A l(2) c(2-4) assms(2,3,6) n' unfolding s3
    by (auto simp: pool_def upd_buf_def isbadsem_def buf_addrs_def)
  ultimately show ?thesis using g by blast
qed

end
