(* ===== verification/Ports.thy ===== *)
theory Ports
  imports Buffers
begin

text \<open>
  Ports (\<^verbatim>\<open>system/ptinit.c\<close>, \<^verbatim>\<open>ptcreate.c\<close>, \<^verbatim>\<open>ptsend.c\<close>, \<^verbatim>\<open>ptrecv.c\<close>, \<^verbatim>\<open>ptcount.c\<close>,
  \<^verbatim>\<open>ptclear.c\<close>, \<^verbatim>\<open>ptdelete.c\<close>, \<^verbatim>\<open>ptreset.c\<close>). A port is a queue of one-word messages kept in
  nodes of memory, with one semaphore that counts free places and one that counts messages.
  \<open>port s i ns\<close> says that the nodes \<open>ns\<close> hold the messages of port \<open>i\<close>, oldest first. A call
  that waits is split where it waits; \<open>panic\<close> is the outcome \<open>Halted\<close>.
\<close>

section \<open>Operations\<close>

abbreviation (input) isbadport :: "int \<Rightarrow> bool" where
  "isbadport portid \<equiv> portid < 0 \<or> portid \<ge> NPORTS"

text \<open>A node has its message at offset 0 and the link at offset 4.\<close>

fun link_nodes :: "nat \<Rightarrow> addr \<Rightarrow> 'a ks \<Rightarrow> 'a ks" where
  "link_nodes 0 nd s = wrk (nd + 4) NULL s"
| "link_nodes (Suc n) nd s = link_nodes n (nd + 8) (wrk (nd + 4) (nd + 8) s)"

definition ptinit :: "int \<Rightarrow> 'a ips \<Rightarrow> (int ctl \<times> 'a ips) option" where
  "ptinit maxmsgs s = do {
     (p, s) \<leftarrow> getmem (word_of_int (maxmsgs * 8)) s;
     let s = s\<lparr>ptfree := p\<rparr>;
     if p = SYSERR32 then Some (Halted, s)
     else
       let s = for_range 30 (\<lambda>i. upd_port i (\<lambda>e. e\<lparr>ptstate := PT_FREE, ptseq := 0\<rparr>)) s;
           s = s\<lparr>ptnextid := 0\<rparr>
       in Some (Ret OK, link_nodes (nat (maxmsgs - 1)) (ptfree s) s)
   }"

fun ptcreate_loop :: "nat \<Rightarrow> int \<Rightarrow> 'a ips \<Rightarrow> int \<times> 'a ips" where
  "ptcreate_loop 0 count s = (SYSERR, s)"
| "ptcreate_loop (Suc n) count s =
     (let ptnum = ptnextid s;
          s = s\<lparr>ptnextid := (if ptnextid s + 1 \<ge> NPORTS then 0 else ptnextid s + 1)\<rparr>
      in if ptstate (porttab s ptnum) = PT_FREE then
           let s = upd_port ptnum (\<lambda>e. e\<lparr>ptstate := PT_ALLOC\<rparr>) s;
               (ssem, s) = semcreate count s;
               s = upd_port ptnum (\<lambda>e. e\<lparr>ptssem := ssem\<rparr>) s;
               (rsem, s) = semcreate 0 s;
               s = upd_port ptnum (\<lambda>e. e\<lparr>ptrsem := rsem\<rparr>) s
           in (ptnum, upd_port ptnum (\<lambda>e. e\<lparr>pthead := NULL, pttail := NULL, ptseq := ptseq e + 1,
                ptmaxcnt := word_of_int count\<rparr>) s)
         else ptcreate_loop n count s)"

definition ptcreate :: "int \<Rightarrow> 'a ips \<Rightarrow> int \<times> 'a ips" where
  "ptcreate count s = (if count < 0 then (SYSERR, s) else ptcreate_loop 30 count s)"

text \<open>Putting a message in a node of the free list and the node at the end of the port's list.\<close>

definition pt_put :: "int \<Rightarrow> u32 \<Rightarrow> 'a ips \<Rightarrow> 'a ips" where
  "pt_put portid msg s =
     (let msgnode = ptfree s;
          s = s\<lparr>ptfree := rd32 (mem s) (msgnode + 4)\<rparr>;
          s = wrk (msgnode + 4) NULL s;
          s = wrk msgnode msg s;
          tailnode = pttail (porttab s portid)
      in if tailnode = NULL then upd_port portid (\<lambda>e. e\<lparr>pthead := msgnode, pttail := msgnode\<rparr>) s
         else upd_port portid (\<lambda>e. e\<lparr>pttail := msgnode\<rparr>) (wrk (tailnode + 4) msgnode s))"

definition pt_take :: "int \<Rightarrow> 'a ips \<Rightarrow> u32 \<times> 'a ips" where
  "pt_take portid s =
     (let msgnode = pthead (porttab s portid);
          msg = rd32 (mem s) msgnode;
          s = (if pthead (porttab s portid) = pttail (porttab s portid)
               then upd_port portid (\<lambda>e. e\<lparr>pthead := NULL, pttail := NULL\<rparr>) s
               else upd_port portid (\<lambda>e. e\<lparr>pthead := rd32 (mem s) (msgnode + 4)\<rparr>) s);
          s = wrk (msgnode + 4) (ptfree s) s
      in (msg, s\<lparr>ptfree := msgnode\<rparr>))"

text \<open>\<open>r\<close> is what \<open>wait\<close> returned and \<open>seq\<close> the sequence number recorded before it.\<close>

definition ptsend_end :: "int \<Rightarrow> int \<Rightarrow> int \<Rightarrow> u32 \<Rightarrow> 'a ips \<Rightarrow> (int ctl \<times> 'a ips) option" where
  "ptsend_end r seq portid msg s =
     (if r = SYSERR \<or> ptstate (porttab s portid) \<noteq> PT_ALLOC \<or> ptseq (porttab s portid) \<noteq> seq
      then Some (Ret SYSERR, s)
      else if ptfree s = NULL then Some (Halted, s)
      else do {
        let s = pt_put portid msg s;
        (_, s) \<leftarrow> signal (ptrsem (porttab s portid)) s;
        Some (Ret OK, s)
      })"

definition ptsend :: "int \<Rightarrow> u32 \<Rightarrow> 'a ips \<Rightarrow> (int ctl \<times> 'a ips) option" where
  "ptsend portid msg s =
     (if isbadport portid \<or> ptstate (porttab s portid) \<noteq> PT_ALLOC then Some (Ret SYSERR, s)
      else do {
        let cur = currpid s;
        let seq = ptseq (porttab s portid);
        (r, s) \<leftarrow> wait_sem (ptssem (porttab s portid)) s;
        when_current cur (ptsend_end r seq portid msg) s
      })"

definition ptrecv_end :: "int \<Rightarrow> int \<Rightarrow> int \<Rightarrow> 'a ips \<Rightarrow> (u32 ctl \<times> 'a ips) option" where
  "ptrecv_end r seq portid s =
     (if r = SYSERR \<or> ptstate (porttab s portid) \<noteq> PT_ALLOC \<or> ptseq (porttab s portid) \<noteq> seq
      then Some (Ret SYSERR32, s)
      else do {
        let (msg, s) = pt_take portid s;
        (_, s) \<leftarrow> signal (ptssem (porttab s portid)) s;
        Some (Ret msg, s)
      })"

definition ptrecv :: "int \<Rightarrow> 'a ips \<Rightarrow> (u32 ctl \<times> 'a ips) option" where
  "ptrecv portid s =
     (if isbadport portid \<or> ptstate (porttab s portid) \<noteq> PT_ALLOC then Some (Ret SYSERR32, s)
      else do {
        let cur = currpid s;
        let seq = ptseq (porttab s portid);
        (r, s) \<leftarrow> wait_sem (ptrsem (porttab s portid)) s;
        when_current cur (ptrecv_end r seq portid) s
      })"

definition ptcount :: "int \<Rightarrow> 'a ips \<Rightarrow> int" where
  "ptcount portid s =
     (if isbadport portid \<or> ptstate (porttab s portid) \<noteq> PT_ALLOC then SYSERR
      else
        let count = semcount (ptrsem (porttab s portid)) s
        in if count \<ge> 0 then
             let sndcnt = semcount (ptssem (porttab s portid)) s
             in if sndcnt < 0 then count + - sndcnt else count
           else count)"

text \<open>
  Clearing a port. \<open>disp\<close> is called with every message that is left; releasing the waiting
  processes may hand the CPU over, twice, before the port gets its new state.
\<close>

partial_function (option) dispose_all ::
  "(u32 \<Rightarrow> 'a ips \<Rightarrow> 'a ips option) \<Rightarrow> addr \<Rightarrow> 'a ips \<Rightarrow> 'a ips option" where
  "dispose_all disp walk s =
     (if walk = NULL then Some s
      else do {
        s \<leftarrow> disp (rd32 (mem s) walk) s;
        dispose_all disp (rd32 (mem s) (walk + 4)) s
      })"

definition ptclear_msgs :: "int \<Rightarrow> (u32 \<Rightarrow> 'a ips \<Rightarrow> 'a ips option) \<Rightarrow> 'a ips \<Rightarrow> 'a ips option" where
  "ptclear_msgs portid disp s = do {
     let s = upd_port portid (\<lambda>e. e\<lparr>ptstate := PT_LIMBO, ptseq := ptseq e + 1\<rparr>) s;
     let walk = pthead (porttab s portid);
     if walk \<noteq> NULL then do {
       s \<leftarrow> dispose_all disp walk s;
       let s = wrk (pttail (porttab s portid) + 4) (ptfree s) s;
       Some (s\<lparr>ptfree := pthead (porttab s portid)\<rparr>)
     }
     else Some s
   }"

definition ptclear_done :: "int \<Rightarrow> ptstate \<Rightarrow> 'a ips \<Rightarrow> (int ctl \<times> 'a ips) option" where
  "ptclear_done portid newstate s = Some (Ret OK, upd_port portid (\<lambda>e. e\<lparr>ptstate := newstate\<rparr>) s)"

definition ptclear_recv :: "int \<Rightarrow> ptstate \<Rightarrow> 'a ips \<Rightarrow> (int ctl \<times> 'a ips) option" where
  "ptclear_recv portid newstate s = do {
     let cur = currpid s;
     (_, s) \<leftarrow> (if newstate = PT_ALLOC then semreset (ptrsem (porttab s portid)) 0 s
              else semdelete (ptrsem (porttab s portid)) s);
     when_current cur (ptclear_done portid newstate) s
   }"

definition ptclear :: "int \<Rightarrow> ptstate \<Rightarrow> (u32 \<Rightarrow> 'a ips \<Rightarrow> 'a ips option) \<Rightarrow> 'a ips \<Rightarrow> (int ctl \<times> 'a ips) option" where
  "ptclear portid newstate disp s = do {
     let cur = currpid s;
     s \<leftarrow> ptclear_msgs portid disp s;
     (_, s) \<leftarrow>
       (if newstate = PT_ALLOC then
          let s = upd_port portid (\<lambda>e. e\<lparr>pthead := NULL, pttail := NULL\<rparr>) s
          in semreset (ptssem (porttab s portid)) (uint (ptmaxcnt (porttab s portid))) s
        else semdelete (ptssem (porttab s portid)) s);
     when_current cur (ptclear_recv portid newstate) s
   }"

definition ptdelete :: "int \<Rightarrow> (u32 \<Rightarrow> 'a ips \<Rightarrow> 'a ips option) \<Rightarrow> 'a ips \<Rightarrow> (int ctl \<times> 'a ips) option" where
  "ptdelete portid disp s =
     (if isbadport portid \<or> ptstate (porttab s portid) \<noteq> PT_ALLOC then Some (Ret SYSERR, s)
      else do {
        (r, s) \<leftarrow> ptclear portid PT_FREE disp s;
        case r of Ret _ \<Rightarrow> Some (Ret OK, s\<lparr>ptnextid := portid\<rparr>) | _ \<Rightarrow> Some (r, s)
      })"

definition ptreset :: "int \<Rightarrow> (u32 \<Rightarrow> 'a ips \<Rightarrow> 'a ips option) \<Rightarrow> 'a ips \<Rightarrow> (int ctl \<times> 'a ips) option" where
  "ptreset portid disp s =
     (if isbadport portid \<or> ptstate (porttab s portid) \<noteq> PT_ALLOC then Some (Ret SYSERR, s)
      else do {
        (r, s) \<leftarrow> ptclear portid PT_ALLOC disp s;
        case r of Ret _ \<Rightarrow> Some (Ret OK, s) | _ \<Rightarrow> Some (r, s)
      })"

section \<open>Ports as queues\<close>

definition node :: "addr \<Rightarrow> bool" where "node a \<longleftrightarrow> a \<noteq> NULL \<and> unat a mod 8 = 0"

lemma node_words:
  assumes "node a"
  shows "aligned4 a" "aligned4 (a + 4)" "a \<noteq> NULL" "node b \<Longrightarrow> a + 4 \<noteq> b" "node b \<Longrightarrow> b \<noteq> a + 4"
proof -
  have m: "unat a mod 8 = 0" "a \<noteq> NULL" using assms by (simp_all add: node_def)
  then show al: "aligned4 a" "a \<noteq> NULL" unfolding aligned4_def by presburger+
  then show "aligned4 (a + 4)" by simp
  have "unat a < 4294967296" using unsigned_less [of a] by simp
  then have lt: "unat a + 4 < 4294967296" using m(1) by presburger
  have "unat (a + 4) = unat a + 4" using lt by (simp add: unat_word_ariths)
  then have "unat (a + 4) mod 8 = 4" using m(1) by presburger
  then show "node b \<Longrightarrow> a + 4 \<noteq> b" "node b \<Longrightarrow> b \<noteq> a + 4" by (auto simp: node_def)
qed

definition port_list :: "'a ips \<Rightarrow> int \<Rightarrow> addr list \<Rightarrow> addr list \<Rightarrow> bool" where
  "port_list s i ns fs \<longleftrightarrow> chain (mem s) 4 (pthead (porttab s i)) ns \<and>
     pttail (porttab s i) = (if ns = [] then NULL else last ns) \<and>
     chain (mem s) 4 (ptfree s) fs \<and> distinct (ns @ fs) \<and> (\<forall>n \<in> set (ns @ fs). node n)"

definition messages :: "'a ips \<Rightarrow> addr list \<Rightarrow> u32 list" where
  "messages s ns = map (rd32 (mem s)) ns"

lemma chain_NULL: "chain m off NULL bs \<longleftrightarrow> bs = []"
  by (cases bs) auto

text \<open>Writing one word of a node leaves the words of the others as they are.\<close>

lemma node_link_other:
  assumes "node a" "node b" "a \<noteq> b"
  shows "rd32 (wr32 m (a + 4) v) (b + 4) = rd32 m (b + 4)" "rd32 (wr32 m a v) (b + 4) = rd32 m (b + 4)"
    "rd32 (wr32 m a v) b = rd32 m b"
  using node_words [OF assms(1)] node_words [OF assms(2)] assms by (simp_all add: rd32_wr32)

lemma node_word_other:
  assumes "node a" "node b"
  shows "rd32 (wr32 m (a + 4) v) b = rd32 m b" "rd32 (wr32 m b v) (a + 4) = rd32 m (a + 4)"
  using node_words [OF assms(1)] node_words [OF assms(2)] assms by (simp_all add: rd32_wr32)

lemma chain_new_node:
  assumes "node f" "\<forall>x \<in> set xs. node x \<and> x \<noteq> f"
  shows "chain (wr32 (wr32 m (f + 4) v) f w) 4 p xs = chain m 4 p xs" "chain (wr32 m (f + 4) v) 4 p xs = chain m 4 p xs"
    "\<forall>x \<in> set xs. rd32 (wr32 (wr32 m (f + 4) v) f w) x = rd32 m x"
proof -
  have o: "node x" "f \<noteq> x" if "x \<in> set xs" for x using assms(2) that by auto
  show "chain (wr32 (wr32 m (f + 4) v) f w) 4 p xs = chain m 4 p xs" "chain (wr32 m (f + 4) v) 4 p xs = chain m 4 p xs"
    by (rule chain_cong; simp add: node_link_other [OF assms(1) o])+
  show "\<forall>x \<in> set xs. rd32 (wr32 (wr32 m (f + 4) v) f w) x = rd32 m x"
    by (simp add: node_link_other(3) [OF assms(1) o] node_word_other(1) [OF assms(1) o(1)])
qed

lemma port_listD:
  assumes "port_list s i ns fs"
  shows "chain (mem s) 4 (pthead (porttab s i)) ns" "pttail (porttab s i) = (if ns = [] then NULL else last ns)"
    "chain (mem s) 4 (ptfree s) fs" "distinct ns" "distinct fs" "set ns \<inter> set fs = {}"
    "\<forall>n \<in> set ns. node n" "\<forall>n \<in> set fs. node n"
  using assms by (auto simp: port_list_def)

lemma pt_put_list:
  assumes P: "port_list s i ns (f # fs)"
  shows "port_list (pt_put i msg s) i (ns @ [f]) fs" "messages (pt_put i msg s) (ns @ [f]) = messages s ns @ [msg]"
proof -
  let ?m = "wr32 (wr32 (mem s) (f + 4) NULL) f msg" and ?fr = "rd32 (mem s) (f + 4)"
  note D = port_listD [OF P]
  have nf: "node f" "f \<noteq> NULL" "ptfree s = f" "chain (mem s) 4 ?fr fs" "f \<notin> set fs" "f \<notin> set ns"
    using D by auto
  have o: "\<forall>x \<in> set ns. node x \<and> x \<noteq> f" "\<forall>x \<in> set fs. node x \<and> x \<noteq> f" using D by auto
  note ns = chain_new_node [OF nf(1) o(1), of "mem s" NULL msg] and fs = chain_new_node [OF nf(1) o(2), of "mem s" NULL msg]
  have e: "rd32 ?m (f + 4) = NULL" "rd32 ?m f = msg" by (simp_all add: node_word_other [OF nf(1) nf(1)])
  have "port_list (pt_put i msg s) i (ns @ [f]) fs \<and> messages (pt_put i msg s) (ns @ [f]) = messages s ns @ [msg]"
  proof (cases ns rule: rev_cases)
    case Nil
    then have "pttail (porttab s i) = NULL" using D(2) by simp
    then have p: "mem (pt_put i msg s) = ?m" "porttab (pt_put i msg s) i = (porttab s i)\<lparr>pthead := f, pttail := f\<rparr>"
      "ptfree (pt_put i msg s) = ?fr"
      by (simp_all add: pt_put_def nf(3) wrk_def upd_port_def Let_def)
    show ?thesis unfolding port_list_def messages_def p using Nil D nf fs(1) e by simp
  next
    case (snoc ms t)
    let ?m' = "wr32 ?m (t + 4) f"
    have t: "node t" "t \<noteq> NULL" "t \<noteq> f" "t \<notin> set fs" using snoc o(1) D(6) node_words(3) [of t] by auto
    have "pttail (porttab s i) = t" using D(2) snoc by simp
    then have p: "mem (pt_put i msg s) = ?m'" "porttab (pt_put i msg s) i = (porttab s i)\<lparr>pttail := f\<rparr>"
      "ptfree (pt_put i msg s) = ?fr"
      using t(2) by (simp_all add: pt_put_def nf(3) wrk_def upd_port_def Let_def)
    have h: "chain ?m 4 (pthead (porttab s i)) (ms @ [t])" using ns(1) D(1) snoc by simp
    have al: "\<forall>x \<in> set (ms @ [t, f]). aligned4 (x + 4)" using o(1) nf(1) snoc node_words(2) by auto
    have c1: "chain ?m' 4 (pthead (porttab s i)) (ms @ [t, f])"
      by (rule chain_append_one [OF h]) (use D(4) al e nf snoc in auto)
    have "\<forall>x \<in> set fs. node x \<and> x \<noteq> t" using o(2) t(4) by auto
    then have c2: "chain ?m' 4 ?fr fs" using chain_new_node(2) [OF t(1), of fs ?m f ?fr] fs(1) nf(4) by simp
    have "rd32 ?m' x = rd32 ?m x" if "x \<in> set (ns @ [f])" for x
      using that o(1) nf(1) by (intro node_word_other(1) [OF t(1)]) auto
    then have "map (rd32 ?m') (ns @ [f]) = map (rd32 ?m) (ns @ [f])" by simp
    also have "\<dots> = map (rd32 (mem s)) ns @ [msg]" using ns(3) e(2) by simp
    finally show ?thesis
      unfolding port_list_def messages_def p using snoc D nf c1 c2 t(3) by (simp add: ball_Un)
  qed
  then show "port_list (pt_put i msg s) i (ns @ [f]) fs" "messages (pt_put i msg s) (ns @ [f]) = messages s ns @ [msg]"
    by simp_all
qed

lemma pt_take_list:
  assumes P: "port_list s i (n # ns) fs"
  shows "fst (pt_take i s) = rd32 (mem s) n" "port_list (snd (pt_take i s)) i ns (n # fs)"
    "messages (snd (pt_take i s)) ns = messages s ns"
proof -
  let ?m = "wr32 (mem s) (n + 4) (ptfree s)"
  note D = port_listD [OF P]
  have h: "pthead (porttab s i) = n" "node n" "n \<noteq> NULL" "n \<notin> set ns" "n \<notin> set fs" "chain (mem s) 4 (rd32 (mem s) (n + 4)) ns"
    using D by auto
  have o: "\<forall>x \<in> set ns. node x \<and> x \<noteq> n" "\<forall>x \<in> set fs. node x \<and> x \<noteq> n" using D by auto
  have l: "n = pttail (porttab s i) \<longleftrightarrow> ns = []" using D(2) h(4) by (cases ns rule: rev_cases) auto
  have p: "fst (pt_take i s) = rd32 (mem s) n" "mem (snd (pt_take i s)) = ?m" "ptfree (snd (pt_take i s)) = n"
    "porttab (snd (pt_take i s)) i =
       (if ns = [] then (porttab s i)\<lparr>pthead := NULL, pttail := NULL\<rparr> else (porttab s i)\<lparr>pthead := rd32 (mem s) (n + 4)\<rparr>)"
    using l by (simp_all add: pt_take_def h(1) wrk_def upd_port_def Let_def)
  have "port_list (snd (pt_take i s)) i ns (n # fs)"
    unfolding port_list_def p using D h chain_new_node(2) [OF h(2) o(1)] chain_new_node(2) [OF h(2) o(2)]
    by auto
  moreover have "\<forall>x \<in> set ns. rd32 ?m x = rd32 (mem s) x" using o(1) node_word_other(1) [OF h(2)] by simp
  ultimately show "fst (pt_take i s) = rd32 (mem s) n" "port_list (snd (pt_take i s)) i ns (n # fs)"
    "messages (snd (pt_take i s)) ns = messages s ns"
    by (simp_all add: p messages_def)
qed

section \<open>Sending and receiving\<close>

text \<open>
  \<open>port s i ns fs\<close>: port \<open>i\<close> is in use, its semaphores are two different semaphores in use, and
  the receivers' one counts the messages.
\<close>

definition port :: "'a ips \<Rightarrow> int \<Rightarrow> addr list \<Rightarrow> addr list \<Rightarrow> bool" where
  "port s i ns fs \<longleftrightarrow> \<not> isbadport i \<and> ptstate (porttab s i) = PT_ALLOC \<and> port_list s i ns fs \<and>
     (let r = ptrsem (porttab s i); w = ptssem (porttab s i) in
      \<not> isbadsem r \<and> \<not> isbadsem w \<and> r \<noteq> w \<and> sstate (semtab s r) = S_USED \<and> sstate (semtab s w) = S_USED \<and>
      scount (semtab s r) = int (length ns))"

lemma port_sems:
  assumes "port s i ns fs"
  shows "\<not> isbadport i" "ptstate (porttab s i) = PT_ALLOC" "port_list s i ns fs"
    "\<not> isbadsem (ptrsem (porttab s i))" "\<not> isbadsem (ptssem (porttab s i))"
    "ptrsem (porttab s i) \<noteq> ptssem (porttab s i)"
    "sstate (semtab s (ptrsem (porttab s i))) = S_USED" "sstate (semtab s (ptssem (porttab s i))) = S_USED"
    "scount (semtab s (ptrsem (porttab s i))) = int (length ns)"
  using assms by (simp_all add: port_def Let_def)

text \<open>What \<open>pt_put\<close> and \<open>pt_take\<close> leave as it is.\<close>

lemma pt_put_frame:
  "kinv (pt_put i msg s) = kinv s" "semtab (pt_put i msg s) = semtab s" "currpid (pt_put i msg s) = currpid s"
  "ptstate (porttab (pt_put i msg s) i) = ptstate (porttab s i)" "ptseq (porttab (pt_put i msg s) i) = ptseq (porttab s i)"
  "ptssem (porttab (pt_put i msg s) i) = ptssem (porttab s i)" "ptrsem (porttab (pt_put i msg s) i) = ptrsem (porttab s i)"
  by (simp_all add: pt_put_def Let_def) (simp_all add: upd_port_def wrk_def)

lemma pt_take_frame:
  "kinv (snd (pt_take i s)) = kinv s" "semtab (snd (pt_take i s)) = semtab s" "currpid (snd (pt_take i s)) = currpid s"
  "ptstate (porttab (snd (pt_take i s)) i) = ptstate (porttab s i)"
  "ptssem (porttab (snd (pt_take i s)) i) = ptssem (porttab s i)"
  "ptrsem (porttab (snd (pt_take i s)) i) = ptrsem (porttab s i)"
  by (simp_all add: pt_take_def Let_def) (simp_all add: upd_port_def wrk_def)

lemma upd_sem_ports [simp]:
  "porttab (upd_sem j f s) = porttab s" "ptfree (upd_sem j f s) = ptfree s" "mem (upd_sem j f s) = mem s"
  "semtab (upd_sem j f s) = (semtab s)(j := f (semtab s j))"
  by (simp_all add: upd_sem_def)

lemma port_list_upd_sem [simp]:
  "port_list (upd_sem j f s) i ns fs = port_list s i ns fs" "messages (upd_sem j f s) ns = messages s ns"
  by (simp_all add: port_list_def messages_def upd_sem_def)

lemma signal_free:
  assumes "\<not> isbadsem j" "sstate (semtab s j) = S_USED" "0 \<le> scount (semtab s j)"
  shows "signal j s = Some (OK, upd_sem j (\<lambda>e. e\<lparr>scount := scount e + 1\<rparr>) s)"
  using assms by (simp add: signal_def Let_def upd_sem_def)

lemma signal_free_kinv:
  assumes "kinv s" "\<not> isbadsem j" "sstate (semtab s j) = S_USED" "0 \<le> scount (semtab s j)"
  shows "kinv (upd_sem j (\<lambda>e. e\<lparr>scount := scount e + 1\<rparr>) s)"
  using signal_kinv [OF assms(1), of j] signal_free [OF assms(2-4)] by auto

lemma ptsend_appends:
  assumes I: "kinv s" and P: "port s i ns (f # fs)" and c: "0 < scount (semtab s (ptssem (porttab s i)))"
  shows "\<exists>s'. ptsend i msg s = Some (Ret OK, s') \<and> kinv s' \<and> port s' i (ns @ [f]) fs \<and>
    messages s' (ns @ [f]) = messages s ns @ [msg] \<and>
    ptssem (porttab s' i) = ptssem (porttab s i) \<and>
    scount (semtab s' (ptssem (porttab s' i))) = scount (semtab s (ptssem (porttab s i))) - 1"
proof -
  let ?w = "ptssem (porttab s i)" and ?r = "ptrsem (porttab s i)"
  let ?s1 = "upd_sem ?w (\<lambda>e. e\<lparr>scount := scount e - 1\<rparr>) s"
  let ?s2 = "pt_put i msg ?s1" and ?f = "\<lambda>e. e\<lparr>scount := scount e + 1\<rparr>"
  note S = port_sems [OF P]
  note w = wait_pass [OF I S(5,8) c]
  have e1: "porttab ?s1 = porttab s" "ptfree ?s1 = ptfree s" by simp_all
  have L: "port_list ?s1 i ns (f # fs)" using S(3) by simp
  note F = pt_put_frame [of i msg ?s1, unfolded e1]
  have nf: "ptfree s \<noteq> NULL" using S(3) by (auto simp: port_list_def)
  have r: "\<not> isbadsem ?r" "sstate (semtab ?s2 ?r) = S_USED" "0 \<le> scount (semtab ?s2 ?r)"
    using S unfolding F by simp_all
  have "ptsend i msg s = ptsend_end OK (ptseq (porttab s i)) i msg ?s1"
    using S(1,2) w(1) by (simp add: ptsend_def when_current_def upd_sem_def)
  also have "\<dots> = Some (Ret OK, upd_sem ?r ?f ?s2)"
    using S(2) nf signal_free [OF r] by (simp add: ptsend_end_def e1 F)
  finally have g: "ptsend i msg s = Some (Ret OK, upd_sem ?r ?f ?s2)" .
  have "kinv (upd_sem ?r ?f ?s2)" by (rule signal_free_kinv [OF _ r]) (simp add: F w(2))
  moreover have "port (upd_sem ?r ?f ?s2) i (ns @ [f]) fs"
    using S pt_put_list(1) [OF L, of msg] unfolding port_def Let_def by (simp add: F)
  moreover have "messages (upd_sem ?r ?f ?s2) (ns @ [f]) = messages s ns @ [msg]"
    using pt_put_list(2) [OF L, of msg] by simp
  ultimately show ?thesis using g S(6) by (intro exI [of _ "upd_sem ?r ?f ?s2"]) (simp add: F)
qed

lemma ptrecv_takes_first:
  assumes I: "kinv s" and P: "port s i (n # ns) fs" and c: "0 \<le> scount (semtab s (ptssem (porttab s i)))"
  shows "\<exists>s'. ptrecv i s = Some (Ret (hd (messages s (n # ns))), s') \<and> kinv s' \<and> port s' i ns (n # fs) \<and>
    messages s' ns = tl (messages s (n # ns)) \<and>
    ptssem (porttab s' i) = ptssem (porttab s i) \<and>
    scount (semtab s' (ptssem (porttab s' i))) = scount (semtab s (ptssem (porttab s i))) + 1"
proof -
  let ?w = "ptssem (porttab s i)" and ?r = "ptrsem (porttab s i)"
  let ?s1 = "upd_sem ?r (\<lambda>e. e\<lparr>scount := scount e - 1\<rparr>) s"
  let ?s2 = "snd (pt_take i ?s1)" and ?f = "\<lambda>e. e\<lparr>scount := scount e + 1\<rparr>"
  note S = port_sems [OF P]
  have cr: "0 < scount (semtab s ?r)" using S(9) by simp
  note w = wait_pass [OF I S(4,7) cr]
  have e1: "porttab ?s1 = porttab s" "ptfree ?s1 = ptfree s" "mem ?s1 = mem s" by simp_all
  have L: "port_list ?s1 i (n # ns) fs" using S(3) by simp
  note F = pt_take_frame [of i ?s1, unfolded e1] and T = pt_take_list [OF L]
  have r: "\<not> isbadsem ?w" "sstate (semtab ?s2 ?w) = S_USED" "0 \<le> scount (semtab ?s2 ?w)"
    using S c unfolding F by simp_all
  have "ptrecv i s = ptrecv_end OK (ptseq (porttab s i)) i ?s1"
    using S(1,2) w(1) by (simp add: ptrecv_def when_current_def upd_sem_def)
  also have "\<dots> = Some (Ret (rd32 (mem s) n), upd_sem ?w ?f ?s2)"
    using S(2) T(1) signal_free [OF r] by (simp add: ptrecv_end_def e1 F split_beta)
  finally have g: "ptrecv i s = Some (Ret (rd32 (mem s) n), upd_sem ?w ?f ?s2)" .
  have "kinv (upd_sem ?w ?f ?s2)" by (rule signal_free_kinv [OF _ r]) (simp add: F w(2))
  moreover have "port (upd_sem ?w ?f ?s2) i ns (n # fs)"
    using S T(2) unfolding port_def Let_def by (simp add: F)
  moreover have "messages (upd_sem ?w ?f ?s2) ns = messages s ns" using T(3) by simp
  ultimately show ?thesis using g S(6)
    by (intro exI [of _ "upd_sem ?w ?f ?s2"]) (simp add: F messages_def)
qed

section \<open>Properties\<close>

text \<open>
  C27: a port is a first-in first-out queue: after a message is sent to a port with a free place,
  \<open>ptrecv\<close> returns the oldest message of the queue it makes, and the others stay in their order.
\<close>

theorem ports_are_fifo:
  assumes "kinv s" "port s i ns (f # fs)" "0 < scount (semtab s (ptssem (porttab s i)))"
  shows "\<exists>s1 s2 ns' fs'. ptsend i msg s = Some (Ret OK, s1) \<and> messages s1 (ns @ [f]) = messages s ns @ [msg] \<and>
    ptrecv i s1 = Some (Ret (hd (messages s ns @ [msg])), s2) \<and> kinv s2 \<and> port s2 i ns' fs' \<and>
    messages s2 ns' = tl (messages s ns @ [msg]) \<and>
    scount (semtab s2 (ptssem (porttab s2 i))) = scount (semtab s (ptssem (porttab s i)))"
proof -
  obtain s1 where s1: "ptsend i msg s = Some (Ret OK, s1)" "kinv s1" "port s1 i (ns @ [f]) fs"
    "messages s1 (ns @ [f]) = messages s ns @ [msg]"
    "scount (semtab s1 (ptssem (porttab s1 i))) = scount (semtab s (ptssem (porttab s i))) - 1"
    using ptsend_appends [OF assms, of msg] by blast
  obtain n ns' where n: "ns @ [f] = n # ns'" by (cases "ns @ [f]") auto
  have c: "0 \<le> scount (semtab s1 (ptssem (porttab s1 i)))" using s1(5) assms(3) by simp
  obtain s2 where "ptrecv i s1 = Some (Ret (hd (messages s1 (n # ns'))), s2)" "kinv s2" "port s2 i ns' (n # fs)"
    "messages s2 ns' = tl (messages s1 (n # ns'))"
    "scount (semtab s2 (ptssem (porttab s2 i))) = scount (semtab s1 (ptssem (porttab s1 i))) + 1"
    using ptrecv_takes_first [OF s1(2) s1(3) [unfolded n] c] by blast
  with s1 n show ?thesis by auto
qed


end
