(* ===== verification/Tty.thy ===== *)
theory Tty
  imports Strings Devices Ipc_State Kernel
begin

text \<open>
  The driver of the serial line (\<^verbatim>\<open>device/tty\<close>, \<^verbatim>\<open>include/tty.h\<close>). The upper half reads and
  writes characters through two ring buffers, each counted by a semaphore; the lower half is
  called by the interrupt handler with the characters that arrived, does the line editing, and
  fills the output FIFO. Pointers into a buffer are indices; an index equal to the length of the
  buffer, which one path of the code stores through, is a cell of its own. The UART is its
  interrupt-enable register, the characters waiting in its input FIFO and those sent so far.
  A call that blocks in the middle of a line has handed out the characters up to there; what is
  left is \<open>ttygetc_end\<close> or \<open>ttyput_end\<close> and the rest of the loop.
\<close>

section \<open>State\<close>

abbreviation (input) TY_IBUFLEN :: int where "TY_IBUFLEN \<equiv> 128"
abbreviation (input) TY_OBUFLEN :: int where "TY_OBUFLEN \<equiv> 64"
abbreviation (input) TY_EBUFLEN :: int where "TY_EBUFLEN \<equiv> 20"
abbreviation (input) TY_BACKSP :: u8 where "TY_BACKSP \<equiv> 8"
abbreviation (input) TY_BACKSP2 :: u8 where "TY_BACKSP2 \<equiv> 127"
abbreviation (input) TY_EOFCH :: u8 where "TY_EOFCH \<equiv> 4"
abbreviation (input) TY_BLANK :: u8 where "TY_BLANK \<equiv> 32"
abbreviation (input) TY_NEWLINE :: u8 where "TY_NEWLINE \<equiv> 10"
abbreviation (input) TY_RETURN :: u8 where "TY_RETURN \<equiv> 13"
abbreviation (input) TY_STOPCH :: u8 where "TY_STOPCH \<equiv> 19"
abbreviation (input) TY_STRTCH :: u8 where "TY_STRTCH \<equiv> 17"
abbreviation (input) TY_KILLCH :: u8 where "TY_KILLCH \<equiv> 21"
abbreviation (input) TY_UPARROW :: u8 where "TY_UPARROW \<equiv> 94"
abbreviation (input) TY_FULLCH :: u8 where "TY_FULLCH \<equiv> 7"
abbreviation (input) EOF :: int where "EOF \<equiv> -2"

datatype tymode = TY_IMRAW | TY_IMCOOKED | TY_IMCBREAK

record ttycblk =
  tyihead :: int
  tyitail :: int
  tyibuff :: "int \<Rightarrow> u8"
  tyisem :: int
  tyohead :: int
  tyotail :: int
  tyobuff :: "int \<Rightarrow> u8"
  tyosem :: int
  tyehead :: int
  tyetail :: int
  tyebuff :: "int \<Rightarrow> u8"
  tyimode :: tymode
  tyiecho :: bool
  tyieback :: bool
  tyevis :: bool
  tyecrlf :: bool
  tyicrlf :: bool
  tyierase :: bool
  tyierasec :: u8
  tyierasec2 :: u8
  tyeof :: bool
  tyeofch :: u8
  tyikill :: bool
  tyikillc :: u8
  tyicursor :: int
  tyoflow :: bool
  tyoheld :: bool
  tyostop :: u8
  tyostart :: u8
  tyocrlf :: bool
  tyifullc :: u8

record uart =
  uier :: u32            \<comment> \<open>interrupt enable\<close>
  ulcr :: u32            \<comment> \<open>line control\<close>
  udivisor :: u32        \<comment> \<open>\<open>dlm\<close> and \<open>dll\<close>\<close>
  ufcr :: u32            \<comment> \<open>FIFO control\<close>
  urx :: "u8 list"       \<comment> \<open>characters that arrived\<close>
  utx :: "u8 list"       \<comment> \<open>characters sent, the first one first\<close>

record ttystate = kstate +
  ttytab :: "int \<Rightarrow> ttycblk"
  csr :: uart

type_synonym 'a tys = "'a ttystate_scheme"

definition upd_tty :: "int \<Rightarrow> (ttycblk \<Rightarrow> ttycblk) \<Rightarrow> 'a tys \<Rightarrow> 'a tys" where
  "upd_tty i f s = s\<lparr>ttytab := (ttytab s)(i := f (ttytab s i))\<rparr>"

text \<open>Advancing an index of a ring buffer, and storing at an index.\<close>

definition wrap :: "int \<Rightarrow> int \<Rightarrow> int" where
  "wrap len i = (if i + 1 \<ge> len then 0 else i + 1)"

definition put_in :: "u8 \<Rightarrow> ttycblk \<Rightarrow> ttycblk" where
  "put_in ch t = t\<lparr>tyibuff := (tyibuff t)(tyitail t := ch), tyitail := wrap TY_IBUFLEN (tyitail t)\<rparr>"

definition put_out :: "u8 \<Rightarrow> ttycblk \<Rightarrow> ttycblk" where
  "put_out ch t = t\<lparr>tyobuff := (tyobuff t)(tyotail t := ch), tyotail := wrap TY_OBUFLEN (tyotail t)\<rparr>"

definition put_echo :: "u8 \<Rightarrow> ttycblk \<Rightarrow> ttycblk" where
  "put_echo ch t = t\<lparr>tyebuff := (tyebuff t)(tyetail t := ch), tyetail := wrap TY_EBUFLEN (tyetail t)\<rparr>"

section \<open>Starting the device\<close>

text \<open>\<open>UART_IER_ERBFI | UART_IER_ETBEI\<close> is 3.\<close>

definition ttykickout :: "'a tys \<Rightarrow> 'a tys" where
  "ttykickout s = s\<lparr>csr := (csr s)\<lparr>uier := 3\<rparr>\<rparr>"

definition ttyinit :: "dentry \<Rightarrow> 'a tys \<Rightarrow> int \<times> 'a tys" where
  "ttyinit devptr s =
     (let minor = dvminor devptr;
          s = upd_tty minor (\<lambda>t. t\<lparr>tyihead := 0, tyitail := 0\<rparr>) s;
          (isem, s) = semcreate 0 s;
          s = upd_tty minor (\<lambda>t. t\<lparr>tyisem := isem, tyohead := 0, tyotail := 0\<rparr>) s;
          (osem, s) = semcreate TY_OBUFLEN s;
          s = upd_tty minor (\<lambda>t. t\<lparr>tyosem := osem, tyehead := 0, tyetail := 0, tyimode := TY_IMCOOKED,
                tyiecho := True, tyieback := True, tyevis := True, tyecrlf := True, tyicrlf := True,
                tyierase := True, tyierasec := TY_BACKSP, tyierasec2 := TY_BACKSP2, tyeof := True,
                tyeofch := TY_EOFCH, tyikill := True, tyikillc := TY_KILLCH, tyicursor := 0,
                tyoflow := True, tyoheld := False, tyostop := TY_STOPCH, tyostart := TY_STRTCH,
                tyocrlf := True, tyifullc := TY_FULLCH\<rparr>) s;
          s = s\<lparr>csr := (csr s)\<lparr>udivisor := 0x18, ulcr := 3, ufcr := 0x87\<rparr>\<rparr>
      in (OK, ttykickout s))"

section \<open>The upper half\<close>

text \<open>The value of \<open>(devcall) ch\<close>: characters are signed.\<close>

definition ttygetc_end :: "int \<Rightarrow> 'a tys \<Rightarrow> (int ctl \<times> 'a tys) option" where
  "ttygetc_end minor s =
     (let t = ttytab s minor;
          ch = tyibuff t (tyihead t);
          s = upd_tty minor (\<lambda>t. t\<lparr>tyihead := wrap TY_IBUFLEN (tyihead t)\<rparr>) s
      in if tyimode t = TY_IMCOOKED \<and> tyeof t \<and> ch = tyeofch t then Some (Ret EOF, s)
         else Some (Ret (schar ch), s))"

definition ttygetc :: "dentry \<Rightarrow> 'a tys \<Rightarrow> (int ctl \<times> 'a tys) option" where
  "ttygetc devptr s = do {
     let minor = dvminor devptr;
     let cur = currpid s;
     (_, s) \<leftarrow> wait_sem (tyisem (ttytab s minor)) s;
     when_current cur (ttygetc_end minor) s
   }"

text \<open>A character in the user's buffer.\<close>

definition wr8 :: "addr \<Rightarrow> u8 \<Rightarrow> 'a ks \<Rightarrow> 'a ks" where
  "wr8 a c s = s\<lparr>mem := (mem s)(a := c)\<rparr>"

text \<open>Reading without line editing: \<open>n\<close> characters are still wanted.\<close>

fun ttyread_raw :: "nat \<Rightarrow> dentry \<Rightarrow> addr \<Rightarrow> int \<Rightarrow> 'a tys \<Rightarrow> (int ctl \<times> 'a tys) option" where
  "ttyread_raw 0 devptr buff nread s = Some (Ret nread, s)"
| "ttyread_raw (Suc n) devptr buff nread s = do {
     (r, s) \<leftarrow> ttygetc devptr s;
     case r of
       Ret ch \<Rightarrow> ttyread_raw n devptr (buff + 1) (nread + 1) (wr8 buff (word_of_int ch) s)
     | _ \<Rightarrow> Some (r, s)
   }"

text \<open>The rest of a line after its first character; \<open>n\<close> characters still fit.\<close>

fun ttyread_line :: "nat \<Rightarrow> dentry \<Rightarrow> u8 \<Rightarrow> addr \<Rightarrow> int \<Rightarrow> 'a tys \<Rightarrow> (int ctl \<times> 'a tys) option" where
  "ttyread_line 0 devptr ch buff nread s = Some (Ret nread, s)"
| "ttyread_line (Suc n) devptr ch buff nread s =
     (if ch = TY_NEWLINE \<or> ch = TY_RETURN then Some (Ret nread, s)
      else do {
        (r, s) \<leftarrow> ttygetc devptr s;
        case r of
          Ret c \<Rightarrow> ttyread_line n devptr (word_of_int c) (buff + 1) (nread + 1) (wr8 buff (word_of_int c) s)
        | _ \<Rightarrow> Some (r, s)
      })"

definition ttyread :: "dentry \<Rightarrow> addr \<Rightarrow> int \<Rightarrow> 'a tys \<Rightarrow> (int ctl \<times> 'a tys) option" where
  "ttyread devptr buff count s =
     (if count < 0 then Some (Ret SYSERR, s)
      else
        let t = ttytab s (dvminor devptr) in
        if tyimode t \<noteq> TY_IMCOOKED then
          if count = 0 then
            let avail = semcount (tyisem t) s in
            if avail = 0 then Some (Ret 0, s) else ttyread_raw (nat avail) devptr buff 0 s
          else ttyread_raw (nat count) devptr buff 0 s
        else do {
          (r, s) \<leftarrow> ttygetc devptr s;
          case r of
            Ret firstch \<Rightarrow>
              if firstch = EOF then Some (Ret EOF, s)
              else ttyread_line (nat (count - 1)) devptr (word_of_int firstch) (buff + 1) 1
                     (wr8 buff (word_of_int firstch) s)
          | _ \<Rightarrow> Some (r, s)
        })"

definition ttyput_end :: "int \<Rightarrow> u8 \<Rightarrow> 'a tys \<Rightarrow> (int ctl \<times> 'a tys) option" where
  "ttyput_end minor ch s = Some (Ret OK, ttykickout (upd_tty minor (put_out ch) s))"

text \<open>The part of \<open>ttyputc\<close> after the test for a newline.\<close>

definition ttyput :: "int \<Rightarrow> u8 \<Rightarrow> 'a tys \<Rightarrow> (int ctl \<times> 'a tys) option" where
  "ttyput minor ch s = do {
     let cur = currpid s;
     (_, s) \<leftarrow> wait_sem (tyosem (ttytab s minor)) s;
     when_current cur (ttyput_end minor ch) s
   }"

definition ttyputc :: "dentry \<Rightarrow> u8 \<Rightarrow> 'a tys \<Rightarrow> (int ctl \<times> 'a tys) option" where
  "ttyputc devptr ch s =
     (let minor = dvminor devptr in
      if ch = TY_NEWLINE \<and> tyocrlf (ttytab s minor) then do {
        (r, s) \<leftarrow> ttyput minor TY_RETURN s;
        case r of Ret _ \<Rightarrow> ttyput minor ch s | _ \<Rightarrow> Some (r, s)
      }
      else ttyput minor ch s)"

fun ttywrite_loop :: "nat \<Rightarrow> dentry \<Rightarrow> addr \<Rightarrow> 'a tys \<Rightarrow> (int ctl \<times> 'a tys) option" where
  "ttywrite_loop 0 devptr buff s = Some (Ret OK, s)"
| "ttywrite_loop (Suc n) devptr buff s = do {
     (r, s) \<leftarrow> ttyputc devptr (mem s buff) s;
     case r of Ret _ \<Rightarrow> ttywrite_loop n devptr (buff + 1) s | _ \<Rightarrow> Some (r, s)
   }"

definition ttywrite :: "dentry \<Rightarrow> addr \<Rightarrow> int \<Rightarrow> 'a tys \<Rightarrow> (int ctl \<times> 'a tys) option" where
  "ttywrite devptr buff count s =
     (if count < 0 then Some (Ret SYSERR, s)
      else if count = 0 then Some (Ret OK, s)
      else ttywrite_loop (nat count) devptr buff s)"

text \<open>\<open>ttycontrol\<close>; looking ahead reads the slot for the next character that arrives.\<close>

definition ttynextc_end :: "int \<Rightarrow> 'a tys \<Rightarrow> (int ctl \<times> 'a tys) option" where
  "ttynextc_end minor s = do {
     let ch = tyibuff (ttytab s minor) (tyitail (ttytab s minor));
     (_, s) \<leftarrow> signal (tyisem (ttytab s minor)) s;
     Some (Ret (schar ch), s)
   }"

definition ttycontrol :: "dentry \<Rightarrow> int \<Rightarrow> 'a tys \<Rightarrow> (int ctl \<times> 'a tys) option" where
  "ttycontrol devptr func s =
     (let minor = dvminor devptr; t = ttytab s minor in
      if func = 3 then do {
        let cur = currpid s;
        (_, s) \<leftarrow> wait_sem (tyisem t) s;
        when_current cur (ttynextc_end minor) s
      }
      else if func = 4 then Some (Ret OK, upd_tty minor (\<lambda>t. t\<lparr>tyimode := TY_IMRAW\<rparr>) s)
      else if func = 5 then Some (Ret OK, upd_tty minor (\<lambda>t. t\<lparr>tyimode := TY_IMCOOKED\<rparr>) s)
      else if func = 6 then Some (Ret OK, upd_tty minor (\<lambda>t. t\<lparr>tyimode := TY_IMCBREAK\<rparr>) s)
      else if func = 8 then Some (Ret (semcount (tyisem t) s), s)
      else if func = 9 then Some (Ret OK, upd_tty minor (\<lambda>t. t\<lparr>tyiecho := True\<rparr>) s)
      else if func = 10 then Some (Ret OK, upd_tty minor (\<lambda>t. t\<lparr>tyiecho := False\<rparr>) s)
      else Some (Ret SYSERR, s))"

section \<open>The lower half\<close>

definition eputc :: "u8 \<Rightarrow> int \<Rightarrow> 'a tys \<Rightarrow> 'a tys" where
  "eputc ch minor s = ttykickout (upd_tty minor (put_echo ch) s)"

text \<open>\<open>ch < TY_BLANK || ch == 0177\<close> on signed characters.\<close>

definition unprintable :: "u8 \<Rightarrow> bool" where
  "unprintable ch \<longleftrightarrow> schar ch < 32 \<or> ch = 127"

definition echoch :: "u8 \<Rightarrow> int \<Rightarrow> 'a tys \<Rightarrow> 'a tys" where
  "echoch ch minor s =
     (if (ch = TY_NEWLINE \<or> ch = TY_RETURN) \<and> tyecrlf (ttytab s minor) then
        eputc TY_NEWLINE minor (eputc TY_RETURN minor s)
      else if unprintable ch \<and> tyevis (ttytab s minor) then
        eputc (ch + 64) minor (eputc TY_UPARROW minor s)
      else eputc ch minor s)"

text \<open>A backspace, and with it a blank over the character when \<open>tyieback\<close> is set.\<close>

definition ebackspace :: "int \<Rightarrow> 'a tys \<Rightarrow> 'a tys" where
  "ebackspace minor s =
     (let s = eputc TY_BACKSP minor s
      in if tyieback (ttytab s minor) then eputc TY_BACKSP minor (eputc TY_BLANK minor s) else s)"

definition erase1 :: "int \<Rightarrow> 'a tys \<Rightarrow> 'a tys" where
  "erase1 minor s =
     (let s = upd_tty minor (\<lambda>t. t\<lparr>tyitail := (if tyitail t - 1 < 0 then tyitail t - 1 + TY_IBUFLEN else tyitail t - 1)\<rparr>) s;
          t = ttytab s minor;
          ch = tyibuff t (tyitail t)
      in if tyiecho t then
           if unprintable ch then ebackspace minor (if tyevis t then ebackspace minor s else s)
           else ebackspace minor s
         else s)"

definition ttyin_raw :: "u8 \<Rightarrow> int \<Rightarrow> int \<Rightarrow> 'a tys \<Rightarrow> 'a tys option" where
  "ttyin_raw ch avail minor s =
     (if avail \<ge> TY_IBUFLEN then Some s
      else do {
        let s = upd_tty minor (put_in ch) s;
        (_, s) \<leftarrow> signal (tyisem (ttytab s minor)) s;
        Some s
      })"

definition ttyin_cbreak :: "u8 \<Rightarrow> int \<Rightarrow> int \<Rightarrow> 'a tys \<Rightarrow> 'a tys" where
  "ttyin_cbreak ch avail minor s =
     (if avail \<ge> TY_IBUFLEN then eputc (tyifullc (ttytab s minor)) minor s
      else
        let s = upd_tty minor (put_in ch) s
        in if tyiecho (ttytab s minor) then echoch ch minor s else s)"

definition ttyin_cooked :: "u8 \<Rightarrow> int \<Rightarrow> 'a tys \<Rightarrow> 'a tys option" where
  "ttyin_cooked ch minor s =
     (let t = ttytab s minor in
      if ch = tyikillc t \<and> tyikill t then
        let s = upd_tty minor (\<lambda>t. t\<lparr>tyitail := (if tyitail t - tyicursor t < 0
              then tyitail t - tyicursor t + TY_IBUFLEN else tyitail t - tyicursor t), tyicursor := 0\<rparr>) s
        in Some (eputc TY_NEWLINE minor (eputc TY_RETURN minor s))
      else if (ch = tyierasec t \<or> ch = tyierasec2 t) \<and> tyierase t then
        if tyicursor t > 0 then Some (erase1 minor (upd_tty minor (\<lambda>t. t\<lparr>tyicursor := tyicursor t - 1\<rparr>) s))
        else Some s
      else if ch = TY_NEWLINE \<or> ch = TY_RETURN then do {
        let s = (if tyiecho t then echoch ch minor s else s);
        let s = upd_tty minor (put_in ch) s;
        (_, s) \<leftarrow> signaln (tyisem t) (tyicursor t + 1) s;
        Some (upd_tty minor (\<lambda>t. t\<lparr>tyicursor := 0\<rparr>) s)
      }
      else
        let avail = (if semcount (tyisem t) s < 0 then 0 else semcount (tyisem t) s) in
        if avail + tyicursor t \<ge> TY_IBUFLEN - 1 then Some (eputc (tyifullc t) minor s)
        else if ch = tyeofch t \<and> tyeof t then
          let s = (if tyiecho t then echoch ch minor s else s) in
          if tyicursor t \<noteq> 0 then Some s
          else do {
            let s = upd_tty minor (\<lambda>t. t\<lparr>tyibuff := (tyibuff t)(tyitail t := ch), tyitail := tyitail t + 1\<rparr>) s;
            (_, s) \<leftarrow> signal (tyisem t) s;
            Some s
          }
        else
          let s = (if tyiecho t then echoch ch minor s else s)
          in Some (upd_tty minor (put_in ch) (upd_tty minor (\<lambda>t. t\<lparr>tyicursor := tyicursor t + 1\<rparr>) s)))"

text \<open>Taking the character out of the input FIFO, and what to do with it.\<close>

definition ttyin_char :: "u8 \<Rightarrow> int \<Rightarrow> 'a tys \<Rightarrow> 'a tys option" where
  "ttyin_char ch minor s =
     (let t = ttytab s minor;
          avail = (if semcount (tyisem t) s < 0 then 0 else semcount (tyisem t) s) in
      if tyimode t = TY_IMRAW then ttyin_raw ch avail minor s
      else
        let ch = (if ch = TY_RETURN \<and> tyicrlf t then TY_NEWLINE else ch) in
        if tyoflow t \<and> ch = tyostart t then Some (ttykickout (upd_tty minor (\<lambda>t. t\<lparr>tyoheld := False\<rparr>) s))
        else if tyoflow t \<and> ch = tyostop t then Some (upd_tty minor (\<lambda>t. t\<lparr>tyoheld := True\<rparr>) s)
        else
          let s = upd_tty minor (\<lambda>t. t\<lparr>tyoheld := False\<rparr>) s in
          if tyimode t = TY_IMCBREAK then Some (ttyin_cbreak ch avail minor s)
          else ttyin_cooked ch minor s)"

definition ttyhandle_in :: "int \<Rightarrow> 'a tys \<Rightarrow> 'a tys option" where
  "ttyhandle_in minor s =
     ttyin_char (hd (urx (csr s))) minor (s\<lparr>csr := (csr s)\<lparr>urx := tl (urx (csr s))\<rparr>\<rparr>)"

text \<open>
  Filling the output FIFO: echoed characters first, then those of the output buffer. The first
  argument is the space left in the FIFO; the result is what is left of it.
\<close>

fun send_echo :: "nat \<Rightarrow> int \<Rightarrow> 'a tys \<Rightarrow> nat \<times> 'a tys" where
  "send_echo 0 minor s = (0, s)"
| "send_echo (Suc n) minor s =
     (let t = ttytab s minor in
      if tyehead t = tyetail t then (Suc n, s)
      else
        let s = s\<lparr>csr := (csr s)\<lparr>utx := utx (csr s) @ [tyebuff t (tyehead t)]\<rparr>\<rparr>;
            s = upd_tty minor (\<lambda>t. t\<lparr>tyehead := wrap TY_EBUFLEN (tyehead t)\<rparr>) s
        in send_echo n minor s)"

fun send_out :: "nat \<Rightarrow> int \<Rightarrow> int \<Rightarrow> int \<Rightarrow> 'a tys \<Rightarrow> int \<times> 'a tys" where
  "send_out 0 avail ochars minor s = (ochars, s)"
| "send_out (Suc n) avail ochars minor s =
     (if avail \<le> 0 then (ochars, s)
      else
        let t = ttytab s minor;
            s = s\<lparr>csr := (csr s)\<lparr>utx := utx (csr s) @ [tyobuff t (tyohead t)]\<rparr>\<rparr>;
            s = upd_tty minor (\<lambda>t. t\<lparr>tyohead := wrap TY_OBUFLEN (tyohead t)\<rparr>) s
        in send_out n (avail - 1) (ochars + 1) minor s)"

definition ttyhandle_out :: "int \<Rightarrow> 'a tys \<Rightarrow> 'a tys option" where
  "ttyhandle_out minor s =
     (let t = ttytab s minor in
      if tyoheld t then Some s
      else if tyehead t = tyetail t \<and> semcount (tyosem t) s \<ge> TY_OBUFLEN then
        Some (s\<lparr>csr := (csr s)\<lparr>uier := uier (csr s) AND NOT 2\<rparr>\<rparr>)
      else
        let (uspace, s) = send_echo 16 minor s;
            (ochars, s) = send_out uspace (TY_OBUFLEN - semcount (tyosem t) s) 0 minor s
        in if ochars > 0 then do {
             (_, s) \<leftarrow> signaln (tyosem t) ochars s;
             Some s
           }
           else Some s)"

text \<open>The interrupt handler; \<open>iir\<close> is the contents of the interrupt identification register.\<close>

fun ttyhandle_all :: "nat \<Rightarrow> int \<Rightarrow> 'a tys \<Rightarrow> 'a tys option" where
  "ttyhandle_all 0 minor s = Some s"
| "ttyhandle_all (Suc n) minor s = do {
     s \<leftarrow> ttyhandle_in minor s;
     ttyhandle_all n minor s
   }"

definition ttyhandler :: "u32 \<Rightarrow> 'a tys \<Rightarrow> 'a tys option" where
  "ttyhandler iir s =
     (let minor = dvminor (devtab CONSOLE) in
      if iir AND 1 \<noteq> 0 then Some s
      else
        let iir = iir AND 0x0E in
        if iir = 0x04 \<or> iir = 0x0C then do {
          (_, s) \<leftarrow> resched_cntl DEFER_START s;
          s \<leftarrow> ttyhandle_all (length (urx (csr s))) minor s;
          (_, s) \<leftarrow> resched_cntl DEFER_STOP s;
          Some s
        }
        else if iir = 0x02 then ttyhandle_out minor s
        else Some s)"

end
