(* ===== verification/Tty_Line.thy ===== *)
theory Tty_Line
  imports Tty
begin

text \<open>
  The input side of the serial line as what it stands for: the characters of the finished lines,
  which readers may take, and the line that is being edited. \<open>ring t xs\<close> says that the ring buffer
  holds \<open>xs\<close>; \<open>tty_line s i cs ps\<close> adds the semaphore that counts \<open>cs\<close> and the cursor that counts
  \<open>ps\<close>. The functions that echo change nothing of it.
\<close>

section \<open>The ring buffer\<close>

definition ring :: "ttycblk \<Rightarrow> u8 list \<Rightarrow> bool" where
  "ring t xs \<longleftrightarrow> tyihead t \<in> {0..<128} \<and> length xs \<le> 128 \<and>
     tyitail t = (tyihead t + int (length xs)) mod 128 \<and>
     (\<forall>k < length xs. tyibuff t ((tyihead t + int k) mod 128) = xs ! k)"

lemma wrap_mod: "i \<in> {0..<128} \<Longrightarrow> wrap 128 i = (i + 1) mod 128"
  by (cases "i = 127") (auto simp: wrap_def)

lemma ring_slot:
  assumes "i \<in> {0..<128}" "k < n" "n < 128"
  shows "(i + int k) mod 128 \<noteq> (i + int n) mod 128"
proof
  assume "(i + int k) mod 128 = (i + int n) mod 128"
  then have "128 dvd int n - int k" by (metis add_diff_cancel_left mod_eq_dvd_iff)
  then show False using assms zdvd_imp_le [of 128 "int n - int k"] by auto
qed

lemma put_in_ring:
  assumes R: "ring t xs" and n: "length xs < 128"
  shows "ring (put_in ch t) (xs @ [ch])"
proof -
  note D = R [unfolded ring_def]
  have t: "tyitail t \<in> {0..<128}" using D by auto
  have "tyitail (put_in ch t) = (tyihead t + int (length (xs @ [ch]))) mod 128"
    using wrap_mod [OF t] D by (simp add: put_in_def mod_simps add_ac)
  moreover have "tyibuff (put_in ch t) ((tyihead t + int k) mod 128) = (xs @ [ch]) ! k" if k: "k < length (xs @ [ch])" for k
  proof (cases "k = length xs")
    case True
    then show ?thesis using D by (simp add: put_in_def)
  next
    case False
    then have k': "k < length xs" using k by simp
    have "tyihead t \<in> {0..<128}" using D by blast
    then have "(tyihead t + int k) mod 128 \<noteq> tyitail t" using ring_slot [OF _ k' n] D by simp
    then show ?thesis using D k' by (simp add: put_in_def nth_append)
  qed
  ultimately show ?thesis using D n by (simp add: ring_def) (simp add: put_in_def)
qed

text \<open>Taking back the last \<open>n\<close> characters.\<close>

lemma ring_back:
  assumes R: "ring t (xs @ ys)" and n: "int (length ys) = n" "n < 128"
  shows "ring (t\<lparr>tyitail := (if tyitail t - n < 0 then tyitail t - n + 128 else tyitail t - n)\<rparr>) xs"
proof -
  note D = R [unfolded ring_def]
  let ?b = "if tyitail t - n < 0 then tyitail t - n + 128 else tyitail t - n"
  have nn: "0 \<le> n" using n by simp
  have t: "tyitail t \<in> {0..<128}" using D by auto
  have "?b = (tyitail t - n) mod 128"
  proof (cases "tyitail t - n < 0")
    case True
    have "(tyitail t - n) mod 128 = (tyitail t - n + 128) mod 128" by simp
    also have "\<dots> = tyitail t - n + 128" using True t n(2) by (intro mod_pos_pos_trivial) auto
    finally show ?thesis using True by simp
  next
    case False
    then show ?thesis using t nn by simp
  qed
  also have "\<dots> = (tyihead t + int (length (xs @ ys)) - n) mod 128" using D by (simp add: mod_simps)
  also have "\<dots> = (tyihead t + int (length xs)) mod 128" using n(1) by (simp add: algebra_simps)
  finally have "?b = (tyihead t + int (length xs)) mod 128" .
  moreover have "tyibuff t ((tyihead t + int k) mod 128) = xs ! k" if "k < length xs" for k
    using D that by (auto simp: nth_append dest: spec [of _ k])
  ultimately show ?thesis using D by (simp add: ring_def)
qed

lemma ring_head:
  assumes R: "ring t (c # xs)"
  shows "tyibuff t (tyihead t) = c" "ring (t\<lparr>tyihead := wrap 128 (tyihead t)\<rparr>) xs"
proof -
  note D = R [unfolded ring_def]
  have h: "tyihead t \<in> {0..<128}" using D by blast
  have "tyibuff t ((tyihead t + int 0) mod 128) = (c # xs) ! 0" using D by blast
  then show "tyibuff t (tyihead t) = c" using h by simp
  have "tyibuff t ((wrap 128 (tyihead t) + int k) mod 128) = xs ! k" if k: "k < length xs" for k
  proof -
    have "tyibuff t ((tyihead t + int (Suc k)) mod 128) = (c # xs) ! Suc k" using D k by (metis Suc_less_eq length_Cons)
    then show ?thesis using wrap_mod [OF h] by (simp add: mod_simps algebra_simps)
  qed
  moreover have "tyitail t = (wrap 128 (tyihead t) + int (length xs)) mod 128"
    using D wrap_mod [OF h] by (simp add: mod_simps algebra_simps)
  moreover have "wrap 128 (tyihead t) \<in> {0..<128}" using wrap_mod [OF h] by simp
  ultimately show "ring (t\<lparr>tyihead := wrap 128 (tyihead t)\<rparr>) xs" using D by (simp add: ring_def)
qed

section \<open>What echoing and signalling leave alone\<close>

text \<open>The input side of a line, without the echo buffer.\<close>

definition same_input :: "ttycblk \<Rightarrow> ttycblk \<Rightarrow> bool" where
  "same_input t t' \<longleftrightarrow> tyihead t' = tyihead t \<and> tyitail t' = tyitail t \<and> tyibuff t' = tyibuff t \<and>
     tyisem t' = tyisem t \<and> tyicursor t' = tyicursor t \<and> tyimode t' = tyimode t \<and> tyiecho t' = tyiecho t \<and>
     tyieback t' = tyieback t \<and> tyevis t' = tyevis t \<and> tyecrlf t' = tyecrlf t"

text \<open>\<open>echoes s s' i\<close>: \<open>s'\<close> differs from \<open>s\<close> in the echo buffer of line \<open>i\<close> and in the UART only.\<close>

definition echoes :: "int \<Rightarrow> 'a tys \<Rightarrow> 'a tys \<Rightarrow> bool" where
  "echoes i s s' \<longleftrightarrow> (\<exists>tt c. s' = s\<lparr>ttytab := tt, csr := c\<rparr> \<and> same_input (ttytab s i) (tt i))"

lemma echoes_refl [simp]: "echoes i s s"
  unfolding echoes_def by (rule exI [of _ "ttytab s"], rule exI [of _ "csr s"]) (simp add: same_input_def)

lemma same_input_trans: "same_input t u \<Longrightarrow> same_input u v \<Longrightarrow> same_input t v"
  by (simp add: same_input_def)

lemma echoes_trans: "echoes i s s1 \<Longrightarrow> echoes i s1 s2 \<Longrightarrow> echoes i s s2"
  unfolding echoes_def
proof (elim exE conjE)
  fix tt c tt' c'
  assume e: "s1 = s\<lparr>ttytab := tt, csr := c\<rparr>" "s2 = s1\<lparr>ttytab := tt', csr := c'\<rparr>"
    and i: "same_input (ttytab s i) (tt i)" "same_input (ttytab s1 i) (tt' i)"
  have "s2 = s\<lparr>ttytab := tt', csr := c'\<rparr>" using e by simp
  moreover have "same_input (ttytab s i) (tt' i)" using same_input_trans [OF i(1)] i(2) e(1) by simp
  ultimately show "\<exists>tt c. s2 = s\<lparr>ttytab := tt, csr := c\<rparr> \<and> same_input (ttytab s i) (tt i)" by blast
qed

lemma eputc_echoes: "echoes i s (eputc ch i s)"
  unfolding echoes_def eputc_def ttykickout_def upd_tty_def
  by (rule exI [of _ "(ttytab s)(i := put_echo ch (ttytab s i))"], rule exI [of _ "(csr s)\<lparr>uier := 3\<rparr>"])
    (simp add: put_echo_def same_input_def)

lemma eputc_after: "echoes i s s' \<Longrightarrow> echoes i s (eputc ch i s')"
  by (rule echoes_trans [OF _ eputc_echoes])

lemma echoch_echoes: "echoes i s (echoch ch i s)"
  by (simp add: echoch_def eputc_after)

lemma ebackspace_after: "echoes i s s' \<Longrightarrow> echoes i s (ebackspace i s')"
  by (simp add: ebackspace_def Let_def eputc_after)

section \<open>Signalling when nobody waits\<close>

lemma upd_sem_eq: "f (semtab s j) = g (semtab s j) \<Longrightarrow> upd_sem j f s = upd_sem j g s"
  by (simp add: upd_sem_def)

lemma upd_sem_twice: "upd_sem j f (upd_sem j g s) = upd_sem j (\<lambda>e. f (g e)) s"
  by (simp add: upd_sem_def)

lemma signaln_loop_free:
  "0 \<le> scount (semtab s j) \<Longrightarrow>
   signaln_loop j n s = Some (upd_sem j (\<lambda>e. e\<lparr>scount := scount e + int n\<rparr>) s)"
proof (induction n arbitrary: s)
  case 0
  have "upd_sem j (\<lambda>e. e\<lparr>scount := scount e + int 0\<rparr>) s = upd_sem j (\<lambda>e. e) s" by (rule upd_sem_eq) simp
  also have "\<dots> = s" by (simp add: upd_sem_def)
  finally show ?case by simp
next
  case (Suc n)
  let ?s1 = "upd_sem j (\<lambda>e. e\<lparr>scount := scount (semtab s j) + 1\<rparr>) s"
  have "signaln_loop j (Suc n) s = signaln_loop j n ?s1" using Suc.prems by (simp add: Let_def)
  also have "\<dots> = Some (upd_sem j (\<lambda>e. e\<lparr>scount := scount e + int n\<rparr>) ?s1)"
    using Suc.prems by (intro Suc.IH) simp
  also have "\<dots> = Some (upd_sem j (\<lambda>e. e\<lparr>scount := scount e + int (Suc n)\<rparr>) s)"
    unfolding upd_sem_twice option.inject by (rule upd_sem_eq) simp
  finally show ?case .
qed

lemma signaln_free:
  assumes "\<not> isbadsem j" "sstate (semtab s j) = S_USED" "0 \<le> scount (semtab s j)" "0 \<le> n" "0 \<le> ndefers s"
  shows "\<exists>a. signaln j n s = Some (OK, (upd_sem j (\<lambda>e. e\<lparr>scount := scount e + n\<rparr>) s)\<lparr>attempt := a\<rparr>)"
proof -
  let ?s1 = "s\<lparr>ndefers := ndefers s + 1, attempt := (if ndefers s = 0 then False else attempt s)\<rparr>"
  have st: "resched_cntl DEFER_START s = Some (OK, ?s1)" by (simp add: resched_cntl_def Let_def)
  have l: "signaln_loop j (nat n) ?s1 = Some (upd_sem j (\<lambda>e. e\<lparr>scount := scount e + n\<rparr>) ?s1)"
    using signaln_loop_free [of ?s1 j "nat n"] assms(3,4) by simp
  let ?s2 = "(upd_sem j (\<lambda>e. e\<lparr>scount := scount e + n\<rparr>) ?s1)\<lparr>ndefers := ndefers s\<rparr>"
  have sp: "resched_cntl DEFER_STOP (upd_sem j (\<lambda>e. e\<lparr>scount := scount e + n\<rparr>) ?s1) = Some (OK, ?s2)"
    using assms(5) by (simp add: resched_cntl_def upd_sem_def)
  have "signaln j n s = Some (OK, ?s2)" using assms st l sp by (simp add: signaln_def)
  moreover have "?s2 = (upd_sem j (\<lambda>e. e\<lparr>scount := scount e + n\<rparr>) s)\<lparr>attempt := attempt ?s1\<rparr>"
    by (simp add: upd_sem_def)
  ultimately show ?thesis by (intro exI [of _ "attempt ?s1"]) simp
qed

section \<open>Line editing\<close>

definition tty_line :: "'a tys \<Rightarrow> int \<Rightarrow> u8 list \<Rightarrow> u8 list \<Rightarrow> bool" where
  "tty_line s i cs ps \<longleftrightarrow> ring (ttytab s i) (cs @ ps) \<and> tyicursor (ttytab s i) = int (length ps) \<and>
     length ps < 128 \<and> \<not> isbadsem (tyisem (ttytab s i)) \<and>
     sstate (semtab s (tyisem (ttytab s i))) = S_USED \<and> scount (semtab s (tyisem (ttytab s i))) = int (length cs)"

lemma ring_cong:
  "tyihead t' = tyihead t \<Longrightarrow> tyitail t' = tyitail t \<Longrightarrow> tyibuff t' = tyibuff t \<Longrightarrow> ring t' xs = ring t xs"
  by (simp add: ring_def)

lemma tty_line_cong:
  assumes "same_input (ttytab s i) (ttytab s' i)" "semtab s' = semtab s"
  shows "tty_line s' i cs ps = tty_line s i cs ps"
proof -
  have "ring (ttytab s' i) xs = ring (ttytab s i) xs" for xs
    using assms(1) by (intro ring_cong) (simp_all add: same_input_def)
  then show ?thesis using assms by (simp add: tty_line_def same_input_def)
qed

lemma echoes_line: "echoes i s s' \<Longrightarrow> tty_line s' i cs ps = tty_line s i cs ps"
  by (auto simp: echoes_def intro!: tty_line_cong)

text \<open>What an arriving character does to the finished lines and the line being edited.\<close>

definition edit :: "ttycblk \<Rightarrow> u8 \<Rightarrow> u8 list \<times> u8 list \<Rightarrow> u8 list \<times> u8 list" where
  "edit t ch = (\<lambda>(cs, ps).
     if ch = tyikillc t \<and> tyikill t then (cs, [])
     else if (ch = tyierasec t \<or> ch = tyierasec2 t) \<and> tyierase t then (cs, butlast ps)
     else if ch = TY_NEWLINE \<or> ch = TY_RETURN then (cs @ ps @ [ch], [])
     else if length cs + length ps \<ge> 127 then (cs, ps)
     else if ch = tyeofch t \<and> tyeof t then if ps \<noteq> [] then (cs, ps) else (cs @ [ch], [])
     else (cs, ps @ [ch]))"

lemma upd_tty_simps [simp]:
  "ttytab (upd_tty i f s) i = f (ttytab s i)" "semtab (upd_tty i f s) = semtab s" "csr (upd_tty i f s) = csr s"
  "currpid (upd_tty i f s) = currpid s" "ndefers (upd_tty i f s) = ndefers s" "mem (upd_tty i f s) = mem s"
  by (simp_all add: upd_tty_def)

lemma line_kill:
  assumes L: "tty_line s i cs ps"
  shows "tty_line (upd_tty i (\<lambda>t. t\<lparr>tyitail := (if tyitail t - tyicursor t < 0
              then tyitail t - tyicursor t + 128 else tyitail t - tyicursor t), tyicursor := 0\<rparr>) s) i cs []"
proof -
  let ?t = "ttytab s i"
  have r: "ring (?t\<lparr>tyitail := (if tyitail ?t - tyicursor ?t < 0 then tyitail ?t - tyicursor ?t + 128
      else tyitail ?t - tyicursor ?t)\<rparr>) cs"
    using L by (intro ring_back) (auto simp: tty_line_def)
  have "ring (?t\<lparr>tyitail := (if tyitail ?t - tyicursor ?t < 0 then tyitail ?t - tyicursor ?t + 128
      else tyitail ?t - tyicursor ?t), tyicursor := 0\<rparr>) cs"
    by (rule ring_cong [THEN iffD2, OF _ _ _ r]) simp_all
  then show ?thesis using L by (simp add: tty_line_def)
qed

lemma erase1_echoes:
  "echoes i (upd_tty i (\<lambda>t. t\<lparr>tyitail := (if tyitail t - 1 < 0 then tyitail t - 1 + 128 else tyitail t - 1)\<rparr>) s)
     (erase1 i s)"
  by (simp add: erase1_def Let_def ebackspace_after)

lemma line_erase:
  assumes L: "tty_line s i cs ps" and n: "ps \<noteq> []"
  shows "tty_line (erase1 i (upd_tty i (\<lambda>t. t\<lparr>tyicursor := tyicursor t - 1\<rparr>) s)) i cs (butlast ps)"
proof -
  let ?s = "upd_tty i (\<lambda>t. t\<lparr>tyicursor := tyicursor t - 1\<rparr>) s"
  let ?b = "\<lambda>t. t\<lparr>tyitail := (if tyitail t - 1 < 0 then tyitail t - 1 + 128 else tyitail t - 1)\<rparr>"
  have "ring (ttytab s i) ((cs @ butlast ps) @ [last ps])" using L n by (simp add: tty_line_def)
  then have r: "ring (?b (ttytab s i)) (cs @ butlast ps)" by (rule ring_back) simp_all
  have "ring (?b (ttytab ?s i)) (cs @ butlast ps)" by (rule ring_cong [THEN iffD2, OF _ _ _ r]) simp_all
  then have "tty_line (upd_tty i ?b ?s) i cs (butlast ps)" using L n by (cases ps) (auto simp: tty_line_def)
  then show ?thesis by (simp add: echoes_line [OF erase1_echoes])
qed

lemma line_put:
  assumes L: "tty_line s i cs ps" and n: "length cs + length ps < 127"
  shows "tty_line (upd_tty i (put_in ch) (upd_tty i (\<lambda>t. t\<lparr>tyicursor := tyicursor t + 1\<rparr>) s)) i cs (ps @ [ch])"
proof -
  let ?t = "(ttytab s i)\<lparr>tyicursor := tyicursor (ttytab s i) + 1\<rparr>"
  have "ring ?t (cs @ ps)" using L by (auto simp: tty_line_def ring_def)
  then have "ring (put_in ch ?t) ((cs @ ps) @ [ch])" by (rule put_in_ring) (use n in simp)
  then show ?thesis using L n by (simp add: tty_line_def) (simp add: put_in_def)
qed

lemma tty_line_attempt [simp]: "tty_line (s\<lparr>attempt := a\<rparr>) i cs ps = tty_line s i cs ps"
  by (simp add: tty_line_def)

lemma upd_sem_tty [simp]: "ttytab (upd_sem j f s) = ttytab s" "csr (upd_sem j f s) = csr s"
  by (simp_all add: upd_sem_def)

lemma line_newline:
  assumes L: "tty_line s i cs ps" and n: "length cs + length ps < 128" and d: "0 \<le> ndefers s"
  shows "\<exists>s'. signaln (tyisem (ttytab s i)) (int (length ps) + 1) (upd_tty i (put_in ch) s) = Some (OK, s') \<and>
    tty_line (upd_tty i (\<lambda>t. t\<lparr>tyicursor := 0\<rparr>) s') i (cs @ ps @ [ch]) []"
proof -
  let ?j = "tyisem (ttytab s i)" and ?s1 = "upd_tty i (put_in ch) s"
  have "ring (put_in ch (ttytab s i)) ((cs @ ps) @ [ch])"
    using L n by (intro put_in_ring) (simp_all add: tty_line_def)
  then have r: "ring (ttytab ?s1 i) (cs @ ps @ [ch])" by simp
  have j: "tyisem (put_in ch (ttytab s i)) = ?j" by (simp add: put_in_def)
  have c: "\<not> isbadsem ?j" "sstate (semtab ?s1 ?j) = S_USED" "0 \<le> scount (semtab ?s1 ?j)"
    "0 \<le> int (length ps) + 1" "0 \<le> ndefers ?s1"
    using L d by (simp_all add: tty_line_def)
  obtain a where a: "signaln ?j (int (length ps) + 1) ?s1 =
      Some (OK, (upd_sem ?j (\<lambda>e. e\<lparr>scount := scount e + (int (length ps) + 1)\<rparr>) ?s1)\<lparr>attempt := a\<rparr>)"
    using signaln_free [OF c] by blast
  let ?s2 = "(upd_sem ?j (\<lambda>e. e\<lparr>scount := scount e + (int (length ps) + 1)\<rparr>) ?s1)\<lparr>attempt := a\<rparr>"
  have "ring ((put_in ch (ttytab s i))\<lparr>tyicursor := 0\<rparr>) (cs @ ps @ [ch])"
    by (rule ring_cong [THEN iffD2, OF _ _ _ r [simplified]]) simp_all
  then have "tty_line (upd_tty i (\<lambda>t. t\<lparr>tyicursor := 0\<rparr>) ?s2) i (cs @ ps @ [ch]) []"
    using L by (simp add: tty_line_def j)
  with a show ?thesis by blast
qed

lemma line_eof:
  assumes L: "tty_line s i cs []" and n: "length cs < 128" and e: "tyitail (ttytab s i) \<noteq> 127"
  shows "\<exists>s'. signal (tyisem (ttytab s i))
      (upd_tty i (\<lambda>t. t\<lparr>tyibuff := (tyibuff t)(tyitail t := ch), tyitail := tyitail t + 1\<rparr>) s) = Some (OK, s') \<and>
    tty_line s' i (cs @ [ch]) []"
proof -
  let ?t = "ttytab s i"
  let ?t' = "?t\<lparr>tyibuff := (tyibuff ?t)(tyitail ?t := ch), tyitail := tyitail ?t + 1\<rparr>"
  let ?s1 = "upd_tty i (\<lambda>t. t\<lparr>tyibuff := (tyibuff t)(tyitail t := ch), tyitail := tyitail t + 1\<rparr>) s"
  have R: "ring ?t cs" using L by (simp add: tty_line_def)
  then have "tyitail ?t \<in> {0..<128}" by (auto simp: ring_def)
  with e have "wrap 128 (tyitail ?t) = tyitail ?t + 1" by (auto simp: wrap_def)
  then have "put_in ch ?t = ?t'" by (simp add: put_in_def)
  with put_in_ring [OF R n, of ch] have r: "ring ?t' (cs @ [ch])" by simp
  let ?f = "\<lambda>e. e\<lparr>scount := scount (semtab s (tyisem ?t)) + 1\<rparr>"
  have "signal (tyisem ?t) ?s1 = Some (OK, upd_sem (tyisem ?t) ?f ?s1)"
    using L by (simp add: signal_def tty_line_def Let_def)
  moreover have "tty_line (upd_sem (tyisem ?t) ?f ?s1) i (cs @ [ch]) []"
    using L r by (simp add: tty_line_def)
  ultimately show ?thesis by blast
qed

text \<open>A character that neither edits nor ends the line.\<close>

lemma line_ordinary:
  assumes L: "tty_line s i cs ps" and n: "length cs + length ps < 128"
    and e: "ch \<noteq> tyeofch (ttytab s i) \<or> tyitail (ttytab s i) \<noteq> 127"
    and o: "\<not> (ch = tyikillc (ttytab s i) \<and> tyikill (ttytab s i))"
      "\<not> ((ch = tyierasec (ttytab s i) \<or> ch = tyierasec2 (ttytab s i)) \<and> tyierase (ttytab s i))"
      "\<not> (ch = TY_NEWLINE \<or> ch = TY_RETURN)"
  shows "\<exists>s'. ttyin_cooked ch i s = Some s' \<and>
    tty_line s' i (fst (edit (ttytab s i) ch (cs, ps))) (snd (edit (ttytab s i) ch (cs, ps)))"
proof -
  let ?t = "ttytab s i"
  let ?s1 = "if tyiecho ?t then echoch ch i s else s"
  have av: "semcount (tyisem ?t) s = int (length cs)" "tyicursor ?t = int (length ps)"
    using L by (auto simp: semcount_def tty_line_def)
  note sk = if_not_P [OF o(1)] if_not_P [OF o(2)] if_not_P [OF o(3)]
  have ec: "echoes i s ?s1" by (simp add: echoch_echoes)
  then have si: "tyisem (ttytab ?s1 i) = tyisem ?t" "tyitail (ttytab ?s1 i) = tyitail ?t"
    by (auto simp: echoes_def same_input_def)
  have L1: "tty_line ?s1 i cs ps" using L echoes_line [OF ec] by simp
  show ?thesis
  proof (cases "127 \<le> length cs + length ps")
    case True
    then have "ttyin_cooked ch i s = Some (eputc (tyifullc ?t) i s)" "edit ?t ch (cs, ps) = (cs, ps)"
      unfolding ttyin_cooked_def edit_def Let_def prod.case sk using av by simp_all
    then show ?thesis using L by (simp add: echoes_line [OF eputc_echoes])
  next
    case room: False
    show ?thesis
    proof (cases "ch = tyeofch ?t \<and> tyeof ?t")
      case True
      show ?thesis
      proof (cases "ps = []")
        case False
        then have "ttyin_cooked ch i s = Some ?s1" "edit ?t ch (cs, ps) = (cs, ps)"
          unfolding ttyin_cooked_def edit_def Let_def prod.case sk using av room True by simp_all
        then show ?thesis using L1 by simp
      next
        case nil: True
        have "ttyin_cooked ch i s = do {
            (_, s) \<leftarrow> signal (tyisem ?t)
              (upd_tty i (\<lambda>t. t\<lparr>tyibuff := (tyibuff t)(tyitail t := ch), tyitail := tyitail t + 1\<rparr>) ?s1);
            Some s}" "edit ?t ch (cs, ps) = (cs @ [ch], [])"
          unfolding ttyin_cooked_def edit_def Let_def prod.case sk using av room True nil by simp_all
        moreover have "length cs < 128" "tyitail (ttytab ?s1 i) \<noteq> 127" using room si(2) e True by auto
        note line_eof [OF L1 [unfolded nil] this, of ch]
        ultimately show ?thesis using si(1) by auto
      qed
    next
      case False
      have "ttyin_cooked ch i s =
          Some (upd_tty i (put_in ch) (upd_tty i (\<lambda>t. t\<lparr>tyicursor := tyicursor t + 1\<rparr>) ?s1))"
        "edit ?t ch (cs, ps) = (cs, ps @ [ch])"
        unfolding ttyin_cooked_def edit_def Let_def prod.case sk if_not_P [OF False] using av room by simp_all
      then show ?thesis using line_put [OF L1, of ch] room by simp
    qed
  qed
qed

section \<open>Properties\<close>


text \<open>
  C30: without line editing the input buffer is a first-in first-out queue: a character that
  arrives while there is room is stored, and \<open>ttygetc\<close> returns the oldest one (as a signed
  character) and leaves the others in order.
\<close>

theorem raw_input_read_back:
  assumes "tty_line s i cs []" "tyimode (ttytab s i) = TY_IMRAW" "length cs < 128" "dvminor d = i"
  shows "\<exists>s1 s2. ttyin_raw ch (int (length cs)) i s = Some s1 \<and> tty_line s1 i (cs @ [ch]) [] \<and>
    ttygetc d s1 = Some (Ret (schar (hd (cs @ [ch]))), s2) \<and> tty_line s2 i (tl (cs @ [ch])) []"
proof -
  let ?j = "tyisem (ttytab s i)" and ?f = "\<lambda>e. e\<lparr>scount := scount e + 1\<rparr>" and ?g = "\<lambda>e. e\<lparr>scount := scount e - 1\<rparr>"
  let ?s0 = "upd_tty i (put_in ch) s"
  let ?s1 = "upd_sem ?j (\<lambda>e. e\<lparr>scount := scount (semtab s ?j) + 1\<rparr>) ?s0"
  let ?s2 = "upd_tty i (\<lambda>t. t\<lparr>tyihead := wrap 128 (tyihead t)\<rparr>) (upd_sem ?j ?g ?s1)"
  have m: "tyisem (put_in ch t) = tyisem t" "tyimode (put_in ch t) = tyimode t" "tyicursor (put_in ch t) = tyicursor t" for t
    by (simp_all add: put_in_def)
  have j: "\<not> isbadsem ?j" "sstate (semtab s ?j) = S_USED" "scount (semtab s ?j) = int (length cs)"
    using assms(1) by (simp_all add: tty_line_def)
  have a: "ttyin_raw ch (int (length cs)) i s = Some ?s1"
    using j assms(3) by (simp add: ttyin_raw_def m signal_def Let_def)
  have R: "ring (ttytab s i) cs" using assms(1) by (simp add: tty_line_def)
  have R1: "ring (put_in ch (ttytab s i)) (cs @ [ch])" by (rule put_in_ring [OF R assms(3)])
  have L1: "tty_line ?s1 i (cs @ [ch]) []" using R1 assms(1) by (simp add: tty_line_def m)
  obtain c xs where c: "cs @ [ch] = c # xs" by (cases "cs @ [ch]") auto
  note H = ring_head [OF R1 [unfolded c]]
  have "length (cs @ [ch]) = Suc (length xs)" unfolding c by simp
  then have l: "length cs = length xs" by simp
  have w: "wait_sem ?j ?s1 = Some (OK, upd_sem ?j ?g ?s1)" using j by (simp add: wait_sem_def Let_def)
  have g: "ttygetc d ?s1 = Some (Ret (schar c), ?s2)"
    using w H(1) assms(2,4) by (simp add: ttygetc_def m when_current_def ttygetc_end_def Let_def)
  have "tty_line ?s2 i xs []" using H(2) assms(1) l by (simp add: tty_line_def m)
  with a L1 g c show ?thesis by auto
qed

text \<open>
  C31: in cbreak mode no arriving character is ever announced: whatever arrives, the handler
  changes no semaphore, no queue and no process, so a reader that waits is not woken.
\<close>

theorem cbreak_input_wakes_nobody:
  assumes "tyimode (ttytab s i) = TY_IMCBREAK"
  shows "\<exists>s'. ttyin_char ch i s = Some s' \<and> semtab s' = semtab s \<and> queuetab s' = queuetab s \<and>
    proctab s' = proctab s"
proof -
  have e: "semtab (echoch c i t) = semtab t" "queuetab (echoch c i t) = queuetab t" "proctab (echoch c i t) = proctab t"
    for c and t :: "'a tys"
    using echoch_echoes [of i t c] by (auto simp: echoes_def)
  have p: "semtab (eputc c i t) = semtab t" "queuetab (eputc c i t) = queuetab t" "proctab (eputc c i t) = proctab t"
    for c and t :: "'a tys"
    using eputc_echoes [of i t c] by (auto simp: echoes_def)
  have u: "queuetab (upd_tty i f t) = queuetab t" "proctab (upd_tty i f t) = proctab t" for f and t :: "'a tys"
    by (simp_all add: upd_tty_def)
  have k: "queuetab (ttykickout t) = queuetab t" "proctab (ttykickout t) = proctab t" "semtab (ttykickout t) = semtab t"
    for t :: "'a tys"
    by (simp_all add: ttykickout_def)
  show ?thesis using assms by (simp add: ttyin_char_def ttyin_cbreak_def Let_def e p u k)
qed

text \<open>
  C32: an end-of-file character that is stored in the last slot of the input buffer leaves the
  tail one beyond it, since this path does not wrap the index: the next character is stored
  outside the buffer.
\<close>

theorem eof_in_last_slot_overruns:
  assumes "tty_line s i cs []" "length cs < 127" "tyitail (ttytab s i) = 127" "tyeof (ttytab s i)"
    "tyeofch (ttytab s i) \<notin> {tyikillc (ttytab s i), tyierasec (ttytab s i), tyierasec2 (ttytab s i), TY_NEWLINE, TY_RETURN}"
  shows "\<exists>s'. ttyin_cooked (tyeofch (ttytab s i)) i s = Some s' \<and> tyitail (ttytab s' i) = TY_IBUFLEN \<and>
    (\<forall>t. tyitail t = TY_IBUFLEN \<longrightarrow> tyibuff (put_in ch t) TY_IBUFLEN = ch)"
proof -
  let ?t = "ttytab s i" and ?ch = "tyeofch (ttytab s i)"
  let ?s1 = "if tyiecho ?t then echoch ?ch i s else s"
  have ec: "echoes i s ?s1" by (simp add: echoch_echoes)
  have e: "semtab ?s1 = semtab s" "tyitail (ttytab ?s1 i) = 127" using ec assms(3) by (auto simp: echoes_def same_input_def)
  have av: "semcount (tyisem ?t) s = int (length cs)" "tyicursor ?t = 0"
    using assms(1) by (auto simp: semcount_def tty_line_def)
  have s: "signal (tyisem ?t) t = Some (OK, upd_sem (tyisem ?t) (\<lambda>e. e\<lparr>scount := scount (semtab s (tyisem ?t)) + 1\<rparr>) t)"
    if "semtab t = semtab s" for t :: "'a tys"
    using assms(1) that by (simp add: signal_def tty_line_def Let_def)
  show ?thesis using assms(2,4,5) av e by (simp add: ttyin_cooked_def Let_def s) (simp add: put_in_def)
qed

end
