(* ===== verification/Names.thy ===== *)
theory Names
  imports Strings Devices Boot
begin

text \<open>
  The name space (\<^verbatim>\<open>device/nam\<close>, \<^verbatim>\<open>include/name.h\<close>): a table of prefixes, each with a
  replacement and a device, through which \<open>namopen\<close> maps a name to a device and a new name. A
  \<open>char *\<close> that is only read from here on is the function that gives the byte at each offset; a
  name buffer is such a function too. \<open>stored b xs\<close> says that the string \<open>xs\<close> is in the buffer.
\<close>

section \<open>Operations\<close>

type_synonym chars = "nat \<Rightarrow> u8"

abbreviation (input) NM_PRELEN :: nat where "NM_PRELEN \<equiv> 64"
abbreviation (input) NM_REPLLEN :: nat where "NM_REPLLEN \<equiv> 96"
abbreviation (input) NM_MAXLEN :: nat where "NM_MAXLEN \<equiv> 256"
abbreviation (input) NNAMES :: int where "NNAMES \<equiv> 40"
abbreviation (input) NULLDEV :: int where "NULLDEV \<equiv> 1"
abbreviation (input) RFILESYS :: int where "RFILESYS \<equiv> 6"
abbreviation (input) LFILESYS :: int where "LFILESYS \<equiv> 17"

record nmentry =
  nprefix :: chars
  nreplace :: chars
  ndevice :: int

record namstate = kstate +
  nametab :: "int \<Rightarrow> nmentry"
  nnames :: int

type_synonym 'a nms = "'a namstate_scheme"

text \<open>The bytes of a string literal, and of a string in memory.\<close>

definition lit :: "string \<Rightarrow> chars" where
  "lit s k = (if k < length s then ascii s ! k else 0)"

definition chars_at :: "bytes \<Rightarrow> addr \<Rightarrow> chars" where
  "chars_at m a k = m (a + word_of_nat k)"

text \<open>\<open>namlen\<close>: the length with the NUL; \<open>i\<close> bytes were looked at, \<open>n\<close> may still be.\<close>

fun namlen_loop :: "nat \<Rightarrow> chars \<Rightarrow> nat \<Rightarrow> int" where
  "namlen_loop 0 name i = SYSERR"
| "namlen_loop (Suc n) name i = (if name i = 0 then int i + 1 else namlen_loop n name (i + 1))"

definition namlen :: "chars \<Rightarrow> nat \<Rightarrow> int" where
  "namlen name maxlen = namlen_loop maxlen name 0"

text \<open>Copying \<open>n\<close> bytes, from offset \<open>j\<close> of \<open>src\<close> to offset \<open>i\<close> of \<open>dst\<close>.\<close>

fun copy_chars :: "nat \<Rightarrow> nat \<Rightarrow> nat \<Rightarrow> chars \<Rightarrow> chars \<Rightarrow> chars" where
  "copy_chars 0 i j src dst = dst"
| "copy_chars (Suc n) i j src dst = copy_chars n (i + 1) (j + 1) src (dst(i := src j))"

definition mount :: "chars \<Rightarrow> chars \<Rightarrow> int \<Rightarrow> 'a nms \<Rightarrow> int \<times> 'a nms" where
  "mount prefix replace device s =
     (let psiz = namlen prefix NM_PRELEN;
          rsiz = namlen replace NM_REPLLEN
      in if psiz = SYSERR \<or> rsiz = SYSERR \<or> isbaddev device \<or> nnames s \<ge> NNAMES then (SYSERR, s)
         else
           let e = nametab s (nnames s);
               e = e\<lparr>nprefix := copy_chars (nat psiz) 0 0 prefix (nprefix e)\<rparr>;
               e = e\<lparr>nreplace := copy_chars (nat rsiz) 0 0 replace (nreplace e)\<rparr>;
               e = e\<lparr>ndevice := device\<rparr>
           in (OK, s\<lparr>nametab := (nametab s)(nnames s := e), nnames := nnames s + 1\<rparr>))"

text \<open>\<open>namcpy\<close>: the result and the new contents of the buffer.\<close>

fun namcpy_loop :: "nat \<Rightarrow> nat \<Rightarrow> chars \<Rightarrow> chars \<Rightarrow> int \<times> chars" where
  "namcpy_loop 0 i old new = (SYSERR, new)"
| "namcpy_loop (Suc n) i old new =
     (let new = new(i := old i) in if old i = 0 then (OK, new) else namcpy_loop n (i + 1) old new)"

definition namcpy :: "chars \<Rightarrow> chars \<Rightarrow> nat \<Rightarrow> int \<times> chars" where
  "namcpy newname oldname buflen = namcpy_loop buflen 0 oldname newname"

text \<open>Comparing a prefix with a name: whether the prefix ends, and where the comparison stopped.\<close>

partial_function (option) match_prefix :: "chars \<Rightarrow> chars \<Rightarrow> nat \<Rightarrow> (bool \<times> nat) option" where
  "match_prefix p name k =
     (if p k = 0 then Some (True, k)
      else if p k \<noteq> name k then Some (False, k)
      else match_prefix p name (k + 1))"

text \<open>\<open>olen\<close> is a \<open>char\<close>: the length of the name is cut to eight bits and signed.\<close>

definition replace_prefix :: "nmentry \<Rightarrow> nat \<Rightarrow> chars \<Rightarrow> chars \<Rightarrow> int \<times> chars" where
  "replace_prefix e plen name newname =
     (let olen = sint (word_of_int (namlen name NM_MAXLEN) :: u8);
          rlen = namlen (nreplace e) NM_MAXLEN - 1;
          remain = olen - int plen
      in if rlen + remain > int NM_MAXLEN then (SYSERR, newname)
         else
           let newname = copy_chars (nat rlen) 0 0 (nreplace e) newname;
               newname = copy_chars (nat remain) (nat rlen) plen name newname
           in (ndevice e, newname))"

fun namrepl_loop :: "nat \<Rightarrow> int \<Rightarrow> (int \<Rightarrow> nmentry) \<Rightarrow> chars \<Rightarrow> chars \<Rightarrow> (int \<times> chars) option" where
  "namrepl_loop 0 i tab name newname = Some (SYSERR, newname)"
| "namrepl_loop (Suc n) i tab name newname = do {
     (found, plen) \<leftarrow> match_prefix (nprefix (tab i)) name 0;
     if found then Some (replace_prefix (tab i) plen name newname)
     else namrepl_loop n (i + 1) tab name newname
   }"

definition namrepl :: "chars \<Rightarrow> chars \<Rightarrow> 'a nms \<Rightarrow> (int \<times> chars) option" where
  "namrepl name newname s = namrepl_loop (nat (nnames s)) 0 (nametab s) name newname"

text \<open>The loop of \<open>nammap\<close>; the copy back to the temporary name is on the way out of it.\<close>

fun nammap_loop :: "nat \<Rightarrow> chars \<Rightarrow> chars \<Rightarrow> int \<Rightarrow> 'a nms \<Rightarrow> (int \<times> chars) option" where
  "nammap_loop 0 tmpname newname namdev s = Some (SYSERR, newname)"
| "nammap_loop (Suc n) tmpname newname namdev s = do {
     (newdev, newname) \<leftarrow> namrepl tmpname newname s;
     if newdev \<noteq> namdev then Some (newdev, newname)
     else nammap_loop n tmpname newname namdev s
   }"

definition nammap :: "chars \<Rightarrow> chars \<Rightarrow> int \<Rightarrow> 'a nms \<Rightarrow> (int \<times> chars) option" where
  "nammap name newname namdev s =
     (let (r, tmpname) = namcpy (\<lambda>_. 0) name NM_MAXLEN
      in if r = SYSERR then Some (SYSERR, newname)
         else nammap_loop (nat (nnames s)) tmpname newname namdev s)"

text \<open>
  \<open>namopen\<close>: \<open>at\<close> is where the buffer for the new name lies on the stack; \<open>open\<close> is given its
  address.
\<close>

fun store_chars :: "nat \<Rightarrow> addr \<Rightarrow> nat \<Rightarrow> chars \<Rightarrow> bytes \<Rightarrow> bytes" where
  "store_chars 0 a i b m = m"
| "store_chars (Suc n) a i b m = store_chars n a (i + 1) b (m(a + word_of_nat i := b i))"

definition namopen :: "('a namstate_ext) drivers \<Rightarrow> addr \<Rightarrow> dentry \<Rightarrow> addr \<Rightarrow> addr \<Rightarrow> 'a nms \<Rightarrow> (int \<times> 'a nms) option" where
  "namopen drv at devptr name mode s = do {
     (newdev, newname) \<leftarrow> nammap (chars_at (mem s) name) (chars_at (mem s) at) (dvnum devptr) s;
     if newdev = SYSERR then Some (SYSERR, s)
     else dev_open drv newdev at mode (s\<lparr>mem := store_chars NM_MAXLEN at 0 newname (mem s)\<rparr>)
   }"

text \<open>
  Start-up. The name of a device is put behind \<open>/dev/\<close> in lower case; \<open>len\<close> counts the bytes,
  \<open>n\<close> is how often the loop may still go round.
\<close>

definition lower :: "u8 \<Rightarrow> u8" where
  "lower ch = (if 65 \<le> schar ch \<and> schar ch \<le> 90 then ch + 32 else ch)"

fun append_lower :: "nat \<Rightarrow> nat \<Rightarrow> chars \<Rightarrow> nat \<Rightarrow> chars \<Rightarrow> nat \<times> chars" where
  "append_lower 0 len nm i tmp = (len + 1, tmp)"
| "append_lower (Suc n) len nm i tmp =
     (let ch = lower (nm (i - 5)); tmp = tmp(i := ch)
      in if ch = 0 then (len + 1, tmp) else append_lower n (len + 1) nm (i + 1) tmp)"

definition mount_device :: "int \<Rightarrow> 'a nms \<Rightarrow> 'a nms" where
  "mount_device i s =
     (let tmpstr = copy_chars 6 0 0 (lit ''/dev/'') (\<lambda>_. 0);
          (len, tmpstr) = append_lower (NM_MAXLEN - 1 - 5) 5 (lit (dvname (devtab i))) 5 tmpstr
      in if len > NM_MAXLEN then s else snd (mount tmpstr (lit '''') (dvnum (devtab i)) s))"

definition naminit :: "'a nms \<Rightarrow> int \<times> 'a nms" where
  "naminit s =
     (let s = s\<lparr>nnames := 0\<rparr>;
          s = for_range 24 mount_device s;
          (_, s) = mount (lit ''/dev/null'') (lit '''') NULLDEV s;
          (_, s) = mount (lit ''/remote/'') (lit ''remote:'') RFILESYS s;
          (_, s) = mount (lit ''/local/'') (lit '''') LFILESYS s;
          (_, s) = mount (lit ''/dev/'') (lit '''') SYSERR s;
          (_, s) = mount (lit ''~/'') (lit '''') LFILESYS s;
          (_, s) = mount (lit ''/'') (lit ''root:'') RFILESYS s;
          (_, s) = mount (lit '''') (lit '''') LFILESYS s
      in (OK, s))"

section \<open>Names as strings\<close>

definition stored :: "chars \<Rightarrow> u8 list \<Rightarrow> bool" where
  "stored b xs \<longleftrightarrow> (\<forall>k < length xs. b k = xs ! k) \<and> b (length xs) = 0 \<and> 0 \<notin> set xs"

lemma storedD:
  assumes "stored b xs"
  shows "k < length xs \<Longrightarrow> b k = xs ! k" "b (length xs) = 0" "k < length xs \<Longrightarrow> b k \<noteq> 0"
  using assms by (auto simp: stored_def in_set_conv_nth)

lemma namlen_loop_stored:
  "stored b xs \<Longrightarrow> i \<le> length xs \<Longrightarrow>
   namlen_loop n b i = (if length xs < i + n then int (length xs) + 1 else SYSERR)"
proof (induction n arbitrary: i)
  case (Suc n)
  show ?case
  proof (cases "i = length xs")
    case True
    then show ?thesis using storedD(2) [OF Suc.prems(1)] by simp
  next
    case False
    then show ?thesis using Suc storedD(3) [OF Suc.prems(1), of i] by simp
  qed
qed simp

lemma namlen_stored: "stored b xs \<Longrightarrow> namlen b n = (if length xs < n then int (length xs) + 1 else SYSERR)"
  using namlen_loop_stored [of b xs 0 n] by (simp add: namlen_def)

lemma copy_chars_nth:
  "copy_chars n i j src dst k = (if i \<le> k \<and> k < i + n then src (j + (k - i)) else dst k)"
  by (induction n arbitrary: i j dst) (auto intro!: arg_cong [where f = src])

lemma namcpy_loop_stored:
  "stored b xs \<Longrightarrow> i \<le> length xs \<Longrightarrow> length xs < i + n \<Longrightarrow>
   \<exists>new'. namcpy_loop n i b new = (OK, new') \<and> (\<forall>k. i \<le> k \<and> k \<le> length xs \<longrightarrow> new' k = b k) \<and>
     (\<forall>k < i. new' k = new k)"
proof (induction n arbitrary: i new)
  case (Suc n)
  show ?case
  proof (cases "i = length xs")
    case True
    then show ?thesis using storedD(2) [OF Suc.prems(1)] by auto
  next
    case False
    then have i: "i + 1 \<le> length xs" "b i \<noteq> 0" using Suc.prems storedD(3) [OF Suc.prems(1), of i] by auto
    obtain new' where n: "namcpy_loop n (i + 1) b (new(i := b i)) = (OK, new')"
      "\<forall>k. i + 1 \<le> k \<and> k \<le> length xs \<longrightarrow> new' k = b k" "\<forall>k < i + 1. new' k = (new(i := b i)) k"
      using Suc.IH [OF Suc.prems(1) i(1)] Suc.prems(3) by fastforce
    have "new' k = b k" if "i \<le> k" "k \<le> length xs" for k
      using n(2,3) that by (cases "k = i") auto
    with n i show ?thesis by auto
  qed
qed simp

lemma namcpy_stored:
  assumes "stored b xs" "length xs < n"
  shows "\<exists>new'. namcpy new b n = (OK, new') \<and> stored new' xs"
proof -
  obtain new' where n: "namcpy_loop n 0 b new = (OK, new')" "\<forall>k. k \<le> length xs \<longrightarrow> new' k = b k"
    using namcpy_loop_stored [OF assms(1), of 0 n new] assms(2) by auto
  then have "stored new' xs" using assms(1) by (auto simp: stored_def)
  with n show ?thesis by (simp add: namcpy_def)
qed

lemma match_prefix_stored:
  assumes p: "stored p ps" and b: "stored b xs"
  shows "j \<le> length ps \<Longrightarrow> take j ps = take j xs \<Longrightarrow> j \<le> length xs \<Longrightarrow>
    \<exists>k. match_prefix p b j = Some (take (length ps) xs = ps, k) \<and> (take (length ps) xs = ps \<longrightarrow> k = length ps)"
proof (induction "length ps - j" arbitrary: j)
  case 0
  then have "j = length ps" by simp
  then show ?case using storedD(2) [OF p] 0 by (simp add: match_prefix.simps)
next
  case (Suc d)
  then have j: "j < length ps" "p j \<noteq> 0" using storedD(3) [OF p] by auto
  show ?case
  proof (cases "j < length xs \<and> xs ! j = ps ! j")
    case True
    then have "p j = b j" using storedD(1) [OF p j(1)] storedD(1) [OF b, of j] by simp
    moreover have "take (j + 1) ps = take (j + 1) xs" using True j Suc.prems(2) by (simp add: take_Suc_conv_app_nth)
    ultimately show ?thesis using Suc.hyps(1) [of "j + 1"] Suc.hyps(2) True j by (simp add: match_prefix.simps)
  next
    case False
    have "p j \<noteq> b j"
    proof (cases "j < length xs")
      case True
      then show ?thesis using False storedD(1) [OF p j(1)] storedD(1) [OF b True] by simp
    next
      case ge: False
      then have "j = length xs" using Suc.prems(3) by simp
      then show ?thesis using storedD(2) [OF b] j(2) by simp
    qed
    moreover have "take (length ps) xs \<noteq> ps"
    proof
      assume "take (length ps) xs = ps"
      then have "ps ! j = xs ! j" "length ps \<le> length xs" using j(1) by (metis nth_take, metis length_take min.absorb_iff2 linorder_le_cases min_def)
      then show False using False j(1) by simp
    qed
    ultimately show ?thesis using j by (simp add: match_prefix.simps)
  qed
qed

section \<open>The table as a list of rules\<close>

text \<open>A rule: prefix, replacement and device. The first rule that matches is used.\<close>

fun first_rule :: "(u8 list \<times> u8 list \<times> int) list \<Rightarrow> u8 list \<Rightarrow> (int \<times> u8 list) option" where
  "first_rule [] xs = None"
| "first_rule ((ps, rs, d) # es) xs =
     (if take (length ps) xs = ps then Some (d, rs @ drop (length ps) xs) else first_rule es xs)"

definition rule_entry :: "nmentry \<Rightarrow> u8 list \<times> u8 list \<times> int \<Rightarrow> bool" where
  "rule_entry e = (\<lambda>(ps, rs, d). stored (nprefix e) ps \<and> stored (nreplace e) rs \<and> length rs < NM_REPLLEN \<and> ndevice e = d)"

definition name_rules :: "'a nms \<Rightarrow> (u8 list \<times> u8 list \<times> int) list \<Rightarrow> bool" where
  "name_rules s es \<longleftrightarrow> nnames s = int (length es) \<and> (\<forall>k < length es. rule_entry (nametab s (int k)) (es ! k))"

lemma signed_length: "n < 128 \<Longrightarrow> sint (word_of_int (int n) :: u8) = int n"
  by (subst int_word_sint) simp

lemma replace_prefix_ok:
  assumes e: "rule_entry e (ps, rs, d)" and x: "stored b xs" "length xs < 127" and m: "take (length ps) xs = ps"
  shows "\<exists>nn. replace_prefix e (length ps) b new = (d, nn) \<and> stored nn (rs @ drop (length ps) xs)"
proof -
  have E: "stored (nreplace e) rs" "length rs < 96" "ndevice e = d" using e by (simp_all add: rule_entry_def)
  have l: "length ps \<le> length xs" using m by (metis length_take min.absorb_iff2 min.commute)
  have n: "namlen b 256 = int (Suc (length xs))" "namlen (nreplace e) 256 = int (length rs) + 1"
    using namlen_stored [OF x(1), of 256] namlen_stored [OF E(1), of 256] x(2) E(2) by simp_all
  have o: "sint (word_of_int (namlen b 256) :: u8) = int (length xs) + 1"
    unfolding n(1) using signed_length [of "Suc (length xs)"] x(2) by simp
  let ?nn = "copy_chars (length xs + 1 - length ps) (length rs) (length ps) b (copy_chars (length rs) 0 0 (nreplace e) new)"
  have rem: "nat (int (length xs) + 1 - int (length ps)) = length xs + 1 - length ps" by simp
  have r: "replace_prefix e (length ps) b new = (d, ?nn)"
    unfolding replace_prefix_def Let_def o n(2) using x(2) E(2,3) rem by simp
  have "?nn k = (rs @ drop (length ps) xs) ! k" if k: "k < length (rs @ drop (length ps) xs)" for k
  proof (cases "k < length rs")
    case True
    then show ?thesis using storedD(1) [OF E(1) True] by (simp add: copy_chars_nth nth_append)
  next
    case False
    then have i: "length ps + (k - length rs) < length xs" using k by auto
    then have "k < length rs + (length xs + 1 - length ps)" using l False by linarith
    then have "?nn k = b (length ps + (k - length rs))"
      by (intro trans [OF copy_chars_nth if_P] conjI) (use False in simp_all)
    then show ?thesis using False i storedD(1) [OF x(1) i] by (simp add: nth_append)
  qed
  moreover have "?nn (length (rs @ drop (length ps) xs)) = b (length xs)"
    by (intro trans [OF copy_chars_nth trans [OF if_P]] conjI) (use l in simp_all)
  moreover have "b (length xs) = 0" using storedD(2) [OF x(1)] .
  moreover have "0 \<notin> set (rs @ drop (length ps) xs)"
    using E(1) x(1) by (auto simp: stored_def dest: in_set_dropD)
  ultimately show ?thesis using r by (auto simp: stored_def)
qed

lemma namrepl_loop_rules:
  assumes "\<forall>k < length es. rule_entry (tab (i + int k)) (es ! k)" "stored b xs" "length xs < 127"
  shows "\<exists>nn. namrepl_loop (length es) i tab b new = Some (case first_rule es xs of None \<Rightarrow> SYSERR | Some (d, ys) \<Rightarrow> d, nn) \<and>
    (\<forall>d ys. first_rule es xs = Some (d, ys) \<longrightarrow> stored nn ys)"
  using assms(1)
proof (induction es arbitrary: i)
  case (Cons e es)
  obtain ps rs d where e: "e = (ps, rs, d)" by (cases e) auto
  have "rule_entry (tab (i + int 0)) ((e # es) ! 0)" using Cons.prems by blast
  then have R: "rule_entry (tab i) (ps, rs, d)" using e by simp
  then have "stored (nprefix (tab i)) ps" by (simp add: rule_entry_def)
  from match_prefix_stored [OF this assms(2), of 0] obtain k where
    m: "match_prefix (nprefix (tab i)) b 0 = Some (take (length ps) xs = ps, k)" "take (length ps) xs = ps \<longrightarrow> k = length ps"
    by auto
  show ?case
  proof (cases "take (length ps) xs = ps")
    case True
    obtain nn where "replace_prefix (tab i) (length ps) b new = (d, nn)" "stored nn (rs @ drop (length ps) xs)"
      using replace_prefix_ok [OF R assms(2,3) True] by blast
    then show ?thesis using m True e by simp
  next
    case False
    have "rule_entry (tab (i + 1 + int k)) (es ! k)" if "k < length es" for k
    proof -
      have "rule_entry (tab (i + int (Suc k))) ((e # es) ! Suc k)" using Cons.prems that by (metis length_Cons Suc_less_eq)
      then show ?thesis by (simp add: algebra_simps)
    qed
    then show ?thesis using Cons.IH [of "i + 1"] m False e by simp
  qed
qed simp

lemma nammap_loop_rules:
  assumes T: "name_rules s es" and x: "stored b xs" "length xs < 127"
  shows "0 < n \<Longrightarrow> \<exists>nn. nammap_loop n b new namdev s =
      Some (case first_rule es xs of None \<Rightarrow> SYSERR | Some (d, ys) \<Rightarrow> if d = namdev then SYSERR else d, nn) \<and>
    (\<forall>d ys. first_rule es xs = Some (d, ys) \<and> d \<noteq> namdev \<longrightarrow> stored nn ys)"
proof (induction n arbitrary: new)
  case (Suc n)
  have R: "\<forall>k < length es. rule_entry (nametab s (0 + int k)) (es ! k)" "nat (nnames s) = length es"
    using T by (simp_all add: name_rules_def)
  obtain nn where r: "namrepl b new s = Some (case first_rule es xs of None \<Rightarrow> SYSERR | Some (d, ys) \<Rightarrow> d, nn)"
    "\<forall>d ys. first_rule es xs = Some (d, ys) \<longrightarrow> stored nn ys"
    using namrepl_loop_rules [OF R(1) x] R(2) unfolding namrepl_def by metis
  show ?case
  proof (cases n)
    case 0
    with r show ?thesis by (auto split: option.splits)
  next
    case (Suc m)
    then have "0 < n" by simp
    from Suc.IH [OF this, of nn] r show ?thesis by (cases "first_rule es xs") (auto split: if_splits)
  qed
qed simp

text \<open>
  \<open>nammap\<close> uses the first rule whose prefix the name starts with: it returns the rule's device and
  the name with the prefix replaced. It substitutes once: a rule that leads back to the name space
  device itself is an error, although the comment in the code promises repeated substitution.
\<close>

theorem nammap_uses_first_rule:
  assumes "name_rules s es" "es \<noteq> []" "stored name xs" "length xs < 127"
  shows "\<exists>nn. nammap name newname namdev s =
      Some (case first_rule es xs of None \<Rightarrow> SYSERR | Some (d, ys) \<Rightarrow> if d = namdev then SYSERR else d, nn) \<and>
    (\<forall>d ys. first_rule es xs = Some (d, ys) \<and> d \<noteq> namdev \<longrightarrow> stored nn ys)"
proof -
  obtain tmp where t: "namcpy (\<lambda>_. 0) name 256 = (OK, tmp)" "stored tmp xs"
    using namcpy_stored [OF assms(3), of 256] assms(4) by auto
  have "0 < nat (nnames s)" using assms(1,2) by (simp add: name_rules_def)
  from nammap_loop_rules [OF assms(1) t(2) assms(4) this] t(1) show ?thesis by (simp add: nammap_def)
qed

text \<open>
  A longer name is cut: its length, with the NUL, does not fit the \<open>char\<close> that holds it, so nothing
  of the rest of the name, not even the NUL, is put behind the replacement.
\<close>

theorem long_names_lose_their_rest:
  assumes "stored b xs" "127 \<le> length xs" "length xs < 255" "rule_entry e (ps, rs, d)"
  shows "replace_prefix e plen b new = (d, copy_chars (length rs) 0 0 (nreplace e) new)"
proof -
  have E: "stored (nreplace e) rs" "length rs < 96" "ndevice e = d" using assms(4) by (simp_all add: rule_entry_def)
  have n: "namlen b 256 = int (length xs) + 1" "namlen (nreplace e) 256 = int (length rs) + 1"
    using namlen_stored [OF assms(1), of 256] namlen_stored [OF E(1), of 256] assms(3) E(2) by simp_all
  have "sint (word_of_int (int (length xs) + 1) :: u8) = int (length xs) + 1 - 256"
  proof -
    have "(int (length xs) + 1 + 128) mod 256 = ((int (length xs) - 127) + 256) mod 256"
      by (rule arg_cong [where f = "\<lambda>x. x mod 256"]) simp
    also have "\<dots> = int (length xs) - 127"
      using assms(2,3) unfolding mod_add_self2 by (intro mod_pos_pos_trivial) simp_all
    finally show ?thesis by (subst int_word_sint) (simp add: algebra_simps)
  qed
  then show ?thesis unfolding replace_prefix_def Let_def n using assms(2,3) E(2,3) by simp
qed


section \<open>The table after start-up\<close>

lemma stored_lit: "0 \<notin> set (ascii s) \<Longrightarrow> stored (lit s) (ascii s)"
  by (simp add: stored_def lit_def ascii_def)

lemma stored_cong: "stored b xs \<Longrightarrow> (\<And>k. k \<le> length xs \<Longrightarrow> b' k = b k) \<Longrightarrow> stored b' xs"
  by (simp add: stored_def)

text \<open>\<open>mount\<close> adds one rule at the end of the table.\<close>

lemma mount_rules:
  assumes T: "name_rules s es" and n: "length es < 40" and d: "\<not> isbaddev d"
    and p: "stored p ps" "length ps < NM_PRELEN" and r: "stored r rs" "length rs < NM_REPLLEN"
  shows "\<exists>s'. mount p r d s = (OK, s') \<and> name_rules s' (es @ [(ps, rs, d)])"
proof -
  have N: "nnames s = int (length es)" using T by (simp add: name_rules_def)
  have l: "namlen p 64 = int (length ps) + 1" "namlen r 96 = int (length rs) + 1"
    using namlen_stored [OF p(1), of 64] namlen_stored [OF r(1), of 96] p(2) r(2) by simp_all
  define e where "e = (nametab s (nnames s))
    \<lparr>nprefix := copy_chars (length ps + 1) 0 0 p (nprefix (nametab s (nnames s))),
     nreplace := copy_chars (length rs + 1) 0 0 r (nreplace (nametab s (nnames s))), ndevice := d\<rparr>"
  have m: "mount p r d s = (OK, s\<lparr>nametab := (nametab s)(nnames s := e), nnames := nnames s + 1\<rparr>)"
    unfolding mount_def Let_def l using d n N by (simp add: e_def nat_add_distrib del: copy_chars.simps)
  have e: "rule_entry e (ps, rs, d)"
    unfolding rule_entry_def e_def
    using stored_cong [OF p(1)] stored_cong [OF r(1)] r(2) by (simp add: copy_chars_nth del: copy_chars.simps)
  have "rule_entry (((nametab s)(nnames s := e)) (int k)) ((es @ [(ps, rs, d)]) ! k)" if k: "k < Suc (length es)" for k
  proof (cases "k = length es")
    case True
    then show ?thesis using e N by simp
  next
    case False
    then show ?thesis using T k N by (simp add: name_rules_def nth_append)
  qed
  then show ?thesis using m N by (simp add: name_rules_def)
qed

text \<open>A bad device or a name that is too long is refused.\<close>

lemma mount_refused: "isbaddev d \<Longrightarrow> mount p r d s = (SYSERR, s)"
  by (simp add: mount_def Let_def)

lemma lower_0: "lower ch = 0 \<longleftrightarrow> ch = 0"
proof -
  have "ch + 32 = 0 \<Longrightarrow> ch = - 32" by (simp add: eq_neg_iff_add_eq_0)
  moreover have "schar (- 32) = - 32" by (simp add: schar_def)
  ultimately show ?thesis by (auto simp: lower_def)
qed

lemma append_lower_stored:
  assumes "stored nm xs" "stored (tmp(i := 0)) ys" "length ys = i" "5 \<le> i" "i - 5 \<le> length xs"
    "0 \<notin> set xs"
  shows "length xs - (i - 5) < n \<Longrightarrow>
    fst (append_lower n len nm i tmp) = len + (length xs - (i - 5)) + 1 \<and>
    stored (snd (append_lower n len nm i tmp)) (ys @ map lower (drop (i - 5) xs))"
  using assms(2-5)
proof (induction n arbitrary: i len tmp ys)
  case (Suc n)
  show ?case
  proof (cases "i - 5 = length xs")
    case True
    then have "lower (nm (i - 5)) = 0" using storedD(2) [OF assms(1)] by (simp add: lower_def)
    then show ?thesis using True Suc.prems by (simp add: Let_def)
  next
    case False
    then have i: "i - 5 < length xs" using Suc.prems by simp
    have c: "nm (i - 5) = xs ! (i - 5)" "lower (nm (i - 5)) \<noteq> 0"
      using storedD(1) [OF assms(1) i] nth_mem [OF i] assms(6) by (metis lower_0)+
    have d: "drop (i - 5) xs = nm (i - 5) # drop (Suc i - 5) xs"
      using Cons_nth_drop_Suc [OF i] Suc.prems(4) by (simp only: c(1) Suc_diff_le)
    have s: "stored (tmp(i := lower (nm (i - 5)), Suc i := 0)) (ys @ [lower (nm (i - 5))])"
      using Suc.prems(2,3) c(2) by (auto simp: stored_def nth_append less_Suc_eq)
    have "length xs - (Suc i - 5) < n" "5 \<le> Suc i" "Suc i - 5 \<le> length xs" using Suc.prems i by simp_all
    from Suc.IH [OF this(1) s _ this(2,3), of "len + 1"] c(2) d Suc.prems(3,4) i show ?thesis
      by (simp add: Let_def Suc_diff_le fun_upd_def)
  qed
qed simp

definition device_rule :: "int \<Rightarrow> u8 list \<times> u8 list \<times> int" where
  "device_rule i = (ascii ''/dev/'' @ map lower (ascii (dvname (devtab i))), [], i)"


definition start_rules :: "(u8 list \<times> u8 list \<times> int) list" where
  "start_rules = map device_rule (map int [0..<24]) @
     [(ascii ''/dev/null'', [], NULLDEV), (ascii ''/remote/'', ascii ''remote:'', RFILESYS),
      (ascii ''/local/'', [], LFILESYS), (ascii ''~/'', [], LFILESYS),
      (ascii ''/'', ascii ''root:'', RFILESYS), ([], [], LFILESYS)]"

lemma devtab_names:
  "\<forall>d \<in> set devtab_list. 0 \<notin> set (ascii (dvname d)) \<and> length (ascii (dvname d)) < 20"
  by (simp add: devtab_list_def ascii_def)

lemma devtab_nums: "map dvnum devtab_list = map int [0..<24]"
  by (simp add: devtab_list_def upt_rec numeral_eq_Suc)

lemma mount_device_rules:
  assumes T: "name_rules s es" and n: "length es < 40" and i: "0 \<le> i" "i < 24"
  shows "name_rules (mount_device i s) (es @ [device_rule i])"
proof -
  have "devtab i \<in> set devtab_list" using i by (simp add: devtab_def devtab_length)
  then have D: "0 \<notin> set (ascii (dvname (devtab i)))"  "length (ascii (dvname (devtab i))) < 20" using devtab_names by blast+
  have num: "dvnum (devtab i) = i"
    using arg_cong [OF devtab_nums, of "\<lambda>ns. ns ! nat i"] i by (simp add: devtab_def devtab_length)
  let ?nm = "lit (dvname (devtab i))"
  let ?tmp = "copy_chars 6 0 0 (lit ''/dev/'') (\<lambda>_. 0)"
  have "stored (?tmp(5 := 0)) (ascii ''/dev/'')"
    by (rule stored_cong [OF stored_lit]) (simp_all add: lit_def ascii_def copy_chars_nth del: copy_chars.simps)
  from append_lower_stored [OF stored_lit [OF D(1)] this _ _ _ D(1), of 250 5] D(2)
  have a: "fst (append_lower 250 5 ?nm 5 ?tmp) = 5 + length (ascii (dvname (devtab i))) + 1"
    "stored (snd (append_lower 250 5 ?nm 5 ?tmp)) (fst (device_rule i))"
    by (simp_all add: device_rule_def ascii_def)
  have "length (fst (device_rule i)) < NM_PRELEN" using D(2) by (simp add: device_rule_def ascii_def)
  moreover have "stored (lit '''') []" by (simp add: stored_def lit_def)
  moreover have "\<not> isbaddev i" using i by (simp add: isbaddev_def)
  ultimately obtain s' where "mount (snd (append_lower 250 5 ?nm 5 ?tmp)) (lit '''') i s = (OK, s')"
    "name_rules s' (es @ [(fst (device_rule i), [], i)])"
    using mount_rules [OF T n _ a(2)] by fastforce
  then show ?thesis
    unfolding mount_device_def Let_def num using a(1) D(2) by (simp add: device_rule_def case_prod_beta)
qed

lemma mount_devices_rules:
  "name_rules s [] \<Longrightarrow> n \<le> 24 \<Longrightarrow> name_rules (for_range n mount_device s) (map device_rule (map int [0..<n]))"
proof (induction n)
  case (Suc n)
  then show ?case
    using mount_device_rules [of "for_range n mount_device s" "map device_rule (map int [0..<n])" "int n"]
    by (simp add: for_range_Suc)
qed simp

text \<open>
  \<open>naminit\<close> leaves a table of 30 rules: one per device, which maps \<open>/dev/\<close> and the lower-case name
  to the device, then the fixed ones. The rule for \<open>/dev/\<close> alone is not among them: \<open>mount\<close>
  refuses its device \<open>SYSERR\<close>, and the result is not looked at.
\<close>

lemma mount_lits:
  "name_rules s es \<Longrightarrow> d \<in> {1, 6, 17} \<Longrightarrow> length es < 40 \<Longrightarrow> 0 \<notin> set (ascii p) \<union> set (ascii r) \<Longrightarrow>
   length p < NM_PRELEN \<Longrightarrow> length r < NM_REPLLEN \<Longrightarrow>
   \<exists>s'. mount (lit p) (lit r) d s = (OK, s') \<and> name_rules s' (es @ [(ascii p, ascii r, d)])"
  using mount_rules [of s es d "lit p" "ascii p" "lit r" "ascii r"]
  by (elim insertE emptyE) (simp_all add: stored_lit isbaddev_def, simp_all add: ascii_def)

theorem naminit_start_rules:
  "\<exists>s'. naminit s = (OK, s') \<and> name_rules s' start_rules"
proof -
  have T0: "name_rules (for_range 24 mount_device (s\<lparr>nnames := 0\<rparr>)) (map device_rule (map int [0..<24]))"
    by (rule mount_devices_rules) (simp_all add: name_rules_def)
  from mount_lits [OF this, of 1 "''/dev/null''" "''''"]
  obtain s1 where 1: "mount (lit ''/dev/null'') (lit '''') 1 (for_range 24 mount_device (s\<lparr>nnames := 0\<rparr>)) = (OK, s1)"
    "name_rules s1 (map device_rule (map int [0..<24]) @ [(ascii ''/dev/null'', ascii '''', 1)])"
    by (auto simp: isbaddev_def ascii_def)
  from mount_lits [OF 1(2), of 6 "''/remote/''" "''remote:''"] obtain s2 where 2:
    "mount (lit ''/remote/'') (lit ''remote:'') 6 s1 = (OK, s2)"
    "name_rules s2 ((map device_rule (map int [0..<24]) @ [(ascii ''/dev/null'', ascii '''', 1)]) @ [(ascii ''/remote/'', ascii ''remote:'', 6)])"
    by (auto simp: isbaddev_def ascii_def)
  from mount_lits [OF 2(2), of 17 "''/local/''" "''''"] obtain s3 where 3:
    "mount (lit ''/local/'') (lit '''') 17 s2 = (OK, s3)" "name_rules s3 (butlast (butlast (butlast start_rules)))"
    by (auto simp: isbaddev_def ascii_def start_rules_def butlast_append)
  from mount_lits [OF 3(2), of 17 "''~/''" "''''"] obtain s4 where 4:
    "mount (lit ''~/'') (lit '''') 17 s3 = (OK, s4)" "name_rules s4 (butlast (butlast start_rules))"
    by (auto simp: isbaddev_def ascii_def start_rules_def butlast_append)
  from mount_lits [OF 4(2), of 6 "''/''" "''root:''"] obtain s5 where 5:
    "mount (lit ''/'') (lit ''root:'') 6 s4 = (OK, s5)" "name_rules s5 (butlast start_rules)"
    by (auto simp: isbaddev_def ascii_def start_rules_def butlast_append)
  from mount_lits [OF 5(2), of 17 "''''" "''''"] obtain s6 where 6:
    "mount (lit '''') (lit '''') 17 s5 = (OK, s6)" "name_rules s6 start_rules"
    by (auto simp: isbaddev_def ascii_def start_rules_def butlast_append)
  show ?thesis
    using 1(1) 2(1) 3(1) 4(1) 5(1) 6 by (simp add: naminit_def mount_refused isbaddev_def)
qed

lemma first_rule_default: "\<exists>d ys. first_rule (es @ [([], rs, d')]) xs = Some (d, ys)"
  by (induction es) (auto split: prod.splits)

lemma start_rules_last: "butlast start_rules @ [([], [], 17)] = start_rules"
  by (simp add: start_rules_def butlast_append)

text \<open>
  C36: After start-up every name of fewer than 127 bytes leads to a device: the first of the start-up
  rules whose prefix it starts with gives the device and the rest of the name. Only a name for the
  name space itself is an error.
\<close>

theorem names_after_start:
  assumes "stored name xs" "length xs < 127"
  shows "\<exists>s' d ys nn. naminit s = (OK, s') \<and> first_rule start_rules xs = Some (d, ys) \<and>
    nammap name newname namdev s' = Some (if d = namdev then SYSERR else d, nn) \<and> (d \<noteq> namdev \<longrightarrow> stored nn ys)"
proof -
  obtain s' where s': "naminit s = (OK, s')" "name_rules s' start_rules" using naminit_start_rules by blast
  obtain d ys where f: "first_rule start_rules xs = Some (d, ys)"
    using first_rule_default [of "butlast start_rules" "[]" 17 xs] start_rules_last by metis
  show ?thesis using nammap_uses_first_rule [OF s'(2) _ assms] s'(1) f by (fastforce simp: start_rules_def)
qed

end
