(* ===== verification/Disk.thy ===== *)
theory Disk
  imports Names
begin

text \<open>
  Disks. A disk is read and written in blocks of 512 bytes; what is behind it is one value of a
  type \<open>'d\<close>, and a \<open>diskdev\<close> holds the read and write calls of the device switch for it. The RAM
  disk (\<^verbatim>\<open>device/ram\<close>) is the disk of this configuration (\<open>LF_DISK_DEV\<close> is \<open>RAM0\<close>). The locale
  \<open>block_disk\<close> is the contract of a disk: a block holds what was written to it last. The layout of
  numbers in a block is here too.
\<close>

section \<open>The RAM disk\<close>

abbreviation (input) BLKSIZ :: nat where "BLKSIZ \<equiv> 512"
abbreviation (input) RM_BLKS :: int where "RM_BLKS \<equiv> 200"
abbreviation (input) RAM0 :: int where "RAM0 \<equiv> 5"

type_synonym ramdisk = "int \<Rightarrow> u8"

text \<open>\<open>memcpy\<close> inside the array, first byte first: source and destination may overlap.\<close>

fun ram_copy :: "nat \<Rightarrow> int \<Rightarrow> int \<Rightarrow> ramdisk \<Rightarrow> ramdisk" where
  "ram_copy 0 dst src d = d"
| "ram_copy (Suc n) dst src d = ram_copy n (dst + 1) (src + 1) (d(dst := d src))"

fun ram_put :: "u8 list \<Rightarrow> int \<Rightarrow> ramdisk \<Rightarrow> ramdisk" where
  "ram_put [] dst d = d"
| "ram_put (b # bs) dst d = ram_put bs (dst + 1) (d(dst := b))"

definition ram_get :: "nat \<Rightarrow> int \<Rightarrow> ramdisk \<Rightarrow> u8 list" where
  "ram_get n src d = map (\<lambda>k. d (src + int k)) [0..<n]"

definition raminit :: "ramdisk \<Rightarrow> int \<times> ramdisk" where
  "raminit d =
     (let d = ram_put (ascii ''hopeless'') 0 d;
          d = ram_copy (BLKSIZ * nat RM_BLKS - 8) 8 0 d
      in (OK, d))"

definition ramopen :: "dentry \<Rightarrow> ramdisk \<Rightarrow> int \<times> ramdisk" where
  "ramopen devptr d = (dvnum devptr, d)"

definition ramclose :: "dentry \<Rightarrow> ramdisk \<Rightarrow> int \<times> ramdisk" where
  "ramclose devptr d = (OK, d)"

definition ramread :: "int \<Rightarrow> ramdisk \<Rightarrow> int \<times> u8 list" where
  "ramread blk d = (let bpos = int BLKSIZ * blk in (OK, ram_get BLKSIZ bpos d))"

definition ramwrite :: "u8 list \<Rightarrow> int \<Rightarrow> ramdisk \<Rightarrow> int \<times> ramdisk" where
  "ramwrite buff blk d = (let bpos = int BLKSIZ * blk in (OK, ram_put (take BLKSIZ buff) bpos d))"

section \<open>The calls of a disk\<close>

text \<open>
  \<open>dk_read dev buff blk\<close> gives the result and the new contents of the buffer, which an error leaves
  as they were.
\<close>

record 'd diskdev =
  dk_read :: "int \<Rightarrow> u8 list \<Rightarrow> int \<Rightarrow> 'd \<Rightarrow> int \<times> u8 list"
  dk_write :: "int \<Rightarrow> u8 list \<Rightarrow> int \<Rightarrow> 'd \<Rightarrow> int \<times> 'd"

text \<open>The switch with the RAM disk as the only disk: \<open>read\<close> and \<open>write\<close> refuse a bad device.\<close>

definition ram_dev :: "ramdisk diskdev" where
  "ram_dev = \<lparr>
     dk_read = (\<lambda>dev buff blk d.
       if \<not> isbaddev dev \<and> dvread (devtab dev) = Ramread then ramread blk d else (SYSERR, buff)),
     dk_write = (\<lambda>dev buff blk d.
       if \<not> isbaddev dev \<and> dvwrite (devtab dev) = Ramwrite then ramwrite buff blk d else (SYSERR, d))\<rparr>"

text \<open>
  The contract: \<open>blk d b\<close> is block \<open>b\<close> of disk \<open>d\<close>, for the blocks below \<open>nb\<close> of device \<open>dev\<close>.
\<close>

locale block_disk =
  fixes dk :: "'d diskdev" and dev nb :: int and blk :: "'d \<Rightarrow> int \<Rightarrow> u8 list"
  assumes blk_length: "length (blk d b) = 512"
    and read_blk: "0 \<le> b \<Longrightarrow> b < nb \<Longrightarrow> dk_read dk dev buff b d = (OK, blk d b)"
    and write_blk: "0 \<le> b \<Longrightarrow> b < nb \<Longrightarrow> length buff = 512 \<Longrightarrow>
      \<exists>d'. dk_write dk dev buff b d = (OK, d') \<and>
        (\<forall>b'. 0 \<le> b' \<and> b' < nb \<longrightarrow> blk d' b' = (if b' = b then buff else blk d b'))"
begin

lemma write_read_same:
  "0 \<le> b \<Longrightarrow> b < nb \<Longrightarrow> length buff = 512 \<Longrightarrow>
   dk_read dk dev old b (snd (dk_write dk dev buff b d)) = (OK, buff)"
  using write_blk [of b buff d] read_blk by fastforce

lemma write_read_other:
  "0 \<le> b \<Longrightarrow> b < nb \<Longrightarrow> 0 \<le> b' \<Longrightarrow> b' < nb \<Longrightarrow> b \<noteq> b' \<Longrightarrow> length buff = 512 \<Longrightarrow>
   dk_read dk dev old b' (snd (dk_write dk dev buff b d)) = dk_read dk dev old b' d"
  using write_blk [of b buff d] read_blk by fastforce

end

lemma ram_put_nth:
  "ram_put bs dst d i = (if dst \<le> i \<and> i < dst + int (length bs) then bs ! nat (i - dst) else d i)"
proof (induction bs arbitrary: dst d)
  case (Cons b bs)
  consider "i < dst" | "i = dst" | "dst < i" "nat (i - dst) = Suc (nat (i - (dst + 1)))" by linarith
  then show ?case
    unfolding ram_put.simps Cons by cases auto
qed auto

lemma length_ram_get [simp]: "length (ram_get n pos d) = n"
  by (simp add: ram_get_def)

lemma ram_get_put:
  assumes "length bs = n"
  shows "ram_get n pos (ram_put bs pos d) = bs"
  using assms by (intro nth_equalityI) (simp_all add: ram_get_def ram_put_nth)

lemma ram_get_put_other:
  assumes "\<And>k. k < n \<Longrightarrow> \<not> (dst \<le> pos + int k \<and> pos + int k < dst + int (length bs))"
  shows "ram_get n pos (ram_put bs dst d) = ram_get n pos d"
  unfolding ram_get_def using assms by (intro map_cong) (auto simp: ram_put_nth)

lemma devtab_ram [simp]: "dvread (devtab 5) = Ramread" "dvwrite (devtab 5) = Ramwrite"
  by (simp_all add: devtab_def devtab_list_def)

definition ram_blk :: "ramdisk \<Rightarrow> int \<Rightarrow> u8 list" where
  "ram_blk d b = ram_get BLKSIZ (int BLKSIZ * b) d"

lemma ram_dev_RAM0:
  "dk_read ram_dev RAM0 buff b d = (OK, ram_blk d b)"
  "length buff = 512 \<Longrightarrow> dk_write ram_dev RAM0 buff b d = (OK, ram_put buff (int BLKSIZ * b) d)"
  unfolding ram_dev_def diskdev.select_convs ramread_def ramwrite_def ram_blk_def Let_def
  by (simp_all only: devtab_ram) (simp_all add: isbaddev_def del: of_nat_numeral)

lemma ram_blk_put:
  assumes "length buff = 512"
  shows "ram_blk (ram_put buff (int BLKSIZ * b) d) b' = (if b' = b then buff else ram_blk d b')"
proof (cases "b' = b")
  case True
  show ?thesis unfolding if_P [OF True] unfolding True ram_blk_def by (rule ram_get_put [OF assms])
next
  case False
  have "\<not> (int 512 * b \<le> int 512 * b' + int k \<and> int 512 * b' + int k < int 512 * b + int (length buff))" if "k < 512" for k
  proof -
    from False consider "b' \<le> b - 1" | "b + 1 \<le> b'" by linarith
    then show ?thesis
    proof cases
      case 1
      then have "512 * b' \<le> 512 * (b - 1)" by (intro mult_left_mono) simp_all
      then show ?thesis using that by simp
    next
      case 2
      then have "512 * (b + 1) \<le> 512 * b'" by (intro mult_left_mono) simp_all
      then show ?thesis using assms by simp
    qed
  qed
  from ram_get_put_other [OF this] show ?thesis unfolding if_not_P [OF False] ram_blk_def by blast
qed

interpretation ram: block_disk ram_dev RAM0 RM_BLKS ram_blk
proof (unfold_locales, goal_cases)
  case (1 d b)
  then show ?case by (simp only: ram_blk_def length_ram_get)
next
  case (2 b buff d)
  show ?case by (rule ram_dev_RAM0)
next
  case (3 b buff d)
  then show ?case using ram_dev_RAM0(2) ram_blk_put by blast
qed

section \<open>Initial contents\<close>

lemma ram_copy_below: "i < dst \<Longrightarrow> ram_copy n dst src d i = d i"
  by (induction n arbitrary: dst src d) auto

lemma ram_copy_period:
  "src < dst \<Longrightarrow> dst \<le> i \<Longrightarrow> i < dst + int n \<Longrightarrow>
   ram_copy n dst src d i = ram_copy n dst src d (i - (dst - src))"
proof (induction n arbitrary: dst src d)
  case (Suc n)
  show ?case
  proof (cases "i = dst")
    case True
    then show ?thesis using Suc.prems by (simp add: ram_copy_below)
  next
    case False
    then show ?thesis using Suc.IH [of "src + 1" "dst + 1"] Suc.prems by simp
  qed
qed simp

text \<open>
  \<open>raminit\<close> copies the array onto itself eight bytes further on: as the copy runs upwards, the
  eight bytes repeat through the whole disk.
\<close>

theorem raminit_fills:
  assumes "0 \<le> i" "i < 102400"
  shows "\<exists>d'. raminit d = (OK, d') \<and> d' i = ascii ''hopeless'' ! nat (i mod 8)"
proof -
  let ?d = "ram_copy 102392 8 0 (ram_put (ascii ''hopeless'') 0 d)"
  have "i < 102400 \<Longrightarrow> ?d i = ascii ''hopeless'' ! nat (i mod 8)" using assms(1)
  proof (induction "nat i" arbitrary: i rule: less_induct)
    case less
    show ?case
    proof (cases "i < 8")
      case True
      then show ?thesis using less.prems by (simp add: ram_copy_below ram_put_nth ascii_def)
    next
      case False
      then have "?d i = ?d (i - 8)" using ram_copy_period [of 0 8 i 102392] less.prems by simp
      also have "\<dots> = ascii ''hopeless'' ! nat ((i - 8) mod 8)" using False less by simp
      finally show ?thesis by (simp add: mod_diff_right_eq [symmetric])
    qed
  qed
  then show ?thesis using assms by (simp add: raminit_def Let_def)
qed

section \<open>Numbers in a block\<close>

definition le32 :: "u32 \<Rightarrow> u8 list" where
  "le32 v = [ucast v, ucast (drop_bit 8 v), ucast (drop_bit 16 v), ucast (drop_bit 24 v)]"

definition get32 :: "u8 list \<Rightarrow> nat \<Rightarrow> u32" where
  "get32 bs k = ucast (bs ! k) OR push_bit 8 (ucast (bs ! (k + 1))) OR
     push_bit 16 (ucast (bs ! (k + 2))) OR push_bit 24 (ucast (bs ! (k + 3)))"

definition le16 :: "u16 \<Rightarrow> u8 list" where
  "le16 v = [ucast v, ucast (drop_bit 8 v)]"

definition get16 :: "u8 list \<Rightarrow> nat \<Rightarrow> u16" where
  "get16 bs k = ucast (bs ! k) OR push_bit 8 (ucast (bs ! (k + 1)))"

lemma length_le [simp]: "length (le32 v) = 4" "length (le16 w) = 2"
  by (simp_all add: le32_def le16_def)

lemma get32_le32: "length xs = k \<Longrightarrow> get32 (xs @ le32 v @ ys) k = v"
  by (simp add: get32_def le32_def nth_append word_of_bytes)

lemma get16_le16: "length xs = k \<Longrightarrow> get16 (xs @ le16 v @ ys) k = v"
proof -
  assume "length xs = k"
  moreover have "ucast (ucast v :: u8) OR push_bit 8 (ucast (ucast (drop_bit 8 v) :: u8)) = v"
    by (rule bit_word_eqI) (auto simp: bit_simps)
  ultimately show ?thesis by (simp add: get16_def le16_def nth_append)
qed

end
