(* ===== verification/Lfs.thy ===== *)
theory Lfs
  imports Disk Ipc_State
begin

text \<open>
  The local file system (\<^verbatim>\<open>device/lfs\<close>, \<^verbatim>\<open>include/lfilesys.h\<close>). Block 0 of the disk holds the directory,
  the next blocks seven index blocks each, the others data. A file is a list of index blocks, each
  with the numbers of up to 16 data blocks; unused blocks of both kinds are on free lists. An open
  file has a copy of one index block and one data block in its control block.

  The structures are records with the code's fields; what is written to disk is their layout in
  bytes. \<open>lfdirptr\<close> is the index of the entry of the directory it points to, -1 for \<open>NULL\<close>; \<open>lfbyte\<close> is an offset into \<open>lfdblock\<close>.
  The disk does not give up the CPU. A buffer on the stack that a failed read leaves untouched is
  zero.
\<close>

section \<open>Structures\<close>

abbreviation (input) LF_DISK_DEV :: int where "LF_DISK_DEV \<equiv> RAM0"
abbreviation (input) Nlfl :: int where "Nlfl \<equiv> 6"
abbreviation (input) LF_MODE_R :: int where "LF_MODE_R \<equiv> 1"
abbreviation (input) LF_MODE_W :: int where "LF_MODE_W \<equiv> 2"
abbreviation (input) LF_MODE_RW :: int where "LF_MODE_RW \<equiv> 3"
abbreviation (input) LF_MODE_N :: int where "LF_MODE_N \<equiv> 4"
abbreviation (input) LF_MODE_O :: int where "LF_MODE_O \<equiv> 8"
abbreviation (input) LF_NAME_LEN :: nat where "LF_NAME_LEN \<equiv> 16"
abbreviation (input) LF_NUM_DIR_ENT :: nat where "LF_NUM_DIR_ENT \<equiv> 20"
abbreviation (input) LF_INULL :: int where "LF_INULL \<equiv> -1"
abbreviation (input) LF_DNULL :: int where "LF_DNULL \<equiv> -1"
abbreviation (input) LF_IBLEN :: nat where "LF_IBLEN \<equiv> 16"
abbreviation (input) LF_IDATA :: u32 where "LF_IDATA \<equiv> 8192"
abbreviation (input) LF_IMASK :: u32 where "LF_IMASK \<equiv> 0x1fff"
abbreviation (input) LF_DMASK :: u32 where "LF_DMASK \<equiv> 0x1ff"
abbreviation (input) LF_AREA_DIR :: int where "LF_AREA_DIR \<equiv> 0"
abbreviation (input) LF_AREA_IB :: int where "LF_AREA_IB \<equiv> 1"
abbreviation (input) LFS_ID :: u32 where "LFS_ID \<equiv> 0x58696E75"
abbreviation (input) LF_CTL_TRUNC :: int where "LF_CTL_TRUNC \<equiv> 2"

record lfiblk =
  ib_next :: int
  ib_offset :: u32
  ib_dba :: "int list"

record ldentry =
  ld_size :: u32
  ld_ilist :: int
  ld_name :: chars

record lfdir =
  lfd_fsysid :: u32
  lfd_vers :: u16
  lfd_subvers :: u16
  lfd_allzeros :: u32
  lfd_allones :: u32
  lfd_dfree :: int
  lfd_ifree :: int
  lfd_nfiles :: int
  lfd_files :: "int \<Rightarrow> ldentry"
  lfd_revid :: u32

record lfdata =
  lf_dskdev :: int
  lf_mutex :: int
  lf_dir :: lfdir
  lf_dirpresent :: bool
  lf_dirdirty :: bool

datatype lfstate = LF_FREE | LF_USED

record lflcblk =
  lfstate :: lfstate
  lfdev :: int
  lfmutex :: int
  lfdirptr :: int
  lfmode :: int
  lfpos :: u32
  lfname :: chars
  lfinum :: int
  lfiblock :: lfiblk
  lfdnum :: int
  lfdblock :: "u8 list"
  lfbyte :: nat
  lfibdirty :: bool
  lfdbdirty :: bool

record 'd fsstate = kstate +
  Lf_data :: lfdata
  lfltab :: "int \<Rightarrow> lflcblk"
  disk :: 'd

type_synonym ('d, 'a) fss = "('d, 'a) fsstate_scheme"

definition upd_dir :: "(lfdir \<Rightarrow> lfdir) \<Rightarrow> ('d, 'a) fss \<Rightarrow> ('d, 'a) fss" where
  "upd_dir f s = s\<lparr>Lf_data := (Lf_data s)\<lparr>lf_dir := f (lf_dir (Lf_data s))\<rparr>\<rparr>"

definition set_dirdirty :: "bool \<Rightarrow> ('d, 'a) fss \<Rightarrow> ('d, 'a) fss" where
  "set_dirdirty b s = s\<lparr>Lf_data := (Lf_data s)\<lparr>lf_dirdirty := b\<rparr>\<rparr>"

definition upd_ent :: "int \<Rightarrow> (ldentry \<Rightarrow> ldentry) \<Rightarrow> ('d, 'a) fss \<Rightarrow> ('d, 'a) fss" where
  "upd_ent i f = upd_dir (\<lambda>d. d\<lparr>lfd_files := (lfd_files d)(i := f (lfd_files d i))\<rparr>)"

definition upd_lfl :: "int \<Rightarrow> (lflcblk \<Rightarrow> lflcblk) \<Rightarrow> ('d, 'a) fss \<Rightarrow> ('d, 'a) fss" where
  "upd_lfl i f s = s\<lparr>lfltab := (lfltab s)(i := f (lfltab s i))\<rparr>"

abbreviation dirent :: "('d, 'a) fss \<Rightarrow> int \<Rightarrow> ldentry" where
  "dirent s i \<equiv> lfd_files (lf_dir (Lf_data s)) i"

section \<open>Layout on disk\<close>

abbreviation (input) zeros :: "u8 list" where "zeros \<equiv> replicate BLKSIZ 0"

definition iblk_bytes :: "lfiblk \<Rightarrow> u8 list" where
  "iblk_bytes ib = le32 (word_of_int (ib_next ib)) @ le32 (ib_offset ib) @
     concat (map (\<lambda>d. le32 (word_of_int d)) (ib_dba ib))"

definition iblk_of :: "u8 list \<Rightarrow> lfiblk" where
  "iblk_of bs = \<lparr>ib_next = sint (get32 bs 0), ib_offset = get32 bs 4,
     ib_dba = map (\<lambda>i. sint (get32 bs (8 + 4 * i))) [0..<LF_IBLEN]\<rparr>"

definition entry_bytes :: "ldentry \<Rightarrow> u8 list" where
  "entry_bytes e = le32 (ld_size e) @ le32 (word_of_int (ld_ilist e)) @ map (ld_name e) [0..<LF_NAME_LEN]"

definition entry_of :: "u8 list \<Rightarrow> ldentry" where
  "entry_of bs = \<lparr>ld_size = get32 bs 0, ld_ilist = sint (get32 bs 4), ld_name = (\<lambda>k. bs ! (8 + k))\<rparr>"

definition dir_bytes :: "lfdir \<Rightarrow> u8 list" where
  "dir_bytes d = le32 (lfd_fsysid d) @ le16 (lfd_vers d) @ le16 (lfd_subvers d) @
     le32 (lfd_allzeros d) @ le32 (lfd_allones d) @ le32 (word_of_int (lfd_dfree d)) @
     le32 (word_of_int (lfd_ifree d)) @ le32 (word_of_int (lfd_nfiles d)) @
     concat (map (\<lambda>i. entry_bytes (lfd_files d (int i))) [0..<LF_NUM_DIR_ENT]) @ le32 (lfd_revid d)"

definition dir_of :: "u8 list \<Rightarrow> lfdir" where
  "dir_of bs = \<lparr>lfd_fsysid = get32 bs 0, lfd_vers = get16 bs 4, lfd_subvers = get16 bs 6,
     lfd_allzeros = get32 bs 8, lfd_allones = get32 bs 12, lfd_dfree = sint (get32 bs 16),
     lfd_ifree = sint (get32 bs 20), lfd_nfiles = sint (get32 bs 24),
     lfd_files = (\<lambda>i. entry_of (take 24 (drop (28 + 24 * nat i) bs))), lfd_revid = get32 bs 508\<rparr>"

definition ib2sect :: "int \<Rightarrow> int" where
  "ib2sect ib = ib div 7 + LF_AREA_IB"

definition ib2disp :: "int \<Rightarrow> nat" where
  "ib2disp ib = nat (ib mod 7) * 72"

section \<open>Index blocks and the free lists\<close>

definition lfibclear :: "u32 \<Rightarrow> lfiblk" where
  "lfibclear off = \<lparr>ib_next = LF_INULL, ib_offset = off, ib_dba = replicate LF_IBLEN LF_DNULL\<rparr>"

definition lfibget :: "'d diskdev \<Rightarrow> int \<Rightarrow> int \<Rightarrow> ('d, 'a) fss \<Rightarrow> lfiblk" where
  "lfibget dk diskdev inum s =
     (let (_, dbuff) = dk_read dk diskdev zeros (ib2sect inum) (disk s)
      in iblk_of (take 72 (drop (ib2disp inum) dbuff)))"

definition lfibput :: "'d diskdev \<Rightarrow> int \<Rightarrow> int \<Rightarrow> lfiblk \<Rightarrow> ('d, 'a) fss \<Rightarrow> int \<times> ('d, 'a) fss" where
  "lfibput dk diskdev inum ibuff s =
     (let diskblock = ib2sect inum;
          (r, dbuff) = dk_read dk diskdev zeros diskblock (disk s)
      in if r = SYSERR then (SYSERR, s)
         else
           let n = ib2disp inum;
               dbuff = take n dbuff @ iblk_bytes ibuff @ drop (n + 72) dbuff;
               (_, d) = dk_write dk diskdev dbuff diskblock (disk s)
           in (OK, s\<lparr>disk := d\<rparr>))"

text \<open>Writing the copy of the directory that is in memory.\<close>

definition write_dir :: "'d diskdev \<Rightarrow> ('d, 'a) fss \<Rightarrow> ('d, 'a) fss" where
  "write_dir dk s =
     s\<lparr>disk := snd (dk_write dk (lf_dskdev (Lf_data s)) (dir_bytes (lf_dir (Lf_data s))) LF_AREA_DIR (disk s))\<rparr>"

definition lfiballoc :: "'d diskdev \<Rightarrow> ('d, 'a) fss \<Rightarrow> int ctl \<times> ('d, 'a) fss" where
  "lfiballoc dk s =
     (let ibnum = lfd_ifree (lf_dir (Lf_data s)) in
      if ibnum = LF_INULL then (Halted, s)
      else
        let iblock = lfibget dk (lf_dskdev (Lf_data s)) ibnum s;
            s = upd_dir (\<lambda>d. d\<lparr>lfd_ifree := ib_next iblock\<rparr>) s;
            s = write_dir dk s;
            s = set_dirdirty False s
        in (Ret ibnum, s))"

text \<open>The new data block is the third component.\<close>

definition lfdballoc :: "'d diskdev \<Rightarrow> u8 list \<Rightarrow> ('d, 'a) fss \<Rightarrow> int ctl \<times> u8 list \<times> ('d, 'a) fss" where
  "lfdballoc dk dbuff s =
     (let dnum = lfd_dfree (lf_dir (Lf_data s)) in
      if dnum = LF_DNULL then (Halted, dbuff, s)
      else
        let (retval, dbuff) = dk_read dk (lf_dskdev (Lf_data s)) dbuff dnum (disk s)
        in if retval = SYSERR then (Halted, dbuff, s)
           else
             let s = upd_dir (\<lambda>d. d\<lparr>lfd_dfree := sint (get32 dbuff 0)\<rparr>) s;
                 s = write_dir dk s;
                 s = set_dirdirty False s
             in (Ret dnum, replicate BLKSIZ 43, s))"

text \<open>Only the link of the freed block is set; \<open>stk\<close> is what the buffer on the stack holds behind it.\<close>

definition lfdbfree :: "'d diskdev \<Rightarrow> u8 list \<Rightarrow> int \<Rightarrow> int \<Rightarrow> ('d, 'a) fss \<Rightarrow> int \<times> ('d, 'a) fss" where
  "lfdbfree dk stk diskdev dnum s =
     (let buf = le32 (word_of_int (lfd_dfree (lf_dir (Lf_data s)))) @ drop 4 stk;
          s = upd_dir (\<lambda>d. d\<lparr>lfd_dfree := dnum\<rparr>) s;
          s = s\<lparr>disk := snd (dk_write dk diskdev buf dnum (disk s))\<rparr>;
          s = s\<lparr>disk := snd (dk_write dk diskdev (dir_bytes (lf_dir (Lf_data s))) LF_AREA_DIR (disk s))\<rparr>
      in (OK, s))"

section \<open>Flushing, and moving to the current position\<close>

definition flush_dir :: "'d diskdev \<Rightarrow> ('d, 'a) fss \<Rightarrow> ('d, 'a) fss" where
  "flush_dir dk s = (if lf_dirdirty (Lf_data s) then set_dirdirty False (write_dir dk s) else s)"

definition flush_data :: "'d diskdev \<Rightarrow> int \<Rightarrow> ('d, 'a) fss \<Rightarrow> ('d, 'a) fss" where
  "flush_data dk minor s =
     (let c = lfltab s minor in
      if lfdbdirty c then
        upd_lfl minor (\<lambda>c. c\<lparr>lfdbdirty := False\<rparr>)
          (s\<lparr>disk := snd (dk_write dk (lf_dskdev (Lf_data s)) (lfdblock c) (lfdnum c) (disk s))\<rparr>)
      else s)"

definition flush_index :: "'d diskdev \<Rightarrow> int \<Rightarrow> ('d, 'a) fss \<Rightarrow> ('d, 'a) fss" where
  "flush_index dk minor s =
     (let c = lfltab s minor in
      if lfibdirty c then
        upd_lfl minor (\<lambda>c. c\<lparr>lfibdirty := False\<rparr>)
          (snd (lfibput dk (lf_dskdev (Lf_data s)) (lfinum c) (lfiblock c) s))
      else s)"

definition lfflush :: "'d diskdev \<Rightarrow> int \<Rightarrow> ('d, 'a) fss \<Rightarrow> int \<times> ('d, 'a) fss" where
  "lfflush dk minor s =
     (if lfstate (lfltab s minor) = LF_FREE then (SYSERR, s)
      else (OK, flush_index dk minor (flush_data dk minor (flush_dir dk s))))"

text \<open>The first index block: the one in memory, or the first of the file, or a new one.\<close>

definition lfsetup_first :: "'d diskdev \<Rightarrow> int \<Rightarrow> ('d, 'a) fss \<Rightarrow> int ctl \<times> ('d, 'a) fss" where
  "lfsetup_first dk minor s =
     (let c = lfltab s minor;
          ldptr = lfdirptr c;
          get = (\<lambda>ibnum. upd_lfl minor (\<lambda>c. c\<lparr>lfiblock := lfibget dk (lf_dskdev (Lf_data s)) ibnum s, lfinum := ibnum\<rparr>) s)
      in if lfinum c = LF_INULL then
           if ld_ilist (dirent s ldptr) = LF_INULL then
             case lfiballoc dk s of
               (Ret ibnum, s) \<Rightarrow>
                 let s = upd_lfl minor (\<lambda>c. c\<lparr>lfiblock := lfibclear 0\<rparr>) s;
                     s = upd_ent ldptr (\<lambda>e. e\<lparr>ld_ilist := ibnum\<rparr>) s;
                     s = upd_lfl minor (\<lambda>c. c\<lparr>lfibdirty := True, lfinum := ibnum\<rparr>) s
                 in (Ret OK, s)
             | (_, s) \<Rightarrow> (Halted, s)
           else (Ret OK, get (ld_ilist (dirent s ldptr)))
         else if lfpos c < ib_offset (lfiblock c) then (Ret OK, get (ld_ilist (dirent s ldptr)))
         else (Ret OK, s))"

text \<open>
  One round of the loop over the index blocks: \<open>Ret True\<close> when the loop goes on, \<open>Ret False\<close> when
  its condition does not hold.
\<close>

definition lfsetup_step :: "'d diskdev \<Rightarrow> int \<Rightarrow> ('d, 'a) fss \<Rightarrow> bool ctl \<times> ('d, 'a) fss" where
  "lfsetup_step dk minor s =
     (let c = lfltab s minor; ib = lfiblock c; dev = lf_dskdev (Lf_data s) in
      if lfpos c AND NOT LF_IMASK > ib_offset ib then
        if ib_next ib = LF_INULL then
          case lfiballoc dk s of
            (Ret ibnum, s) \<Rightarrow>
              let ib = ib\<lparr>ib_next := ibnum\<rparr>;
                  (_, s) = lfibput dk dev (lfinum c) ib s;
                  newoffset = ib_offset ib + LF_IDATA;
                  s = upd_lfl minor (\<lambda>c. c\<lparr>lfiblock := lfibclear newoffset, lfinum := ibnum, lfibdirty := True,
                        lfdnum := LF_DNULL\<rparr>) s
              in (Ret True, s)
          | (_, s) \<Rightarrow> (Halted, s)
        else
          (Ret True, upd_lfl minor (\<lambda>c. c\<lparr>lfiblock := lfibget dk dev (ib_next ib) s, lfinum := ib_next ib,
             lfdnum := LF_DNULL\<rparr>) s)
      else (Ret False, s))"

partial_function (option) lfsetup_walk :: "'d diskdev \<Rightarrow> int \<Rightarrow> ('d, 'a) fss \<Rightarrow> (int ctl \<times> ('d, 'a) fss) option" where
  "lfsetup_walk dk minor s =
     (let (r, s) = lfsetup_step dk minor s
      in if r = Ret True then lfsetup_walk dk minor s
         else Some (if r = Ret False then Ret OK else Halted, s))"

text \<open>The data block of the position in the index block that is in memory.\<close>

definition lfsetup_data :: "'d diskdev \<Rightarrow> int \<Rightarrow> ('d, 'a) fss \<Rightarrow> int ctl \<times> ('d, 'a) fss" where
  "lfsetup_data dk minor s =
     (let c = lfltab s minor;
          dindex = unat (drop_bit 9 (lfpos c AND LF_IMASK));
          dnum = ib_dba (lfiblock c) ! dindex;
          set_byte = (\<lambda>dnum. upd_lfl minor (\<lambda>c. c\<lparr>lfdnum := dnum, lfbyte := unat (lfpos c AND LF_DMASK)\<rparr>))
      in if dnum = LF_DNULL then
           case lfdballoc dk (lfdblock c) s of
             (Ret dnum, blk, s) \<Rightarrow>
               let s = upd_lfl minor (\<lambda>c. c\<lparr>lfdblock := blk,
                     lfiblock := (lfiblock c)\<lparr>ib_dba := (ib_dba (lfiblock c))[dindex := dnum]\<rparr>,
                     lfibdirty := True\<rparr>) s
               in (Ret OK, set_byte dnum s)
           | (_, blk, s) \<Rightarrow> (Halted, upd_lfl minor (\<lambda>c. c\<lparr>lfdblock := blk\<rparr>) s)
         else if dnum \<noteq> lfdnum c then
           let (_, blk) = dk_read dk (lf_dskdev (Lf_data s)) (lfdblock c) dnum (disk s)
           in (Ret OK, set_byte dnum (upd_lfl minor (\<lambda>c. c\<lparr>lfdblock := blk, lfdbdirty := False\<rparr>) s))
         else (Ret OK, set_byte dnum s))"

text \<open>\<open>lfsetup\<close> with the directory mutex held, up to its release.\<close>

definition lfsetup_locked :: "'d diskdev \<Rightarrow> int \<Rightarrow> ('d, 'a) fss \<Rightarrow> (int ctl \<times> ('d, 'a) fss) option" where
  "lfsetup_locked dk minor s =
     (let c = lfltab s minor;
          s = (if lfibdirty c \<or> lfdbdirty c then snd (lfflush dk minor s) else s);
          (r, s) = lfsetup_first dk minor s
      in if r = Ret OK then do {
           (r, s) \<leftarrow> lfsetup_walk dk minor s;
           if r = Ret OK then Some (lfsetup_data dk minor s) else Some (r, s)
         }
         else Some (r, s))"

definition lfsetup_end :: "'d diskdev \<Rightarrow> int \<Rightarrow> ('d, 'a) fss \<Rightarrow> (int ctl \<times> ('d, 'a) fss) option" where
  "lfsetup_end dk minor s = do {
     (r, s) \<leftarrow> lfsetup_locked dk minor s;
     if r = Ret OK then do {
       (_, s) \<leftarrow> signal (lf_mutex (Lf_data s)) s;
       Some (Ret OK, s)
     }
     else Some (r, s)
   }"

definition lfsetup :: "'d diskdev \<Rightarrow> int \<Rightarrow> ('d, 'a) fss \<Rightarrow> (int ctl \<times> ('d, 'a) fss) option" where
  "lfsetup dk minor s = do {
     let cur = currpid s;
     (_, s) \<leftarrow> wait_sem (lf_mutex (Lf_data s)) s;
     when_current cur (lfsetup_end dk minor) s
   }"

section \<open>Bytes of an open file\<close>

text \<open>
  Each call has the part after the wait for the file's mutex (\<open>_end\<close>) and the part after a call of
  \<open>lfsetup\<close>, which may wait for the directory (\<open>_byte\<close>).
\<close>

definition release :: "int \<Rightarrow> 'r \<Rightarrow> ('d, 'a) fss \<Rightarrow> ('r ctl \<times> ('d, 'a) fss) option" where
  "release minor r s = do {
     (_, s) \<leftarrow> signal (lfmutex (lfltab s minor)) s;
     Some (Ret r, s)
   }"

definition lflgetc_byte :: "int \<Rightarrow> ('d, 'a) fss \<Rightarrow> (int ctl \<times> ('d, 'a) fss) option" where
  "lflgetc_byte minor s =
     (let c = lfltab s minor;
          onebyte = uint (lfdblock c ! lfbyte c);
          s = upd_lfl minor (\<lambda>c. c\<lparr>lfbyte := lfbyte c + 1, lfpos := lfpos c + 1\<rparr>) s
      in release minor onebyte s)"

definition lflgetc_end :: "'d diskdev \<Rightarrow> int \<Rightarrow> ('d, 'a) fss \<Rightarrow> (int ctl \<times> ('d, 'a) fss) option" where
  "lflgetc_end dk minor s =
     (let c = lfltab s minor in
      if lfstate c \<noteq> LF_USED then release minor SYSERR s
      else if lfpos c \<ge> ld_size (dirent s (lfdirptr c)) then release minor EOF s
      else if lfbyte c \<ge> BLKSIZ then do {
        let cur = currpid s;
        (r, s) \<leftarrow> lfsetup dk minor s;
        case r of Ret _ \<Rightarrow> when_current cur (lflgetc_byte minor) s | _ \<Rightarrow> Some (r, s)
      }
      else lflgetc_byte minor s)"

definition lflgetc :: "'d diskdev \<Rightarrow> dentry \<Rightarrow> ('d, 'a) fss \<Rightarrow> (int ctl \<times> ('d, 'a) fss) option" where
  "lflgetc dk devptr s = do {
     let minor = dvminor devptr;
     let cur = currpid s;
     (_, s) \<leftarrow> wait_sem (lfmutex (lfltab s minor)) s;
     when_current cur (lflgetc_end dk minor) s
   }"

definition lflputc_byte :: "int \<Rightarrow> u8 \<Rightarrow> ('d, 'a) fss \<Rightarrow> (int ctl \<times> ('d, 'a) fss) option" where
  "lflputc_byte minor ch s =
     (let c = lfltab s minor;
          s = (if lfpos c \<ge> ld_size (dirent s (lfdirptr c))
               then set_dirdirty True (upd_ent (lfdirptr c) (\<lambda>e. e\<lparr>ld_size := ld_size e + 1\<rparr>) s) else s);
          s = upd_lfl minor (\<lambda>c. c\<lparr>lfdblock := (lfdblock c)[lfbyte c := ch], lfbyte := lfbyte c + 1,
                lfpos := lfpos c + 1, lfdbdirty := True\<rparr>) s
      in release minor OK s)"

definition lflputc_end :: "'d diskdev \<Rightarrow> int \<Rightarrow> u8 \<Rightarrow> ('d, 'a) fss \<Rightarrow> (int ctl \<times> ('d, 'a) fss) option" where
  "lflputc_end dk minor ch s =
     (let c = lfltab s minor in
      if lfstate c \<noteq> LF_USED then release minor SYSERR s
      else if lfpos c > ld_size (dirent s (lfdirptr c)) then release minor SYSERR s
      else if lfbyte c \<ge> BLKSIZ then do {
        let cur = currpid s;
        (r, s) \<leftarrow> lfsetup dk minor s;
        case r of Ret _ \<Rightarrow> when_current cur (lflputc_byte minor ch) s | _ \<Rightarrow> Some (r, s)
      }
      else lflputc_byte minor ch s)"

definition lflputc :: "'d diskdev \<Rightarrow> dentry \<Rightarrow> u8 \<Rightarrow> ('d, 'a) fss \<Rightarrow> (int ctl \<times> ('d, 'a) fss) option" where
  "lflputc dk devptr ch s = do {
     let minor = dvminor devptr;
     let cur = currpid s;
     (_, s) \<leftarrow> wait_sem (lfmutex (lfltab s minor)) s;
     when_current cur (lflputc_end dk minor ch) s
   }"

text \<open>\<open>n\<close> bytes are still wanted or still to be written.\<close>

fun lflread_loop :: "nat \<Rightarrow> 'd diskdev \<Rightarrow> dentry \<Rightarrow> addr \<Rightarrow> int \<Rightarrow> ('d, 'a) fss \<Rightarrow> (int ctl \<times> ('d, 'a) fss) option" where
  "lflread_loop 0 dk devptr buff numread s = Some (Ret numread, s)"
| "lflread_loop (Suc n) dk devptr buff numread s = do {
     (r, s) \<leftarrow> lflgetc dk devptr s;
     case r of
       Ret nxtbyte \<Rightarrow>
         if nxtbyte = SYSERR then Some (Ret SYSERR, s)
         else if nxtbyte = EOF then Some (Ret (if numread = 0 then EOF else numread), s)
         else lflread_loop n dk devptr (buff + 1) (numread + 1) (s\<lparr>mem := (mem s)(buff := word_of_int nxtbyte)\<rparr>)
     | _ \<Rightarrow> Some (r, s)
   }"

definition lflread :: "'d diskdev \<Rightarrow> dentry \<Rightarrow> addr \<Rightarrow> int \<Rightarrow> ('d, 'a) fss \<Rightarrow> (int ctl \<times> ('d, 'a) fss) option" where
  "lflread dk devptr buff count s =
     (if count < 0 then Some (Ret SYSERR, s) else lflread_loop (nat count) dk devptr buff 0 s)"

fun lflwrite_loop :: "nat \<Rightarrow> 'd diskdev \<Rightarrow> dentry \<Rightarrow> addr \<Rightarrow> int \<Rightarrow> ('d, 'a) fss \<Rightarrow> (int ctl \<times> ('d, 'a) fss) option" where
  "lflwrite_loop 0 dk devptr buff count s = Some (Ret count, s)"
| "lflwrite_loop (Suc n) dk devptr buff count s = do {
     (r, s) \<leftarrow> lflputc dk devptr (mem s buff) s;
     case r of
       Ret v \<Rightarrow> if v = SYSERR then Some (Ret SYSERR, s) else lflwrite_loop n dk devptr (buff + 1) count s
     | _ \<Rightarrow> Some (r, s)
   }"

definition lflwrite :: "'d diskdev \<Rightarrow> dentry \<Rightarrow> addr \<Rightarrow> int \<Rightarrow> ('d, 'a) fss \<Rightarrow> (int ctl \<times> ('d, 'a) fss) option" where
  "lflwrite dk devptr buff count s =
     (if count < 0 then Some (Ret SYSERR, s) else lflwrite_loop (nat count) dk devptr buff count s)"

definition lflseek_end :: "int \<Rightarrow> u32 \<Rightarrow> ('d, 'a) fss \<Rightarrow> (int ctl \<times> ('d, 'a) fss) option" where
  "lflseek_end minor off s =
     (let c = lfltab s minor in
      if lfstate c \<noteq> LF_USED then release minor SYSERR s
      else if off > ld_size (dirent s (lfdirptr c)) then release minor SYSERR s
      else release minor OK (upd_lfl minor (\<lambda>c. c\<lparr>lfpos := off, lfbyte := BLKSIZ\<rparr>) s))"

definition lflseek :: "dentry \<Rightarrow> u32 \<Rightarrow> ('d, 'a) fss \<Rightarrow> (int ctl \<times> ('d, 'a) fss) option" where
  "lflseek devptr off s = do {
     let minor = dvminor devptr;
     let cur = currpid s;
     (_, s) \<leftarrow> wait_sem (lfmutex (lfltab s minor)) s;
     when_current cur (lflseek_end minor off) s
   }"

definition lflclose_end :: "'d diskdev \<Rightarrow> int \<Rightarrow> ('d, 'a) fss \<Rightarrow> (int ctl \<times> ('d, 'a) fss) option" where
  "lflclose_end dk minor s =
     (let c = lfltab s minor in
      if lfstate c \<noteq> LF_USED then release minor SYSERR s
      else
        let s = (if lf_dirdirty (Lf_data s) \<or> lfdbdirty c \<or> lfibdirty c then snd (lfflush dk minor s) else s)
        in release minor OK (upd_lfl minor (\<lambda>c. c\<lparr>lfstate := LF_FREE\<rparr>) s))"

definition lflclose :: "'d diskdev \<Rightarrow> dentry \<Rightarrow> ('d, 'a) fss \<Rightarrow> (int ctl \<times> ('d, 'a) fss) option" where
  "lflclose dk devptr s = do {
     let minor = dvminor devptr;
     let cur = currpid s;
     (_, s) \<leftarrow> wait_sem (lfmutex (lfltab s minor)) s;
     when_current cur (lflclose_end dk minor) s
   }"

section \<open>Truncation\<close>

fun free_dblocks :: "int list \<Rightarrow> 'd diskdev \<Rightarrow> u8 list \<Rightarrow> int \<Rightarrow> ('d, 'a) fss \<Rightarrow> ('d, 'a) fss" where
  "free_dblocks [] dk stk dev s = s"
| "free_dblocks (nextdb # ds) dk stk dev s =
     free_dblocks ds dk stk dev (if nextdb \<noteq> LF_DNULL then snd (lfdbfree dk stk dev nextdb s) else s)"

partial_function (option) lftruncate_loop :: "'d diskdev \<Rightarrow> u8 list \<Rightarrow> int \<Rightarrow> int \<Rightarrow> ('d, 'a) fss \<Rightarrow> ('d, 'a) fss option" where
  "lftruncate_loop dk stk ifree nextib s =
     (if nextib = ifree then Some s
      else
        let dev = lf_dskdev (Lf_data s);
            iblock = lfibget dk dev nextib s;
            s = free_dblocks (ib_dba iblock) dk stk dev s;
            iblock = iblock\<lparr>ib_dba := replicate LF_IBLEN LF_DNULL\<rparr>;
            iblock = iblock\<lparr>ib_offset := 0\<rparr>;
            iblock = (if ib_next iblock = LF_INULL then iblock\<lparr>ib_next := ifree\<rparr> else iblock);
            (_, s) = lfibput dk dev nextib iblock s
        in lftruncate_loop dk stk ifree (ib_next iblock) s)"

definition lftruncate :: "'d diskdev \<Rightarrow> u8 list \<Rightarrow> int \<Rightarrow> ('d, 'a) fss \<Rightarrow> (int \<times> ('d, 'a) fss) option" where
  "lftruncate dk stk minor s =
     (let c = lfltab s minor; ldptr = lfdirptr c in
      if ld_size (dirent s ldptr) = 0 then Some (OK, s)
      else do {
        let s = (if lfibdirty c \<or> lfdbdirty c then snd (lfflush dk minor s) else s);
        let s = upd_lfl minor (\<lambda>c. c\<lparr>lfpos := 0, lfinum := LF_INULL, lfdnum := LF_DNULL, lfbyte := BLKSIZ\<rparr>) s;
        let ifree = lfd_ifree (lf_dir (Lf_data s));
        let firstib = ld_ilist (dirent s ldptr);
        let s = upd_ent ldptr (\<lambda>e. e\<lparr>ld_ilist := LF_INULL, ld_size := 0\<rparr>) s;
        let s = set_dirdirty True s;
        s \<leftarrow> lftruncate_loop dk stk ifree firstib s;
        let s = upd_dir (\<lambda>d. d\<lparr>lfd_ifree := firstib\<rparr>) s;
        Some (OK, set_dirdirty True s)
      })"

definition lflcontrol_trunc :: "'d diskdev \<Rightarrow> u8 list \<Rightarrow> int \<Rightarrow> ('d, 'a) fss \<Rightarrow> (int ctl \<times> ('d, 'a) fss) option" where
  "lflcontrol_trunc dk stk minor s = do {
     (retval, s) \<leftarrow> lftruncate dk stk minor s;
     let cur = currpid s;
     (_, s) \<leftarrow> signal (lf_mutex (Lf_data s)) s;
     when_current cur (release minor retval) s
   }"

definition lflcontrol_end :: "'d diskdev \<Rightarrow> u8 list \<Rightarrow> int \<Rightarrow> int \<Rightarrow> ('d, 'a) fss \<Rightarrow> (int ctl \<times> ('d, 'a) fss) option" where
  "lflcontrol_end dk stk minor func s =
     (if lfstate (lfltab s minor) \<noteq> LF_USED then release minor SYSERR s
      else if func = LF_CTL_TRUNC then do {
        let cur = currpid s;
        (_, s) \<leftarrow> wait_sem (lf_mutex (Lf_data s)) s;
        when_current cur (lflcontrol_trunc dk stk minor) s
      }
      else release minor SYSERR s)"

definition lflcontrol :: "'d diskdev \<Rightarrow> u8 list \<Rightarrow> dentry \<Rightarrow> int \<Rightarrow> ('d, 'a) fss \<Rightarrow> (int ctl \<times> ('d, 'a) fss) option" where
  "lflcontrol dk stk devptr func s = do {
     let minor = dvminor devptr;
     let cur = currpid s;
     (_, s) \<leftarrow> wait_sem (lfmutex (lfltab s minor)) s;
     when_current cur (lflcontrol_end dk stk minor func) s
   }"

section \<open>Initialisation\<close>

definition zero_dir :: lfdir where
  "zero_dir = \<lparr>lfd_fsysid = 0, lfd_vers = 0, lfd_subvers = 0, lfd_allzeros = 0, lfd_allones = 0,
     lfd_dfree = 0, lfd_ifree = 0, lfd_nfiles = 0,
     lfd_files = (\<lambda>_. \<lparr>ld_size = 0, ld_ilist = 0, ld_name = \<lambda>_. 0\<rparr>), lfd_revid = 0\<rparr>"

definition lfsinit :: "('d, 'a) fss \<Rightarrow> int \<times> ('d, 'a) fss" where
  "lfsinit s =
     (let s = s\<lparr>Lf_data := (Lf_data s)\<lparr>lf_dskdev := LF_DISK_DEV\<rparr>\<rparr>;
          (sem, s) = semcreate 1 s;
          s = s\<lparr>Lf_data := (Lf_data s)\<lparr>lf_mutex := sem\<rparr>\<rparr>;
          s = upd_dir (\<lambda>_. zero_dir) s
      in (OK, s\<lparr>Lf_data := (Lf_data s)\<lparr>lf_dirpresent := False, lf_dirdirty := False\<rparr>\<rparr>))"

definition lflinit :: "dentry \<Rightarrow> ('d, 'a) fss \<Rightarrow> int \<times> ('d, 'a) fss" where
  "lflinit devptr s =
     (let minor = dvminor devptr;
          s = upd_lfl minor (\<lambda>c. c\<lparr>lfstate := LF_FREE, lfdev := dvnum devptr\<rparr>) s;
          (sem, s) = semcreate 1 s;
          s = upd_lfl minor (\<lambda>c. c\<lparr>lfmutex := sem, lfdirptr := -1, lfpos := 0,
                lfname := (\<lambda>k. if k < LF_NAME_LEN then 0 else lfname c k)\<rparr>) s;
          s = upd_lfl minor (\<lambda>c. c\<lparr>lfinum := LF_INULL,
                lfiblock := \<lparr>ib_next = 0, ib_offset = 0, ib_dba = replicate LF_IBLEN 0\<rparr>,
                lfdnum := 0, lfdblock := zeros, lfbyte := BLKSIZ, lfibdirty := False, lfdbdirty := False\<rparr>) s
      in (OK, s))"

section \<open>Opening\<close>

definition lfscheck :: "lfdir \<Rightarrow> int" where
  "lfscheck d =
     (if lfd_fsysid d \<noteq> LFS_ID \<or> lfd_allzeros d \<noteq> 0 \<or> lfd_allones d \<noteq> 0xffffffff then SYSERR
      else
        let rev = (drop_bit 24 LFS_ID AND 0x000000ff) OR (drop_bit 8 LFS_ID AND 0x0000ff00) OR
              (push_bit 8 LFS_ID AND 0x00ff0000) OR (push_bit 24 LFS_ID AND 0xff000000)
        in if lfd_revid d \<noteq> rev then SYSERR
           else if lfd_nfiles d < 0 then SYSERR
           else OK)"

partial_function (option) lfgetmode_loop :: "chars \<Rightarrow> nat \<Rightarrow> int \<Rightarrow> int option" where
  "lfgetmode_loop mode k mbits =
     (let ch = mode k in
      if ch = 0 then Some mbits
      else if ch = 114 then
        (if mbits AND LF_MODE_R \<noteq> 0 then Some SYSERR else lfgetmode_loop mode (k + 1) (mbits OR LF_MODE_R))
      else if ch = 119 then
        (if mbits AND LF_MODE_W \<noteq> 0 then Some SYSERR else lfgetmode_loop mode (k + 1) (mbits OR LF_MODE_W))
      else if ch = 111 then
        (if mbits AND LF_MODE_O \<noteq> 0 \<or> mbits AND LF_MODE_N \<noteq> 0 then Some SYSERR
         else lfgetmode_loop mode (k + 1) (mbits OR LF_MODE_O))
      else if ch = 110 then
        (if mbits AND LF_MODE_O \<noteq> 0 \<or> mbits AND LF_MODE_N \<noteq> 0 then Some SYSERR
         else lfgetmode_loop mode (k + 1) (mbits OR LF_MODE_N))
      else Some SYSERR)"

definition lfgetmode :: "chars \<Rightarrow> int option" where
  "lfgetmode mode = do {
     mbits \<leftarrow> lfgetmode_loop mode 0 0;
     Some (if mbits = SYSERR then SYSERR
           else if mbits AND LF_MODE_RW = 0 then mbits OR LF_MODE_RW else mbits)
   }"

fun name_end :: "nat \<Rightarrow> chars \<Rightarrow> nat \<Rightarrow> nat" where
  "name_end 0 name i = i"
| "name_end (Suc n) name i = (if name i = 0 then i else name_end n name (i + 1))"

text \<open>The comparison with a stored name stops at the end of \<open>nam\<close> or at the first difference.\<close>

definition same_name :: "chars \<Rightarrow> chars \<Rightarrow> bool option" where
  "same_name nam cmp = do {
     (ended, k) \<leftarrow> match_prefix nam cmp 0;
     Some (ended \<and> cmp k = 0)
   }"

text \<open>The first free pseudo-device; \<open>SYSERR\<close> if there is none or the file is open already.\<close>

fun search_open :: "nat \<Rightarrow> int \<Rightarrow> chars \<Rightarrow> (int \<Rightarrow> lflcblk) \<Rightarrow> int \<Rightarrow> int option" where
  "search_open 0 i nam tab lfnext = Some lfnext"
| "search_open (Suc n) i nam tab lfnext =
     (if lfstate (tab i) = LF_FREE then search_open n (i + 1) nam tab (if lfnext = SYSERR then i else lfnext)
      else do {
        same \<leftarrow> same_name nam (lfname (tab i));
        if same then Some SYSERR else search_open n (i + 1) nam tab lfnext
      })"

text \<open>The index of the entry with the name, or -1.\<close>

fun search_dir :: "nat \<Rightarrow> int \<Rightarrow> chars \<Rightarrow> (int \<Rightarrow> ldentry) \<Rightarrow> int option" where
  "search_dir 0 i nam files = Some (-1)"
| "search_dir (Suc n) i nam files = do {
     same \<leftarrow> same_name nam (ld_name (files i));
     if same then Some i else search_dir n (i + 1) nam files
   }"

definition copy_lfname :: "chars \<Rightarrow> chars \<Rightarrow> chars" where
  "copy_lfname from to = snd (namcpy_loop LF_NAME_LEN 0 from to)"

text \<open>The control block of the file that is opened.\<close>

definition open_cblk :: "int \<Rightarrow> int \<Rightarrow> chars \<Rightarrow> lflcblk \<Rightarrow> lflcblk" where
  "open_cblk ldptr mbits name c = c\<lparr>lfstate := LF_USED, lfdirptr := ldptr, lfmode := mbits AND LF_MODE_RW,
     lfpos := 0, lfname := copy_lfname name (lfname c), lfinum := LF_INULL, lfdnum := LF_DNULL,
     lfbyte := BLKSIZ, lfibdirty := False, lfdbdirty := False\<rparr>"

definition unlock_dir :: "'r \<Rightarrow> ('d, 'a) fss \<Rightarrow> ('r ctl \<times> ('d, 'a) fss) option" where
  "unlock_dir r s = do {
     (_, s) \<leftarrow> signal (lf_mutex (Lf_data s)) s;
     Some (Ret r, s)
   }"

text \<open>With the directory in memory.\<close>

definition lfsopen_file :: "chars \<Rightarrow> int \<Rightarrow> int \<Rightarrow> ('d, 'a) fss \<Rightarrow> (int ctl \<times> ('d, 'a) fss) option" where
  "lfsopen_file name mbits lfnext s = do {
     let d = lf_dir (Lf_data s);
     i \<leftarrow> search_dir (nat (lfd_nfiles d)) 0 name (lfd_files d);
     let finish = (\<lambda>ldptr s. unlock_dir (lfdev (lfltab s lfnext)) (upd_lfl lfnext (open_cblk ldptr mbits name) s));
     if i = -1 then
       if mbits AND LF_MODE_O \<noteq> 0 then unlock_dir SYSERR s
       else if lfd_nfiles d \<ge> int LF_NUM_DIR_ENT then unlock_dir SYSERR s
       else
         let s = upd_dir (\<lambda>d. d\<lparr>lfd_nfiles := lfd_nfiles d + 1\<rparr>) s;
             s = upd_ent (lfd_nfiles d) (\<lambda>e. e\<lparr>ld_size := 0, ld_name := copy_lfname name (ld_name e), ld_ilist := LF_INULL\<rparr>) s
         in finish (lfd_nfiles d) s
     else if mbits AND LF_MODE_N \<noteq> 0 then unlock_dir SYSERR s
     else finish i s
   }"

definition lfsopen_end :: "'d diskdev \<Rightarrow> addr \<Rightarrow> int \<Rightarrow> int \<Rightarrow> ('d, 'a) fss \<Rightarrow> (int ctl \<times> ('d, 'a) fss) option" where
  "lfsopen_end dk name mbits lfnext s =
     (let nm = chars_at (mem s) name in
      if lf_dirpresent (Lf_data s) then lfsopen_file nm mbits lfnext s
      else
        let (retval, blk) = dk_read dk (lf_dskdev (Lf_data s)) (dir_bytes (lf_dir (Lf_data s))) LF_AREA_DIR (disk s)
        in if retval = SYSERR then unlock_dir SYSERR s
           else
             let s = upd_dir (\<lambda>_. dir_of blk) s
             in if lfscheck (lf_dir (Lf_data s)) = SYSERR then unlock_dir SYSERR s
                else lfsopen_file nm mbits lfnext (s\<lparr>Lf_data := (Lf_data s)\<lparr>lf_dirpresent := True\<rparr>\<rparr>))"

definition lfsopen :: "'d diskdev \<Rightarrow> addr \<Rightarrow> addr \<Rightarrow> ('d, 'a) fss \<Rightarrow> (int ctl \<times> ('d, 'a) fss) option" where
  "lfsopen dk name mode s = do {
     let nm = chars_at (mem s) name;
     if name_end LF_NAME_LEN nm 0 \<ge> LF_NAME_LEN then Some (Ret SYSERR, s)
     else do {
       mbits \<leftarrow> lfgetmode (chars_at (mem s) mode);
       if mbits = SYSERR then Some (Ret SYSERR, s)
       else do {
         lfnext \<leftarrow> search_open (nat Nlfl) 0 nm (lfltab s) SYSERR;
         if lfnext = SYSERR then Some (Ret SYSERR, s)
         else do {
           let cur = currpid s;
           (_, s) \<leftarrow> wait_sem (lf_mutex (Lf_data s)) s;
           when_current cur (lfsopen_end dk name mbits lfnext) s
         }
       }
     }
   }"

section \<open>Creating a file system\<close>

text \<open>The free index blocks: \<open>n\<close> links, from block \<open>i\<close> to its successor.\<close>

fun create_iblocks :: "nat \<Rightarrow> int \<Rightarrow> 'd diskdev \<Rightarrow> int \<Rightarrow> ('d, 'a) fss \<Rightarrow> ('d, 'a) fss" where
  "create_iblocks 0 i dk dev s = snd (lfibput dk dev i ((lfibclear 0)\<lparr>ib_next := LF_INULL\<rparr>) s)"
| "create_iblocks (Suc n) i dk dev s =
     create_iblocks n (i + 1) dk dev (snd (lfibput dk dev i ((lfibclear 0)\<lparr>ib_next := i + 1\<rparr>) s))"

definition free_block :: "int \<Rightarrow> u8 list" where
  "free_block nextdb = le32 (word_of_int nextdb) @ replicate 508 0"

fun create_dblocks :: "nat \<Rightarrow> int \<Rightarrow> 'd diskdev \<Rightarrow> int \<Rightarrow> ('d, 'a) fss \<Rightarrow> ('d, 'a) fss" where
  "create_dblocks 0 dbindex dk dev s = s\<lparr>disk := snd (dk_write dk dev (free_block LF_DNULL) dbindex (disk s))\<rparr>"
| "create_dblocks (Suc n) dbindex dk dev s =
     create_dblocks n (dbindex + 1) dk dev
       (s\<lparr>disk := snd (dk_write dk dev (free_block (dbindex + 1)) dbindex (disk s))\<rparr>)"

text \<open>The \<open>close\<close> of the disk at the end, which does nothing for the RAM disk, is left out.\<close>

definition lfscreate :: "'d diskdev \<Rightarrow> int \<Rightarrow> int \<Rightarrow> u32 \<Rightarrow> ('d, 'a) fss \<Rightarrow> int \<times> ('d, 'a) fss" where
  "lfscreate dk dev lfiblks dsiz s =
     (let sectors = dsiz div 512;
          ibpersector = 7;
          ibsectors = (word_of_int lfiblks + (ibpersector - 1)) div ibpersector;
          lfiblks = sint (ibsectors * ibpersector)
      in if ibsectors > sectors div 2 then (SYSERR, s)
         else
           let dbindex = sint (ibsectors + 1);
               dir = zero_dir\<lparr>lfd_dfree := dbindex\<rparr>;
               dblks = sectors - ibsectors - 1;
               (retval, d) = dk_write dk dev (dir_bytes dir) LF_AREA_DIR (disk s);
               s = s\<lparr>disk := d\<rparr>
           in if retval = SYSERR then (SYSERR, s)
              else
                let s = create_iblocks (nat (lfiblks - 1)) 0 dk dev s;
                    s = create_dblocks (unat (dblks - 1)) dbindex dk dev s
                in (OK, s))"

text \<open>Counting the blocks of the two free lists.\<close>

partial_function (option) count_iblocks :: "'d diskdev \<Rightarrow> int \<Rightarrow> int \<Rightarrow> int \<Rightarrow> ('d, 'a) fss \<Rightarrow> int option" where
  "count_iblocks dk dev nextib n s =
     (if nextib = LF_INULL then Some n
      else count_iblocks dk dev (ib_next (lfibget dk dev nextib s)) (n + 1) s)"

partial_function (option) count_dblocks :: "'d diskdev \<Rightarrow> int \<Rightarrow> u8 list \<Rightarrow> int \<Rightarrow> int \<Rightarrow> ('d, 'a) fss \<Rightarrow> int option" where
  "count_dblocks dk dev dblock nextdb n s =
     (if nextdb = LF_DNULL then Some n
      else
        let (_, dblock) = dk_read dk dev dblock nextdb (disk s)
        in count_dblocks dk dev dblock (sint (get32 dblock 0)) (n + 1) s)"

text \<open>What \<open>lfsckfmt\<close> prints, the numbers of free index and data blocks, is its result here.\<close>

definition lfsckfmt :: "'d diskdev \<Rightarrow> int \<Rightarrow> ('d, 'a) fss \<Rightarrow> (int \<times> int) ctl option" where
  "lfsckfmt dk dev s = do {
     let (retval, blk) = dk_read dk dev zeros LF_AREA_DIR (disk s);
     if retval = SYSERR then Some Halted
     else if lfscheck (dir_of blk) = SYSERR then Some Halted
     else do {
       ib \<leftarrow> count_iblocks dk dev (lfd_ifree (dir_of blk)) 0 s;
       db \<leftarrow> count_dblocks dk dev zeros (lfd_dfree (dir_of blk)) 0 s;
       Some (Ret (ib, db))
     }
   }"

end
