(* ===== verification/Lfs_Disk.thy ===== *)
theory Lfs_Disk
  imports Lfs
begin

text \<open>
  What the index block and directory operations of the file system do to the blocks of a disk that
  keeps its contract: the layouts can be read back, and writing an index block changes no other.
  A file system that was just created is not accepted by \<open>lfsopen\<close>.
\<close>

section \<open>Layouts\<close>

lemma sint_32: "- 2147483648 \<le> x \<Longrightarrow> x < 2147483648 \<Longrightarrow> sint (word_of_int x :: u32) = x"
  by (subst int_word_sint) (simp add: mod_pos_pos_trivial)

definition int32_ok :: "int \<Rightarrow> bool" where
  "int32_ok x \<longleftrightarrow> - 2147483648 \<le> x \<and> x < 2147483648"

definition iblk_ok :: "lfiblk \<Rightarrow> bool" where
  "iblk_ok ib \<longleftrightarrow> int32_ok (ib_next ib) \<and> length (ib_dba ib) = LF_IBLEN \<and> (\<forall>d \<in> set (ib_dba ib). int32_ok d)"

lemma length_concat_const: "(\<forall>x \<in> set xs. length (f x) = n) \<Longrightarrow> length (concat (map f xs)) = n * length xs"
  by (induction xs) auto

lemma get32_concat:
  assumes "i < length ds" "length xs = k"
  shows "get32 (xs @ concat (map (\<lambda>d. le32 (f d)) ds) @ ys) (k + 4 * i) = f (ds ! i)"
proof -
  have "concat (map (\<lambda>d. le32 (f d)) ds) =
      concat (map (\<lambda>d. le32 (f d)) (take i ds)) @ le32 (f (ds ! i)) @ concat (map (\<lambda>d. le32 (f d)) (drop (Suc i) ds))"
    by (subst id_take_nth_drop [OF assms(1)]) simp
  moreover have "length (xs @ concat (map (\<lambda>d. le32 (f d)) (take i ds))) = k + 4 * i"
    using assms length_concat_const [of "take i ds" "\<lambda>d. le32 (f d)" 4] by simp
  ultimately show ?thesis using get32_le32 by (metis append.assoc)
qed

lemma length_iblk_bytes: "iblk_ok ib \<Longrightarrow> length (iblk_bytes ib) = 72"
  using length_concat_const [of "ib_dba ib" "\<lambda>d. le32 (word_of_int d)" 4] by (simp add: iblk_bytes_def iblk_ok_def)

lemma iblk_of_bytes: "iblk_ok ib \<Longrightarrow> iblk_of (iblk_bytes ib) = ib"
proof -
  assume ok: "iblk_ok ib"
  have n: "get32 (iblk_bytes ib) 0 = word_of_int (ib_next ib)"
    using get32_le32 [of "[]" 0 "word_of_int (ib_next ib)"] by (simp add: iblk_bytes_def)
  have o: "get32 (iblk_bytes ib) 4 = ib_offset ib"
    unfolding iblk_bytes_def by (rule get32_le32) simp
  have "get32 (iblk_bytes ib) (8 + 4 * i) = word_of_int (ib_dba ib ! i)" if "i < 16" for i
    using get32_concat [of i "ib_dba ib" "le32 (word_of_int (ib_next ib)) @ le32 (ib_offset ib)" 8 word_of_int "[]"]
      that ok by (simp add: iblk_bytes_def iblk_ok_def)
  then have "map (\<lambda>i. sint (get32 (iblk_bytes ib) (8 + 4 * i))) [0..<16] = ib_dba ib"
    using ok by (intro nth_equalityI) (simp_all add: iblk_ok_def sint_32 int32_ok_def)
  then show ?thesis using ok n o by (simp add: iblk_of_def iblk_ok_def int32_ok_def sint_32)
qed

lemma length_entry_bytes [simp]: "length (entry_bytes e) = 24"
  by (simp add: entry_bytes_def)

lemma length_dir_bytes [simp]: "length (dir_bytes d) = 512"
  using length_concat_const [of "[0..<20]" "\<lambda>i. entry_bytes (lfd_files d (int i))" 24] by (simp add: dir_bytes_def)

lemma length_free_block [simp]: "length (free_block d) = 512"
  by (simp add: free_block_def)

lemma take_drop_splice:
  assumes "length X = k" "n + k \<le> length B"
  shows "take k (drop n (take n B @ X @ drop (n + k) B)) = X"
    and "n' + k \<le> n \<or> n + k \<le> n' \<Longrightarrow> n' + k \<le> length B \<Longrightarrow>
      take k (drop n' (take n B @ X @ drop (n + k) B)) = take k (drop n' B)"
  using assms by (simp, intro nth_equalityI) (auto simp: nth_append simp del: drop_append take_append)

lemma ib2disp_bound: "ib2disp ib + 72 \<le> 512"
proof -
  have "nat (ib mod 7) \<le> 6" by (simp add: nat_le_iff)
  then show ?thesis by (simp add: ib2disp_def)
qed

lemma ib2disp_apart:
  "0 \<le> i \<Longrightarrow> 0 \<le> j \<Longrightarrow> i \<noteq> j \<Longrightarrow> ib2sect i = ib2sect j \<Longrightarrow> ib2disp i + 72 \<le> ib2disp j \<or> ib2disp j + 72 \<le> ib2disp i"
proof -
  assume h: "0 \<le> i" "0 \<le> j" "i \<noteq> j" "ib2sect i = ib2sect j"
  then have "i mod 7 \<noteq> j mod 7" using div_mult_mod_eq [of i 7] div_mult_mod_eq [of j 7] by (auto simp: ib2sect_def)
  then have "nat (i mod 7) \<noteq> nat (j mod 7)" by simp
  then consider "nat (i mod 7) + 1 \<le> nat (j mod 7)" | "nat (j mod 7) + 1 \<le> nat (i mod 7)" by linarith
  then show ?thesis unfolding ib2disp_def by cases simp_all
qed

section \<open>Index blocks on a disk\<close>

context block_disk
begin

definition inum_ok :: "int \<Rightarrow> bool" where
  "inum_ok i \<longleftrightarrow> 0 \<le> i \<and> ib2sect i < nb"

lemma ib2sect_range: "inum_ok i \<Longrightarrow> 0 \<le> ib2sect i \<and> ib2sect i < nb \<and> ib2sect i \<noteq> 0"
  using pos_imp_zdiv_nonneg_iff [of 7 i] by (auto simp: inum_ok_def ib2sect_def)

lemma lfibget_blk:
  "inum_ok i \<Longrightarrow> lfibget dk dev i s = iblk_of (take 72 (drop (ib2disp i) (blk (disk s) (ib2sect i))))"
  using ib2sect_range [of i] by (simp add: lfibget_def read_blk)

lemma lfibput_blk:
  assumes "inum_ok i" "iblk_ok ib"
  shows "\<exists>d'. lfibput dk dev i ib s = (OK, s\<lparr>disk := d'\<rparr>) \<and>
    (\<forall>b. 0 \<le> b \<and> b < nb \<longrightarrow> blk d' b = (if b = ib2sect i
       then take (ib2disp i) (blk (disk s) b) @ iblk_bytes ib @ drop (ib2disp i + 72) (blk (disk s) b)
       else blk (disk s) b))"
proof -
  let ?B = "blk (disk s) (ib2sect i)"
  let ?X = "take (ib2disp i) ?B @ iblk_bytes ib @ drop (ib2disp i + 72) ?B"
  have l: "length ?X = 512"
    using ib2disp_bound [of i] length_iblk_bytes [OF assms(2)] by (simp add: blk_length)
  have r: "0 \<le> ib2sect i" "ib2sect i < nb" using ib2sect_range [OF assms(1)] by simp_all
  obtain d' where w: "dk_write dk dev ?X (ib2sect i) (disk s) = (OK, d')"
    "\<forall>b'. 0 \<le> b' \<and> b' < nb \<longrightarrow> blk d' b' = (if b' = ib2sect i then ?X else blk (disk s) b')"
    using write_blk [OF r l] by blast
  then show ?thesis using read_blk [OF r] by (intro exI [of _ d']) (simp add: lfibput_def)
qed

text \<open>Writing an index block and reading it back, and reading another one.\<close>

lemma lfibget_lfibput:
  assumes "inum_ok i" "iblk_ok ib" "inum_ok j"
  shows "lfibget dk dev j (snd (lfibput dk dev i ib s)) = (if j = i then ib else lfibget dk dev j s)"
proof -
  let ?B = "blk (disk s) (ib2sect i)"
  obtain d' where p: "lfibput dk dev i ib s = (OK, s\<lparr>disk := d'\<rparr>)" and
    d: "\<forall>b. 0 \<le> b \<and> b < nb \<longrightarrow> blk d' b = (if b = ib2sect i
       then take (ib2disp i) (blk (disk s) b) @ iblk_bytes ib @ drop (ib2disp i + 72) (blk (disk s) b)
       else blk (disk s) b)"
    using lfibput_blk [OF assms(1,2)] by blast
  note r = ib2sect_range [OF assms(3)]
  have b: "blk d' (ib2sect j) = (if ib2sect j = ib2sect i
      then take (ib2disp i) ?B @ iblk_bytes ib @ drop (ib2disp i + 72) ?B else blk (disk s) (ib2sect j))"
    using d r by simp
  have l: "length (iblk_bytes ib) = 72" "ib2disp i + 72 \<le> length ?B" "ib2disp j + 72 \<le> length ?B"
    using length_iblk_bytes [OF assms(2)] ib2disp_bound by (simp_all add: blk_length)
  show ?thesis
  proof (cases "j = i")
    case True
    then show ?thesis
      using p b take_drop_splice(1) [OF l(1,2)] iblk_of_bytes [OF assms(2)] by (simp add: lfibget_blk assms)
  next
    case False
    have "take 72 (drop (ib2disp j) (blk d' (ib2sect j))) = take 72 (drop (ib2disp j) (blk (disk s) (ib2sect j)))"
    proof (cases "ib2sect j = ib2sect i")
      case True
      have "ib2disp j + 72 \<le> ib2disp i \<or> ib2disp i + 72 \<le> ib2disp j"
        using ib2disp_apart [of j i] assms(1,3) False True by (auto simp: inum_ok_def)
      then show ?thesis using b True take_drop_splice(2) [OF l(1,2) _ l(3)] by simp
    qed (use b in simp)
    then show ?thesis using p False by (simp add: lfibget_blk assms)
  qed
qed

end

section \<open>The lists of free blocks\<close>

context block_disk
begin

fun ichain :: "('d, 'a) fss \<Rightarrow> int \<Rightarrow> int list \<Rightarrow> bool" where
  "ichain s p [] \<longleftrightarrow> p = LF_INULL"
| "ichain s p (i # is) \<longleftrightarrow> p = i \<and> inum_ok i \<and> ichain s (ib_next (lfibget dk dev i s)) is"

fun dchain :: "'d \<Rightarrow> int \<Rightarrow> int list \<Rightarrow> bool" where
  "dchain d p [] \<longleftrightarrow> p = LF_DNULL"
| "dchain d p (b # bs) \<longleftrightarrow> p = b \<and> 0 < b \<and> b < nb \<and> dchain d (sint (get32 (blk d b) 0)) bs"

lemma ichain_cong:
  "(\<And>i. i \<in> set is \<Longrightarrow> lfibget dk dev i s' = lfibget dk dev i s) \<Longrightarrow> ichain s' p is = ichain s p is"
  by (induction "is" arbitrary: p) auto

lemma dchain_cong: "(\<And>b. b \<in> set bs \<Longrightarrow> blk d' b = blk d b) \<Longrightarrow> dchain d' p bs = dchain d p bs"
  by (induction bs arbitrary: p) auto

lemma inum_ok_nonneg: "inum_ok i \<Longrightarrow> i \<noteq> -1"
  by (simp add: inum_ok_def)

lemma count_ichain: "ichain s p is \<Longrightarrow> count_iblocks dk dev p n s = Some (n + int (length is))"
proof (induction "is" arbitrary: p n)
  case (Cons i "is")
  then show ?case using inum_ok_nonneg [of i] by (subst count_iblocks.simps) simp
qed (simp add: count_iblocks.simps)

lemma count_dchain: "dchain (disk s) p bs \<Longrightarrow> count_dblocks dk dev buf p n s = Some (n + int (length bs))"
proof (induction bs arbitrary: p n buf)
  case (Cons b bs)
  then show ?case by (subst count_dblocks.simps) (simp add: read_blk)
qed (simp add: count_dblocks.simps)

lemma write_frame:
  assumes "0 \<le> b" "b < nb" "length buff = 512"
  obtains d' where "dk_write dk dev buff b d = (OK, d')" "blk d' b = buff"
    "\<And>b'. 0 \<le> b' \<Longrightarrow> b' < nb \<Longrightarrow> b' \<noteq> b \<Longrightarrow> blk d' b' = blk d b'"
  using write_blk [OF assms, of d] assms by auto

lemma lfibput_frame:
  assumes "inum_ok i" "iblk_ok ib"
  obtains d' where "lfibput dk dev i ib s = (OK, s\<lparr>disk := d'\<rparr>)"
    "\<And>j. inum_ok j \<Longrightarrow> lfibget dk dev j (s\<lparr>disk := d'\<rparr>) = (if j = i then ib else lfibget dk dev j s)"
    "\<And>b. 0 \<le> b \<Longrightarrow> b < nb \<Longrightarrow> b \<noteq> ib2sect i \<Longrightarrow> blk d' b = blk (disk s) b"
proof -
  obtain d' where d': "lfibput dk dev i ib s = (OK, s\<lparr>disk := d'\<rparr>)"
    "\<forall>b. 0 \<le> b \<and> b < nb \<longrightarrow> blk d' b = (if b = ib2sect i
       then take (ib2disp i) (blk (disk s) b) @ iblk_bytes ib @ drop (ib2disp i + 72) (blk (disk s) b)
       else blk (disk s) b)"
    using lfibput_blk [OF assms] by blast
  show ?thesis
  proof
    show "lfibput dk dev i ib s = (OK, s\<lparr>disk := d'\<rparr>)" by fact
    show "lfibget dk dev j (s\<lparr>disk := d'\<rparr>) = (if j = i then ib else lfibget dk dev j s)" if "inum_ok j" for j
      using lfibget_lfibput [OF assms that, of s] d'(1) by simp
  qed (use d'(2) in simp)
qed

lemma iblk_ok_free: "int32_ok n \<Longrightarrow> iblk_ok ((lfibclear 0)\<lparr>ib_next := n\<rparr>)"
  by (simp add: iblk_ok_def lfibclear_def int32_ok_def)

lemma create_iblocks_ok:
  assumes "\<And>j. i \<le> j \<Longrightarrow> j \<le> i + int n \<Longrightarrow> inum_ok j \<and> int32_ok (j + 1)"
  obtains d' where "create_iblocks n i dk dev s = s\<lparr>disk := d'\<rparr>"
    "ichain (s\<lparr>disk := d'\<rparr>) i (map (\<lambda>k. i + int k) [0..<Suc n])"
    "\<And>j. inum_ok j \<Longrightarrow> j < i \<Longrightarrow> lfibget dk dev j (s\<lparr>disk := d'\<rparr>) = lfibget dk dev j s"
    "\<forall>b. 0 \<le> b \<and> b < nb \<and> (\<forall>j. i \<le> j \<and> j \<le> i + int n \<longrightarrow> b \<noteq> ib2sect j) \<longrightarrow> blk d' b = blk (disk s) b"
  using assms
proof (induction n arbitrary: i s thesis)
  case 0
  have ok: "inum_ok i" "iblk_ok ((lfibclear 0)\<lparr>ib_next := LF_INULL\<rparr>)"
    using 0(2) [of i] by (simp_all add: iblk_ok_free int32_ok_def)
  obtain d' where d': "lfibput dk dev i ((lfibclear 0)\<lparr>ib_next := LF_INULL\<rparr>) s = (OK, s\<lparr>disk := d'\<rparr>)"
    "\<And>j. inum_ok j \<Longrightarrow> lfibget dk dev j (s\<lparr>disk := d'\<rparr>) =
       (if j = i then (lfibclear 0)\<lparr>ib_next := LF_INULL\<rparr> else lfibget dk dev j s)"
    "\<And>b. 0 \<le> b \<Longrightarrow> b < nb \<Longrightarrow> b \<noteq> ib2sect i \<Longrightarrow> blk d' b = blk (disk s) b"
    using lfibput_frame [OF ok] by metis
  show ?case
  proof (rule 0(1))
    show "create_iblocks 0 i dk dev s = s\<lparr>disk := d'\<rparr>" using d'(1) by simp
  qed (use d' ok in auto)
next
  case (Suc n)
  have ok: "inum_ok i" "iblk_ok ((lfibclear 0)\<lparr>ib_next := i + 1\<rparr>)"
    using Suc.prems(2) [of i] by (simp_all add: iblk_ok_free)
  obtain d1 where d1: "lfibput dk dev i ((lfibclear 0)\<lparr>ib_next := i + 1\<rparr>) s = (OK, s\<lparr>disk := d1\<rparr>)"
    "\<And>j. inum_ok j \<Longrightarrow> lfibget dk dev j (s\<lparr>disk := d1\<rparr>) =
       (if j = i then (lfibclear 0)\<lparr>ib_next := i + 1\<rparr> else lfibget dk dev j s)"
    "\<And>b. 0 \<le> b \<Longrightarrow> b < nb \<Longrightarrow> b \<noteq> ib2sect i \<Longrightarrow> blk d1 b = blk (disk s) b"
    using lfibput_frame [OF ok] by metis
  obtain d2 where d2: "create_iblocks n (i + 1) dk dev (s\<lparr>disk := d1\<rparr>) = s\<lparr>disk := d1\<rparr>\<lparr>disk := d2\<rparr>"
    "ichain (s\<lparr>disk := d1\<rparr>\<lparr>disk := d2\<rparr>) (i + 1) (map (\<lambda>k. i + 1 + int k) [0..<Suc n])"
    "\<And>j. inum_ok j \<Longrightarrow> j < i + 1 \<Longrightarrow> lfibget dk dev j (s\<lparr>disk := d1\<rparr>\<lparr>disk := d2\<rparr>) = lfibget dk dev j (s\<lparr>disk := d1\<rparr>)"
    "\<forall>b. 0 \<le> b \<and> b < nb \<and> (\<forall>j. i + 1 \<le> j \<and> j \<le> i + 1 + int n \<longrightarrow> b \<noteq> ib2sect j) \<longrightarrow>
       blk d2 b = blk (disk (s\<lparr>disk := d1\<rparr>)) b"
    by (rule Suc.IH [of "i + 1" "s\<lparr>disk := d1\<rparr>"]) (use Suc.prems(2) in auto)
  have l: "map (\<lambda>k. i + int k) [0..<Suc (Suc n)] = i # map (\<lambda>k. i + 1 + int k) [0..<Suc n]"
    by (simp add: map_upt_Suc add.assoc del: upt_Suc)
  show ?case
  proof (rule Suc.prems(1))
    show "create_iblocks (Suc n) i dk dev s = s\<lparr>disk := d2\<rparr>" using d1(1) d2(1) by simp
    show "ichain (s\<lparr>disk := d2\<rparr>) i (map (\<lambda>k. i + int k) [0..<Suc (Suc n)])"
      unfolding l using d2(2) d2(3) [of i] d1(2) [of i] ok by simp
  next
    fix j assume "inum_ok j" "j < i"
    then show "lfibget dk dev j (s\<lparr>disk := d2\<rparr>) = lfibget dk dev j s" using d2(3) [of j] d1(2) [of j] by simp
  next
    show "\<forall>b. 0 \<le> b \<and> b < nb \<and> (\<forall>j. i \<le> j \<and> j \<le> i + int (Suc n) \<longrightarrow> b \<noteq> ib2sect j) \<longrightarrow> blk d2 b = blk (disk s) b"
    proof (intro allI impI, elim conjE)
      fix b assume b: "0 \<le> b" "b < nb" "\<forall>j. i \<le> j \<and> j \<le> i + int (Suc n) \<longrightarrow> b \<noteq> ib2sect j"
      then have "blk d2 b = blk d1 b" using d2(4) [rule_format, of b] by simp
      also have "\<dots> = blk (disk s) b" using d1(3) [of b] b(1,2) b(3) [rule_format, of i] by simp
      finally show "blk d2 b = blk (disk s) b" .
    qed
  qed
qed

lemma get32_free_block: "int32_ok n \<Longrightarrow> sint (get32 (free_block n) 0) = n"
  using get32_le32 [of "[]" 0 "word_of_int n" "replicate 508 0"] by (simp add: free_block_def int32_ok_def sint_32)

lemma create_dblocks_ok:
  assumes "0 < b" "b + int n < nb" "int32_ok nb"
  obtains d' where "create_dblocks n b dk dev s = s\<lparr>disk := d'\<rparr>"
    "dchain d' b (map (\<lambda>k. b + int k) [0..<Suc n])"
    "\<And>b'. 0 \<le> b' \<Longrightarrow> b' < b \<Longrightarrow> blk d' b' = blk (disk s) b'"
  using assms
proof (induction n arbitrary: b s thesis)
  case 0
  have b: "0 \<le> b" "b < nb" using 0(2,3) by simp_all
  obtain d' where d': "dk_write dk dev (free_block LF_DNULL) b (disk s) = (OK, d')" "blk d' b = free_block LF_DNULL"
    "\<And>b'. 0 \<le> b' \<Longrightarrow> b' < nb \<Longrightarrow> b' \<noteq> b \<Longrightarrow> blk d' b' = blk (disk s) b'"
    using write_frame [OF b length_free_block] by blast
  have n: "sint (get32 (free_block (- 1)) 0) = - 1" by (rule get32_free_block) (simp add: int32_ok_def)
  show ?case
  proof (rule 0(1))
    show "create_dblocks 0 b dk dev s = s\<lparr>disk := d'\<rparr>" using d'(1) by simp
    show "dchain d' b (map (\<lambda>k. b + int k) [0..<Suc 0])" using d'(2) b 0(2) n by simp
  qed (use d'(3) 0(3) in simp)
next
  case (Suc n)
  have nx: "int32_ok (b + 1)" using Suc.prems(2-4) by (simp add: int32_ok_def)
  have b: "0 \<le> b" "b < nb" using Suc.prems(2,3) by simp_all
  obtain d1 where d1: "dk_write dk dev (free_block (b + 1)) b (disk s) = (OK, d1)" "blk d1 b = free_block (b + 1)"
    "\<And>b'. 0 \<le> b' \<Longrightarrow> b' < nb \<Longrightarrow> b' \<noteq> b \<Longrightarrow> blk d1 b' = blk (disk s) b'"
    using write_frame [OF b length_free_block] by blast
  obtain d2 where d2: "create_dblocks n (b + 1) dk dev (s\<lparr>disk := d1\<rparr>) = s\<lparr>disk := d1\<rparr>\<lparr>disk := d2\<rparr>"
    "dchain d2 (b + 1) (map (\<lambda>k. b + 1 + int k) [0..<Suc n])"
    "\<And>b'. 0 \<le> b' \<Longrightarrow> b' < b + 1 \<Longrightarrow> blk d2 b' = blk (disk (s\<lparr>disk := d1\<rparr>)) b'"
    by (rule Suc.IH [of "b + 1" "s\<lparr>disk := d1\<rparr>"]) (use Suc.prems(2-4) in simp_all)
  have l: "map (\<lambda>k. b + int k) [0..<Suc (Suc n)] = b # map (\<lambda>k. b + 1 + int k) [0..<Suc n]"
    by (simp add: map_upt_Suc add.assoc del: upt_Suc)
  show ?case
  proof (rule Suc.prems(1))
    show "create_dblocks (Suc n) b dk dev s = s\<lparr>disk := d2\<rparr>" using d1(1) d2(1) by simp
    show "dchain d2 b (map (\<lambda>k. b + int k) [0..<Suc (Suc n)])"
      unfolding l using d2(2) d2(3) [of b] d1(2) get32_free_block [OF nx] Suc.prems(2,3) by simp
  next
    fix b' assume "0 \<le> b'" "b' < b"
    then show "blk d2 b' = blk (disk s) b'" using d2(3) [of b'] d1(3) [of b'] Suc.prems(3) by simp
  qed
qed

end

section \<open>A new file system\<close>

lemma lfscreate_sizes:
  assumes L: "0 < L" "L < 2147483000" and I: "I = (L + 6) div 7"
    and S: "S = uint (dsiz :: u32) div 512" "I \<le> S div 2" "I + 2 \<le> S"
  defines "sectors \<equiv> dsiz div 512" and "ibsectors \<equiv> (word_of_int L + (7 - 1)) div (7 :: u32)"
  shows "\<not> ibsectors > sectors div 2" "sint (ibsectors * 7) = 7 * I" "sint (ibsectors + 1) = I + 1"
    "unat (sectors - ibsectors - 1 - 1) = nat (S - I - 2)"
proof -
  have i: "0 < I" "7 * I \<le> L + 6" using L(1) I by simp_all
  have s: "S \<le> 8388607" using S(1) unsigned_less [of dsiz, where ?'a = int] by simp
  have us: "uint sectors = S" by (simp add: sectors_def S(1) uint_div)
  have "uint (word_of_int L + (7 - 1) :: u32) = L + 6"
    using L by (simp add: uint_word_ariths word_of_int_inverse uint_word_of_int mod_pos_pos_trivial)
  then have ui: "uint ibsectors = I" by (simp add: ibsectors_def I uint_div)
  show "\<not> ibsectors > sectors div 2" using S(2) by (simp add: word_less_def uint_div us ui)
  have w: "ibsectors = word_of_int I" using ui word_of_int_uint [of ibsectors] by simp
  have i1: "I \<le> 4194303" using S(2) s by linarith
  show "sint (ibsectors * 7) = 7 * I"
    using sint_32 [of "I * 7"] i(1) i1 unfolding w by (simp add: mult.commute)
  show "sint (ibsectors + 1) = I + 1"
    using sint_32 [of "I + 1"] i(1) i1 unfolding w by simp
  have "sectors = word_of_int S" using us word_of_int_uint [of sectors] by simp
  then have "sectors - ibsectors - 1 - 1 = word_of_int (S - I - 2)" unfolding w by simp
  moreover have "uint (word_of_int (S - I - 2) :: u32) = S - I - 2"
    using S(3) s i(1) by (subst uint_word_of_int) (simp add: mod_pos_pos_trivial)
  ultimately show "unat (sectors - ibsectors - 1 - 1) = nat (S - I - 2)"
    by (simp only: unat_eq_nat_uint)
qed

lemma lfscheck_zero: "lfscheck (dir_of (dir_bytes (zero_dir\<lparr>lfd_dfree := n\<rparr>))) = SYSERR"
proof -
  have "get32 (dir_bytes (zero_dir\<lparr>lfd_dfree := n\<rparr>)) 0 = 0"
    using get32_le32 [of "[]" 0 0] by (simp add: dir_bytes_def zero_dir_def)
  then show ?thesis by (simp add: lfscheck_def dir_of_def)
qed

context block_disk
begin

lemma lfscreate_ok:
  assumes L: "0 < L" "L < 2147483000" and I: "I = (L + 6) div 7" and nb: "int32_ok nb"
    and S: "S = uint (dsiz :: u32) div 512" "I \<le> S div 2" "I + 2 \<le> S" "S \<le> nb"
  obtains d' where "lfscreate dk dev L dsiz s = (OK, s\<lparr>disk := d'\<rparr>)"
    "blk d' 0 = dir_bytes (zero_dir\<lparr>lfd_dfree := I + 1\<rparr>)"
    "ichain (s\<lparr>disk := d'\<rparr>) 0 (map int [0..<nat (7 * I)])"
    "dchain d' (I + 1) (map (\<lambda>k. I + 1 + int k) [0..<nat (S - I - 1)])"
proof -
  note z = lfscreate_sizes [OF L I S(1-3)]
  have i: "0 < I" using L(1) I by simp
  let ?dir = "dir_bytes (zero_dir\<lparr>lfd_dfree := I + 1\<rparr>)"
  have "(0::int) \<le> 0" "0 < nb" using S i by simp_all
  from write_frame [OF this length_dir_bytes] obtain d0 where
    d0: "dk_write dk dev ?dir 0 (disk s) = (OK, d0)" "blk d0 0 = ?dir" by metis
  have ok: "inum_ok (0 + j) \<and> int32_ok (0 + j + 1)" and sect: "ib2sect j \<le> I" if "0 \<le> j" "j \<le> 0 + int (nat (7 * I - 1))" for j
  proof -
    have "j \<le> 7 * I - 1" using that i by simp
    then have "j div 7 \<le> (7 * I - 1) div 7" by (rule zdiv_mono1) simp
    then show "ib2sect j \<le> I" by (simp add: ib2sect_def)
    then show "inum_ok (0 + j) \<and> int32_ok (0 + j + 1)"
      using that(1) \<open>j \<le> 7 * I - 1\<close> S i unsigned_less [of dsiz, where ?'a = int]
      by (auto simp: inum_ok_def int32_ok_def)
  qed
  have ok': "inum_ok j \<and> int32_ok (j + 1)" if "0 \<le> j" "j \<le> 0 + int (nat (7 * I - 1))" for j
    using ok [OF that] by simp
  obtain d1 where d1: "create_iblocks (nat (7 * I - 1)) 0 dk dev (s\<lparr>disk := d0\<rparr>) = s\<lparr>disk := d0\<rparr>\<lparr>disk := d1\<rparr>"
    "ichain (s\<lparr>disk := d0\<rparr>\<lparr>disk := d1\<rparr>) 0 (map (\<lambda>k. 0 + int k) [0..<Suc (nat (7 * I - 1))])"
    "\<And>j. inum_ok j \<Longrightarrow> j < 0 \<Longrightarrow> lfibget dk dev j (s\<lparr>disk := d0\<rparr>\<lparr>disk := d1\<rparr>) = lfibget dk dev j (s\<lparr>disk := d0\<rparr>)"
    "\<forall>b. 0 \<le> b \<and> b < nb \<and> (\<forall>j. 0 \<le> j \<and> j \<le> 0 + int (nat (7 * I - 1)) \<longrightarrow> b \<noteq> ib2sect j) \<longrightarrow>
       blk d1 b = blk (disk (s\<lparr>disk := d0\<rparr>)) b"
    proof (rule create_iblocks_ok [where i = 0 and n = "nat (7 * I - 1)" and s = "s\<lparr>disk := d0\<rparr>"], goal_cases)
    case (1 j)
    show ?case by (rule ok' [OF 1(2,3)])
  next
    case (2 d')
    show ?case by (rule 2(1) [OF 2(2-5)])
  qed
  have n1: "0 < I + 1" "I + 1 + int (nat (S - I - 2)) < nb" using i S by simp_all
  obtain d2 where d2: "create_dblocks (nat (S - I - 2)) (I + 1) dk dev (s\<lparr>disk := d1\<rparr>) = s\<lparr>disk := d1\<rparr>\<lparr>disk := d2\<rparr>"
    "dchain d2 (I + 1) (map (\<lambda>k. I + 1 + int k) [0..<Suc (nat (S - I - 2))])"
    "\<And>b'. 0 \<le> b' \<Longrightarrow> b' < I + 1 \<Longrightarrow> blk d2 b' = blk (disk (s\<lparr>disk := d1\<rparr>)) b'"
    by (rule create_dblocks_ok [where n = "nat (S - I - 2)" and s = "s\<lparr>disk := d1\<rparr>", OF n1 nb]) blast
  have e: "Suc (nat (7 * I - 1)) = nat (7 * I)" "Suc (nat (S - I - 2)) = nat (S - I - 1)" using i S by simp_all
  show ?thesis
  proof
    show "lfscreate dk dev L dsiz s = (OK, s\<lparr>disk := d2\<rparr>)"
      unfolding lfscreate_def Let_def z(2-4) if_not_P [OF z(1)] d0(1) using d1(1) d2(1) by simp
    have "0 \<noteq> ib2sect j" if "0 \<le> j" for j :: int using that by (simp add: ib2sect_def pos_imp_zdiv_nonneg_iff)
    then show "blk d2 0 = ?dir" using d2(3) [of 0] d1(4) [rule_format, of 0] d0(2) i \<open>0 < nb\<close> by simp
    have "lfibget dk dev j (s\<lparr>disk := d2\<rparr>) = lfibget dk dev j (s\<lparr>disk := d1\<rparr>)" if "j \<in> set (map int [0..<nat (7 * I)])" for j
    proof -
      have j: "0 \<le> j" "j \<le> 0 + int (nat (7 * I - 1))" using that i by auto
      have "inum_ok j" using ok' [OF j] by simp
      moreover from this have "0 \<le> ib2sect j" using ib2sect_range by blast
      ultimately show ?thesis using d2(3) [of "ib2sect j"] sect [OF j] by (simp add: lfibget_blk)
    qed
    then have "ichain (s\<lparr>disk := d2\<rparr>) 0 (map int [0..<nat (7 * I)]) =
        ichain (s\<lparr>disk := d1\<rparr>) 0 (map int [0..<nat (7 * I)])" by (rule ichain_cong)
    then show "ichain (s\<lparr>disk := d2\<rparr>) 0 (map int [0..<nat (7 * I)])" using d1(2) unfolding e by simp
    show "dchain d2 (I + 1) (map (\<lambda>k. I + 1 + int k) [0..<nat (S - I - 1)])" using d2(2) unfolding e .
  qed
qed

end

section \<open>On the RAM disk\<close>

text \<open>
  An index block written to the RAM disk is read back as it was, and every other index block is as
  before, also those in the same sector.
\<close>

theorem index_block_roundtrip:
  assumes "0 \<le> i" "i < 1393" "0 \<le> j" "j < 1393" "iblk_ok ib"
  shows "\<exists>s'. lfibput ram_dev RAM0 i ib s = (OK, s') \<and>
    lfibget ram_dev RAM0 j s' = (if j = i then ib else lfibget ram_dev RAM0 j s)"
proof -
  have ok: "ram.inum_ok i" "ram.inum_ok j"
    using zdiv_mono1 [of i 1392 7] zdiv_mono1 [of j 1392 7] assms by (simp_all add: ram.inum_ok_def ib2sect_def)
  obtain d' where "lfibput ram_dev 5 i ib s = (OK, s\<lparr>disk := d'\<rparr>)"
    using ram.lfibput_blk [OF ok(1) assms(5)] by blast
  with ram.lfibget_lfibput [OF ok(1) assms(5) ok(2), of s] show ?thesis by simp
qed

text \<open>
  C40: \<open>lfscreate\<close> links all index blocks and all data blocks into the two free lists, but it does not
  put the identification in the directory that \<open>lfscheck\<close> asks for: the new file system is refused by
  every \<open>lfsopen\<close>, and \<open>lfsckfmt\<close> panics.
\<close>

theorem new_file_system_refused:
  assumes L: "0 < L" "L < 2147483000" and I: "I = (L + 6) div 7"
    and S: "S = uint (dsiz :: u32) div 512" "I \<le> S div 2" "I + 2 \<le> S" "S \<le> RM_BLKS"
    and s: "lf_dskdev (Lf_data s) = RAM0" "\<not> lf_dirpresent (Lf_data s)"
  shows "\<exists>s'. lfscreate ram_dev RAM0 L dsiz s = (OK, s') \<and>
    count_iblocks ram_dev RAM0 0 0 s' = Some (7 * I) \<and>
    count_dblocks ram_dev RAM0 zeros (I + 1) 0 s' = Some (S - I - 1) \<and>
    lfsckfmt ram_dev RAM0 s' = Some Halted \<and>
    (\<exists>dir. lfsopen_end ram_dev name mbits lfnext s' = unlock_dir SYSERR (upd_dir (\<lambda>_. dir) s'))"
proof -
  have "int32_ok 200" by (simp add: int32_ok_def)
  from ram.lfscreate_ok [OF L I this S, of s] obtain d' where
    c: "lfscreate ram_dev 5 L dsiz s = (OK, s\<lparr>disk := d'\<rparr>)" and
    b: "ram_blk d' 0 = dir_bytes (zero_dir\<lparr>lfd_dfree := I + 1\<rparr>)" and
    i: "ram.ichain (s\<lparr>disk := d'\<rparr>) 0 (map int [0..<nat (7 * I)])" and
    d: "ram.dchain d' (I + 1) (map (\<lambda>k. I + 1 + int k) [0..<nat (S - I - 1)])" by metis
  have n: "0 < I" using L(1) I by simp
  have r: "dk_read ram_dev 5 buf 0 d' = (OK, dir_bytes (zero_dir\<lparr>lfd_dfree := I + 1\<rparr>))" for buf
    by (simp add: ram_dev_RAM0 b)
  show ?thesis
  proof (intro exI [of _ "s\<lparr>disk := d'\<rparr>"] conjI)
    show "lfscreate ram_dev RAM0 L dsiz s = (OK, s\<lparr>disk := d'\<rparr>)" by (fact c)
    show "count_iblocks ram_dev RAM0 0 0 (s\<lparr>disk := d'\<rparr>) = Some (7 * I)"
      using ram.count_ichain [OF i, of 0] n by simp
    have "ram.dchain (disk (s\<lparr>disk := d'\<rparr>)) (I + 1) (map (\<lambda>k. I + 1 + int k) [0..<nat (S - I - 1)])" using d by simp
    from ram.count_dchain [OF this, of zeros 0]
    show "count_dblocks ram_dev RAM0 zeros (I + 1) 0 (s\<lparr>disk := d'\<rparr>) = Some (S - I - 1)" using S(3) by simp
    show "lfsckfmt ram_dev RAM0 (s\<lparr>disk := d'\<rparr>) = Some Halted"
      by (simp add: lfsckfmt_def r lfscheck_zero)
    show "\<exists>dir. lfsopen_end ram_dev name mbits lfnext (s\<lparr>disk := d'\<rparr>) = unlock_dir SYSERR (upd_dir (\<lambda>_. dir) (s\<lparr>disk := d'\<rparr>))"
      using s by (intro exI [of _ "dir_of (dir_bytes (zero_dir\<lparr>lfd_dfree := I + 1\<rparr>))"])
        (simp add: lfsopen_end_def r upd_dir_def lfscheck_zero Let_def)
  qed
qed

end
