(* ===== verification/Lfs_File.thy ===== *)
theory Lfs_File
  imports Lfs_Disk Ports
begin

text \<open>
  An open file is a list of bytes and a position. \<open>file_ok\<close> says how a control block, the directory
  in memory and the disk hold the bytes \<open>xs\<close>: the index blocks \<open>is\<close> and the data blocks \<open>bs\<close> of the
  file, the free blocks \<open>fi\<close> and \<open>fd\<close> (no block in two places), the links and block numbers in the
  index blocks, and the copies in memory, which may be newer than the disk. Sectors 1 to \<open>ni\<close> are
  the index area. The operations on a file keep it, and read and write the bytes as on the list.
\<close>

section \<open>Representation\<close>

definition idx :: "int \<Rightarrow> int \<Rightarrow> bool" where
  "idx ni i \<longleftrightarrow> 0 \<le> i \<and> ib2sect i \<le> ni"

definition first_block :: "int list \<Rightarrow> int" where
  "first_block is = (if is = [] then LF_INULL else hd is)"

text \<open>What index block number \<open>j\<close> of a file holds.\<close>

definition ib_spec :: "int list \<Rightarrow> int list \<Rightarrow> nat \<Rightarrow> lfiblk" where
  "ib_spec is bs j = \<lparr>ib_next = (if j + 1 < length is then is ! (j + 1) else LF_INULL),
     ib_offset = word_of_nat (8192 * j),
     ib_dba = map (\<lambda>e. if 16 * j + e < length bs then bs ! (16 * j + e) else LF_DNULL) [0..<LF_IBLEN]\<rparr>"

text \<open>Where the position is: in the data block in memory, or to be set up.\<close>

definition at_pos :: "lflcblk \<Rightarrow> int list \<Rightarrow> bool" where
  "at_pos c bs \<longleftrightarrow> lfbyte c = BLKSIZ \<or>
     (lfbyte c = unat (lfpos c) mod 512 \<and> unat (lfpos c) div 512 < length bs \<and> lfdnum c = bs ! (unat (lfpos c) div 512))"

text \<open>The parts of the state that the operations below the semaphores may change.\<close>

definition lfs_frame :: "int \<Rightarrow> ('d, 'a) fss \<Rightarrow> ('d, 'a) fss \<Rightarrow> bool" where
  "lfs_frame m s s' \<longleftrightarrow>
     s' = s\<lparr>Lf_data := Lf_data s', lfltab := (lfltab s)(m := lfltab s' m), disk := disk s'\<rparr> \<and>
     lf_mutex (Lf_data s') = lf_mutex (Lf_data s) \<and> lf_dskdev (Lf_data s') = lf_dskdev (Lf_data s) \<and>
     lfmutex (lfltab s' m) = lfmutex (lfltab s m)"

lemma lfs_frame_refl [simp]: "lfs_frame m s s"
  by (simp add: lfs_frame_def)

lemma lfs_frame_trans:
  assumes "lfs_frame m s s'" "lfs_frame m s' s''"
  shows "lfs_frame m s s''"
proof -
  have 1: "s' = s\<lparr>Lf_data := Lf_data s', lfltab := (lfltab s)(m := lfltab s' m), disk := disk s'\<rparr>"
    and 2: "s'' = s'\<lparr>Lf_data := Lf_data s'', lfltab := (lfltab s')(m := lfltab s'' m), disk := disk s''\<rparr>"
    using assms by (simp_all add: lfs_frame_def)
  have t: "lfltab s' = (lfltab s)(m := lfltab s' m)" using arg_cong [OF 1, of lfltab] by simp
  have "s'' = s\<lparr>Lf_data := Lf_data s'', lfltab := (lfltab s)(m := lfltab s'' m), disk := disk s''\<rparr>"
    by (subst 2, subst 1, subst t) simp
  then show ?thesis using assms unfolding lfs_frame_def by simp
qed

lemma lfs_frame_fields:
  assumes "lfs_frame m s s'"
  shows "semtab s' = semtab s" "currpid s' = currpid s" "mem s' = mem s" "kinv s' = kinv s"
    "n \<noteq> m \<Longrightarrow> lfltab s' n = lfltab s n"
proof -
  have e: "s' = s\<lparr>Lf_data := Lf_data s', lfltab := (lfltab s)(m := lfltab s' m), disk := disk s'\<rparr>"
    using assms by (simp add: lfs_frame_def)
  show "semtab s' = semtab s" "currpid s' = currpid s" "mem s' = mem s" "n \<noteq> m \<Longrightarrow> lfltab s' n = lfltab s n"
    by (subst e, simp)+
  show "kinv s' = kinv s" by (subst e, rule kinv_same_tables) simp_all
qed

lemma upd_fs [simp]:
  "lf_dir (Lf_data (upd_dir f s)) = f (lf_dir (Lf_data s))" "lf_dskdev (Lf_data (upd_dir f s)) = lf_dskdev (Lf_data s)"
  "lfltab (upd_dir f s) = lfltab s" "disk (upd_dir f s) = disk s" "lf_mutex (Lf_data (upd_dir f s)) = lf_mutex (Lf_data s)"
  "lf_dir (Lf_data (set_dirdirty b s)) = lf_dir (Lf_data s)" "lf_dskdev (Lf_data (set_dirdirty b s)) = lf_dskdev (Lf_data s)"
  "lfltab (set_dirdirty b s) = lfltab s" "disk (set_dirdirty b s) = disk s"
  "lf_mutex (Lf_data (set_dirdirty b s)) = lf_mutex (Lf_data s)" "lf_dirdirty (Lf_data (set_dirdirty b s)) = b"
  "Lf_data (upd_lfl m g s) = Lf_data s" "disk (upd_lfl m g s) = disk s" "lfltab (upd_lfl m g s) m = g (lfltab s m)"
  "lfltab (upd_ent i h s) = lfltab s" "disk (upd_ent i h s) = disk s"
  "lf_dskdev (Lf_data (upd_ent i h s)) = lf_dskdev (Lf_data s)" "lf_mutex (Lf_data (upd_ent i h s)) = lf_mutex (Lf_data s)"
  "lf_dir (Lf_data (upd_ent i h s)) =
     (lf_dir (Lf_data s))\<lparr>lfd_files := (lfd_files (lf_dir (Lf_data s)))(i := h (dirent s i))\<rparr>"
  by (simp_all add: upd_dir_def set_dirdirty_def upd_lfl_def upd_ent_def)

lemma frame_upd:
  "lfs_frame m s (upd_dir f s)" "lfs_frame m s (set_dirdirty b s)" "lfs_frame m s (s\<lparr>disk := d\<rparr>)" "lfs_frame m s (upd_ent i h s)"
  "(\<And>c. lfmutex (g c) = lfmutex c) \<Longrightarrow> lfs_frame m s (upd_lfl m g s)"
  by (simp_all add: lfs_frame_def upd_dir_def set_dirdirty_def upd_lfl_def upd_ent_def)

context block_disk
begin

definition dat :: "int \<Rightarrow> int \<Rightarrow> bool" where
  "dat ni b \<longleftrightarrow> ni < b \<and> b < nb"

text \<open>The index block on disk, and the current contents of an index block and a data block.\<close>

definition ibd :: "'d \<Rightarrow> int \<Rightarrow> lfiblk" where
  "ibd d i = iblk_of (take 72 (drop (ib2disp i) (blk d (ib2sect i))))"

definition vib :: "lflcblk \<Rightarrow> 'd \<Rightarrow> int \<Rightarrow> lfiblk" where
  "vib c d i = (if i = lfinum c then lfiblock c else ibd d i)"

definition vdb :: "lflcblk \<Rightarrow> 'd \<Rightarrow> int \<Rightarrow> u8 list" where
  "vdb c d b = (if b = lfdnum c then lfdblock c else blk d b)"

fun ilist :: "'d \<Rightarrow> int \<Rightarrow> int list \<Rightarrow> bool" where
  "ilist d p [] \<longleftrightarrow> p = LF_INULL"
| "ilist d p (i # is) \<longleftrightarrow> p = i \<and> ilist d (ib_next (ibd d i)) is"

definition blocks_ok :: "int \<Rightarrow> lfdir \<Rightarrow> 'd \<Rightarrow> int list \<Rightarrow> int list \<Rightarrow> int list \<Rightarrow> int list \<Rightarrow> bool" where
  "blocks_ok ni dir d is bs fi fd \<longleftrightarrow>
     0 < ni \<and> ni < nb \<and> int32_ok (7 * nb) \<and>
     distinct (is @ fi) \<and> (\<forall>i \<in> set (is @ fi). idx ni i) \<and> distinct (bs @ fd) \<and> (\<forall>b \<in> set (bs @ fd). dat ni b) \<and>
     ilist d (lfd_ifree dir) fi \<and> dchain d (lfd_dfree dir) fd"

definition index_ok :: "lfdir \<Rightarrow> lflcblk \<Rightarrow> 'd \<Rightarrow> int list \<Rightarrow> int list \<Rightarrow> u8 list \<Rightarrow> bool" where
  "index_ok dir c d is bs xs \<longleftrightarrow>
     ld_ilist (lfd_files dir (lfdirptr c)) = first_block is \<and>
     (\<forall>j < length is. vib c d (is ! j) = ib_spec is bs j) \<and>
     length bs \<le> 16 * length is \<and> length is \<le> length xs div 8192 + 1"

definition data_ok :: "lfdir \<Rightarrow> lflcblk \<Rightarrow> 'd \<Rightarrow> int list \<Rightarrow> u8 list \<Rightarrow> bool" where
  "data_ok dir c d bs xs \<longleftrightarrow>
     unat (ld_size (lfd_files dir (lfdirptr c))) = length xs \<and> length xs \<le> 512 * length bs \<and>
     (\<forall>p < length xs. vdb c d (bs ! (p div 512)) ! (p mod 512) = xs ! p)"

definition cache_ok :: "lflcblk \<Rightarrow> 'd \<Rightarrow> int list \<Rightarrow> int list \<Rightarrow> bool" where
  "cache_ok c d is bs \<longleftrightarrow> lfstate c = LF_USED \<and>
     (lfinum c = LF_INULL \<and> \<not> lfibdirty c \<or> lfinum c \<in> set is \<and> (lfibdirty c \<or> ibd d (lfinum c) = lfiblock c)) \<and>
     (lfdnum c = LF_DNULL \<and> \<not> lfdbdirty c \<or> lfdnum c \<in> set bs) \<and> length (lfdblock c) = 512"

definition file_ok :: "int \<Rightarrow> lfdir \<Rightarrow> lflcblk \<Rightarrow> 'd \<Rightarrow> int list \<Rightarrow> int list \<Rightarrow> int list \<Rightarrow> int list \<Rightarrow> u8 list \<Rightarrow> bool" where
  "file_ok ni dir c d is bs fi fd xs \<longleftrightarrow>
     blocks_ok ni dir d is bs fi fd \<and> index_ok dir c d is bs xs \<and> data_ok dir c d bs xs \<and> cache_ok c d is bs"

text \<open>The data block in memory is on disk unless it is marked as changed.\<close>

definition dsync :: "lflcblk \<Rightarrow> 'd \<Rightarrow> bool" where
  "dsync c d \<longleftrightarrow> lfdbdirty c \<or> lfdnum c = LF_DNULL \<or> blk d (lfdnum c) = lfdblock c"

definition clean :: "lflcblk \<Rightarrow> bool" where
  "clean c \<longleftrightarrow> \<not> lfibdirty c \<and> \<not> lfdbdirty c"

section \<open>Frames\<close>

text \<open>Two disks with the same index blocks and data blocks.\<close>

definition same_on :: "int \<Rightarrow> 'd \<Rightarrow> 'd \<Rightarrow> bool" where
  "same_on ni d d' \<longleftrightarrow> (\<forall>i. idx ni i \<longrightarrow> ibd d' i = ibd d i) \<and> (\<forall>b. dat ni b \<longrightarrow> blk d' b = blk d b)"

lemma ilist_cong: "(\<And>i. i \<in> set is \<Longrightarrow> ibd d' i = ibd d i) \<Longrightarrow> ilist d' p is = ilist d p is"
  by (induction "is" arbitrary: p) auto

lemma idx_inum_ok: "idx ni i \<Longrightarrow> ni < nb \<Longrightarrow> inum_ok i"
  by (simp add: idx_def inum_ok_def)

lemma lfibget_ibd: "idx ni i \<Longrightarrow> ni < nb \<Longrightarrow> lfibget dk dev i s = ibd (disk s) i"
  using lfibget_blk [OF idx_inum_ok] by (simp add: ibd_def)

lemma idx_sect: "idx ni i \<Longrightarrow> 0 < ib2sect i \<and> ib2sect i \<le> ni"
  by (simp add: idx_def ib2sect_def pos_imp_zdiv_nonneg_iff)

lemma idx_not_null: "idx ni i \<Longrightarrow> i \<noteq> -1"
  by (simp add: idx_def)

lemma file_ok_same:
  assumes "file_ok ni dir c d is bs fi fd xs" "same_on ni d d'"
  shows "file_ok ni dir c d' is bs fi fd xs"
proof -
  note F = assms(1)[unfolded file_ok_def blocks_ok_def index_ok_def data_ok_def cache_ok_def]
  have i: "ibd d' i = ibd d i" if "i \<in> set (is @ fi)" for i using F assms(2) that by (auto simp: same_on_def)
  have b: "blk d' b = blk d b" if "b \<in> set (bs @ fd)" for b using F assms(2) that by (auto simp: same_on_def)
  have "ilist d' (lfd_ifree dir) fi" using F ilist_cong [of fi d' d] i by simp
  moreover have "dchain d' (lfd_dfree dir) fd" using F dchain_cong [of fd d' d] b by simp
  moreover have "vib c d' (is ! j) = vib c d (is ! j)" if "j < length is" for j
    using i [of "is ! j"] that by (simp add: vib_def)
  moreover have "vdb c d' (bs ! (p div 512)) = vdb c d (bs ! (p div 512))" if "p < length xs" for p
  proof -
    have "p div 512 < length bs" using that F by (auto simp: div_less_iff_less_mult mult.commute)
    then show ?thesis using b [of "bs ! (p div 512)"] by (simp add: vdb_def)
  qed
  moreover have "lfinum c \<in> set is \<Longrightarrow> ibd d' (lfinum c) = ibd d (lfinum c)" using i by simp
  ultimately show ?thesis
    using F unfolding file_ok_def blocks_ok_def index_ok_def data_ok_def cache_ok_def by auto
qed

lemma write_dir_same:
  assumes "lf_dskdev (Lf_data s) = dev" "0 < ni" "ni < nb"
  obtains d' where "write_dir dk s = s\<lparr>disk := d'\<rparr>" "same_on ni (disk s) d'"
proof -
  have r: "(0::int) \<le> 0" "0 < nb" using assms by simp_all
  obtain d' where d': "dk_write dk dev (dir_bytes (lf_dir (Lf_data s))) 0 (disk s) = (OK, d')"
    "\<And>b'. 0 \<le> b' \<Longrightarrow> b' < nb \<Longrightarrow> b' \<noteq> 0 \<Longrightarrow> blk d' b' = blk (disk s) b'"
    using write_frame [OF r length_dir_bytes] by metis
  have "same_on ni (disk s) d'"
    unfolding same_on_def
  proof (intro conjI allI impI)
    fix i assume "idx ni i"
    then show "ibd d' i = ibd (disk s) i" using idx_sect [of ni i] d'(2) [of "ib2sect i"] assms by (simp add: ibd_def)
  next
    fix b assume "dat ni b"
    then show "blk d' b = blk (disk s) b" using d'(2) [of b] assms by (simp add: dat_def)
  qed
  with d'(1) assms(1) show ?thesis by (intro that [of d']) (simp_all add: write_dir_def)
qed

end

section \<open>Flushing\<close>

context block_disk
begin

lemma write_data:
  assumes "dat ni b" "0 < ni" "length buff = 512"
  obtains d' where "dk_write dk dev buff b d = (OK, d')" "blk d' b = buff"
    "\<And>b'. dat ni b' \<Longrightarrow> b' \<noteq> b \<Longrightarrow> blk d' b' = blk d b'" "\<And>i. idx ni i \<Longrightarrow> ibd d' i = ibd d i"
proof -
  have r: "0 \<le> b" "b < nb" "ni < b" using assms(1,2) by (simp_all add: dat_def)
  obtain d' where d': "dk_write dk dev buff b d = (OK, d')" "blk d' b = buff"
    "\<And>b'. 0 \<le> b' \<Longrightarrow> b' < nb \<Longrightarrow> b' \<noteq> b \<Longrightarrow> blk d' b' = blk d b'"
    using write_frame [OF r(1,2) assms(3)] by metis
  show ?thesis
  proof (rule that [OF d'(1,2)])
    show "blk d' b' = blk d b'" if "dat ni b'" "b' \<noteq> b" for b' using d'(3) [of b'] that assms(2) by (simp add: dat_def)
    show "ibd d' i = ibd d i" if "idx ni i" for i
      using d'(3) [of "ib2sect i"] idx_sect [OF that] r by (simp add: ibd_def)
  qed
qed

lemma put_index:
  assumes "idx ni i" "ni < nb" "iblk_ok ib"
  obtains d' where "lfibput dk dev i ib s = (OK, s\<lparr>disk := d'\<rparr>)" "ibd d' i = ib"
    "\<And>j. idx ni j \<Longrightarrow> j \<noteq> i \<Longrightarrow> ibd d' j = ibd (disk s) j" "\<And>b. dat ni b \<Longrightarrow> blk d' b = blk (disk s) b"
proof -
  obtain d' where d': "lfibput dk dev i ib s = (OK, s\<lparr>disk := d'\<rparr>)"
    "\<And>j. inum_ok j \<Longrightarrow> lfibget dk dev j (s\<lparr>disk := d'\<rparr>) = (if j = i then ib else lfibget dk dev j s)"
    "\<And>b. 0 \<le> b \<Longrightarrow> b < nb \<Longrightarrow> b \<noteq> ib2sect i \<Longrightarrow> blk d' b = blk (disk s) b"
    using lfibput_frame [OF idx_inum_ok [OF assms(1,2)] assms(3)] by metis
  have g: "ibd d' j = (if j = i then ib else ibd (disk s) j)" if "idx ni j" for j
    using d'(2) [OF idx_inum_ok [OF that assms(2)]] lfibget_ibd [OF that assms(2), of s]
      lfibget_ibd [OF that assms(2), of "s\<lparr>disk := d'\<rparr>"] by simp
  show ?thesis
  proof (rule that [OF d'(1)])
    show "ibd d' i = ib" using g [OF assms(1)] by simp
    show "ibd d' j = ibd (disk s) j" if "idx ni j" "j \<noteq> i" for j using g [OF that(1)] that(2) by simp
    show "blk d' b = blk (disk s) b" if "dat ni b" for b
      using d'(3) [of b] that idx_sect [OF assms(1)] by (simp add: dat_def)
  qed
qed

lemma blocks_int32:
  assumes "blocks_ok ni dir d is bs fi fd"
  shows "i \<in> set (is @ fi) \<Longrightarrow> int32_ok i" "b \<in> set (bs @ fd) \<Longrightarrow> int32_ok b"
proof -
  have n: "0 < ni" "ni < nb" "7 * nb < 2147483648" using assms by (simp_all add: blocks_ok_def int32_ok_def)
  show "int32_ok i" if "i \<in> set (is @ fi)"
  proof -
    have "0 \<le> i" "i div 7 + 1 \<le> ni" using assms that by (auto simp: blocks_ok_def idx_def ib2sect_def)
    then have "i < 7 * nb" using n(2) by linarith
    with n(3) \<open>0 \<le> i\<close> show ?thesis by (simp add: int32_ok_def)
  qed
  show "int32_ok b" if "b \<in> set (bs @ fd)"
  proof -
    have "ni < b" "b < nb" using assms that by (auto simp: blocks_ok_def dat_def)
    with n show ?thesis by (simp add: int32_ok_def)
  qed
qed

lemma ib_spec_ok:
  assumes "blocks_ok ni dir d is bs fi fd"
  shows "iblk_ok (ib_spec is bs j)"
proof -
  have "int32_ok (is ! (j + 1))" if "j + 1 < length is"
    using blocks_int32(1) [OF assms, of "is ! (j + 1)"] that by simp
  moreover have "int32_ok (bs ! k)" if "k < length bs" for k
    using blocks_int32(2) [OF assms, of "bs ! k"] that by simp
  moreover have "int32_ok (-1)" by (simp add: int32_ok_def)
  ultimately show ?thesis by (auto simp: iblk_ok_def ib_spec_def)
qed

abbreviation fok :: "int \<Rightarrow> int \<Rightarrow> ('d, 'a) fss \<Rightarrow> int list \<Rightarrow> int list \<Rightarrow> int list \<Rightarrow> int list \<Rightarrow> u8 list \<Rightarrow> bool" where
  "fok ni m s is bs fi fd xs \<equiv> file_ok ni (lf_dir (Lf_data s)) (lfltab s m) (disk s) is bs fi fd xs \<and>
     lf_dskdev (Lf_data s) = dev"

lemmas file_ok_unfold = file_ok_def blocks_ok_def index_ok_def data_ok_def cache_ok_def

lemma cached_index:
  assumes "file_ok ni dir c d is bs fi fd xs" "lfinum c \<noteq> LF_INULL"
  obtains j where "j < length is" "lfinum c = is ! j" "lfiblock c = ib_spec is bs j"
proof -
  have "lfinum c \<in> set is" using assms by (auto simp: file_ok_def cache_ok_def)
  then obtain j where j: "j < length is" "lfinum c = is ! j" by (metis in_set_conv_nth)
  moreover have "vib c d (is ! j) = ib_spec is bs j" using assms(1) j(1) by (simp add: file_ok_def index_ok_def)
  ultimately show ?thesis using that [of j] by (simp add: vib_def)
qed

lemma flush_dir_ok:
  assumes "fok ni m s is bs fi fd xs" "dsync (lfltab s m) (disk s)"
  obtains s' where "flush_dir dk s = s'" "lfs_frame m s s'" "fok ni m s' is bs fi fd xs"
    "lfltab s' = lfltab s" "dsync (lfltab s' m) (disk s')" "lf_dir (Lf_data s') = lf_dir (Lf_data s)"
proof (cases "lf_dirdirty (Lf_data s)")
  case True
  have n: "0 < ni" "ni < nb" using assms(1) by (simp_all add: file_ok_unfold)
  obtain d' where d': "write_dir dk s = s\<lparr>disk := d'\<rparr>" "same_on ni (disk s) d'"
    using write_dir_same [of s ni] assms(1) n by blast
  have "lfdnum (lfltab s m) \<noteq> -1 \<Longrightarrow> dat ni (lfdnum (lfltab s m))" using assms(1) by (auto simp: file_ok_unfold)
  then have "dsync (lfltab s m) d'" using assms(2) d'(2) unfolding dsync_def same_on_def by metis
  moreover have "lfs_frame m s (set_dirdirty False (s\<lparr>disk := d'\<rparr>))"
    by (rule lfs_frame_trans [OF frame_upd(3,2)])
  ultimately show ?thesis
    using True d' file_ok_same [OF _ d'(2)] assms(1)
    by (intro that [of "set_dirdirty False (s\<lparr>disk := d'\<rparr>)"]) (simp_all add: flush_dir_def)
next
  case False
  then show ?thesis using assms by (intro that [of s]) (simp_all add: flush_dir_def)
qed

lemma flush_data_ok:
  assumes F: "fok ni m s is bs fi fd xs" and y: "dsync (lfltab s m) (disk s)"
  obtains s' where "flush_data dk m s = s'" "lfs_frame m s s'" "fok ni m s' is bs fi fd xs"
    "lfltab s' m = (lfltab s m)\<lparr>lfdbdirty := False\<rparr>" "dsync (lfltab s' m) (disk s')" "lf_dir (Lf_data s') = lf_dir (Lf_data s)"
proof (cases "lfdbdirty (lfltab s m)")
  case True
  let ?c = "lfltab s m"
  have n: "0 < ni" "lfdnum ?c \<in> set bs" "dat ni (lfdnum ?c)" "length (lfdblock ?c) = 512"
    using F True by (auto simp: file_ok_unfold)
  obtain d' where d': "dk_write dk dev (lfdblock ?c) (lfdnum ?c) (disk s) = (OK, d')" "blk d' (lfdnum ?c) = lfdblock ?c"
    "\<And>b'. dat ni b' \<Longrightarrow> b' \<noteq> lfdnum ?c \<Longrightarrow> blk d' b' = blk (disk s) b'" "\<And>i. idx ni i \<Longrightarrow> ibd d' i = ibd (disk s) i"
    using write_data [OF n(3,1,4)] by metis
  let ?s = "upd_lfl m (\<lambda>c. c\<lparr>lfdbdirty := False\<rparr>) (s\<lparr>disk := d'\<rparr>)"
  note U = F[THEN conjunct1, unfolded file_ok_unfold]
  have i: "ibd d' i = ibd (disk s) i" if "i \<in> set (is @ fi)" for i using U that d'(4) by simp
  have b: "vdb (?c\<lparr>lfdbdirty := False\<rparr>) d' b = vdb ?c (disk s) b" if "b \<in> set bs" for b
    using U that d'(2,3) by (simp add: vdb_def)
  have "blk d' b = blk (disk s) b" if "b \<in> set fd" for b
  proof -
    have "b \<noteq> lfdnum ?c" "dat ni b" using U n(2) that by auto
    then show ?thesis using d'(3) by simp
  qed
  then have "dchain d' (lfd_dfree (lf_dir (Lf_data s))) fd" using U dchain_cong [of fd d' "disk s"] by simp
  moreover have "ilist d' (lfd_ifree (lf_dir (Lf_data s))) fi" using U ilist_cong [of fi d' "disk s"] i by simp
  moreover have "vib (?c\<lparr>lfdbdirty := False\<rparr>) d' (is ! j) = vib ?c (disk s) (is ! j)" if "j < length is" for j
    using i [of "is ! j"] that by (simp add: vib_def)
  moreover have "vdb (?c\<lparr>lfdbdirty := False\<rparr>) d' (bs ! (p div 512)) = vdb ?c (disk s) (bs ! (p div 512))" if "p < length xs" for p
  proof -
    have "p div 512 < length bs" using that U by (auto simp: div_less_iff_less_mult mult.commute)
    then show ?thesis using b by simp
  qed
  ultimately have "file_ok ni (lf_dir (Lf_data s)) (?c\<lparr>lfdbdirty := False\<rparr>) d' is bs fi fd xs"
    using U n(2) i unfolding file_ok_unfold by auto
  moreover have "lfs_frame m s ?s" by (rule lfs_frame_trans [OF frame_upd(3) frame_upd(5)]) simp
  ultimately show ?thesis
    using True d'(1,2) F by (intro that [of ?s]) (simp_all add: flush_data_def dsync_def)
next
  case False
  then show ?thesis using assms by (intro that [of s]) (simp_all add: flush_data_def)
qed

lemma flush_index_ok:
  assumes F: "fok ni m s is bs fi fd xs" and y: "dsync (lfltab s m) (disk s)"
  obtains s' where "flush_index dk m s = s'" "lfs_frame m s s'" "fok ni m s' is bs fi fd xs"
    "lfltab s' m = (lfltab s m)\<lparr>lfibdirty := False\<rparr>" "dsync (lfltab s' m) (disk s')" "lf_dir (Lf_data s') = lf_dir (Lf_data s)"
proof (cases "lfibdirty (lfltab s m)")
  case True
  let ?c = "lfltab s m"
  have n: "0 < ni" "ni < nb" "lfinum ?c \<in> set is" "idx ni (lfinum ?c)" using F True by (auto simp: file_ok_unfold)
  obtain j where j: "j < length is" "lfinum ?c = is ! j" "lfiblock ?c = ib_spec is bs j"
    using cached_index F idx_not_null [OF n(4)] by blast
  have "iblk_ok (lfiblock ?c)" using F j(3) ib_spec_ok unfolding file_ok_def by metis
  from put_index [OF n(4,2) this] obtain d' where d': "lfibput dk dev (lfinum ?c) (lfiblock ?c) s = (OK, s\<lparr>disk := d'\<rparr>)"
    "ibd d' (lfinum ?c) = lfiblock ?c" "\<And>j. idx ni j \<Longrightarrow> j \<noteq> lfinum ?c \<Longrightarrow> ibd d' j = ibd (disk s) j"
    "\<And>b. dat ni b \<Longrightarrow> blk d' b = blk (disk s) b" by metis
  let ?s = "upd_lfl m (\<lambda>c. c\<lparr>lfibdirty := False\<rparr>) (s\<lparr>disk := d'\<rparr>)"
  note U = F[THEN conjunct1, unfolded file_ok_unfold]
  have i: "ibd d' i = ibd (disk s) i" if "i \<in> set fi" for i
  proof -
    have "i \<noteq> lfinum ?c" "idx ni i" using U n(3) that by auto
    then show ?thesis using d'(3) by simp
  qed
  have b: "blk d' b = blk (disk s) b" if "b \<in> set (bs @ fd)" for b using U that d'(4) by simp
  then have "dchain d' (lfd_dfree (lf_dir (Lf_data s))) fd" using U dchain_cong [of fd d' "disk s"] by simp
  moreover have "ilist d' (lfd_ifree (lf_dir (Lf_data s))) fi" using U ilist_cong [of fi d' "disk s"] i by simp
  moreover have "vib (?c\<lparr>lfibdirty := False\<rparr>) d' (is ! j) = vib ?c (disk s) (is ! j)" if "j < length is" for j
  proof -
    have "idx ni (is ! j)" using U that by simp
    then show ?thesis using d'(3) by (simp add: vib_def)
  qed
  moreover have "vdb (?c\<lparr>lfibdirty := False\<rparr>) d' (bs ! (p div 512)) = vdb ?c (disk s) (bs ! (p div 512))" if "p < length xs" for p
  proof -
    have "p div 512 < length bs" using that U by (auto simp: div_less_iff_less_mult mult.commute)
    then show ?thesis using b [of "bs ! (p div 512)"] by (simp add: vdb_def)
  qed
  ultimately have "file_ok ni (lf_dir (Lf_data s)) (?c\<lparr>lfibdirty := False\<rparr>) d' is bs fi fd xs"
    using U n(3) d'(2) unfolding file_ok_unfold by auto
  moreover have "lfs_frame m s ?s" by (rule lfs_frame_trans [OF frame_upd(3) frame_upd(5)]) simp
  moreover have "dsync (?c\<lparr>lfibdirty := False\<rparr>) d'"
    using y b [of "lfdnum ?c"] U by (auto simp: dsync_def)
  ultimately show ?thesis
    using True d'(1) F by (intro that [of ?s]) (simp_all add: flush_index_def)
next
  case False
  then show ?thesis using assms by (intro that [of s]) (simp_all add: flush_index_def)
qed

lemma lfflush_ok:
  assumes F: "fok ni m s is bs fi fd xs" and y: "dsync (lfltab s m) (disk s)"
  obtains s' where "lfflush dk m s = (OK, s')" "lfs_frame m s s'" "fok ni m s' is bs fi fd xs"
    "lfltab s' m = (lfltab s m)\<lparr>lfibdirty := False, lfdbdirty := False\<rparr>" "dsync (lfltab s' m) (disk s')"
    "lf_dir (Lf_data s') = lf_dir (Lf_data s)"
proof -
  obtain s1 where 1: "flush_dir dk s = s1" "lfs_frame m s s1" "fok ni m s1 is bs fi fd xs"
    "lfltab s1 = lfltab s" "dsync (lfltab s1 m) (disk s1)" "lf_dir (Lf_data s1) = lf_dir (Lf_data s)"
    using flush_dir_ok [OF F y] by blast
  obtain s2 where 2: "flush_data dk m s1 = s2" "lfs_frame m s1 s2" "fok ni m s2 is bs fi fd xs"
    "lfltab s2 m = (lfltab s1 m)\<lparr>lfdbdirty := False\<rparr>" "dsync (lfltab s2 m) (disk s2)" "lf_dir (Lf_data s2) = lf_dir (Lf_data s1)"
    using flush_data_ok [OF 1(3,5)] by blast
  obtain s3 where 3: "flush_index dk m s2 = s3" "lfs_frame m s2 s3" "fok ni m s3 is bs fi fd xs"
    "lfltab s3 m = (lfltab s2 m)\<lparr>lfibdirty := False\<rparr>" "dsync (lfltab s3 m) (disk s3)" "lf_dir (Lf_data s3) = lf_dir (Lf_data s2)"
    using flush_index_ok [OF 2(3,5)] by blast
  have "lfstate (lfltab s m) = LF_USED" using F by (simp add: file_ok_unfold)
  then show ?thesis
    using 1 2 3 lfs_frame_trans [OF 1(2) lfs_frame_trans [OF 2(2) 3(2)]]
    by (intro that [of s3]) (simp_all add: lfflush_def)
qed

end

section \<open>Taking free blocks\<close>

lemma unat_block_start: "unat (p AND NOT 0x1fff :: u32) = unat p div 8192 * 8192"
proof -
  have "p AND NOT 0x1fff = p AND NOT (mask 13)" by (simp add: mask_eq_exp_minus_1)
  also have "\<dots> = push_bit 13 (drop_bit 13 p)" by (rule bit_word_eqI) (auto simp: bit_simps)
  finally have e: "p AND NOT 0x1fff = push_bit 13 (drop_bit 13 p)" .
  have d: "unat (drop_bit 13 p) = unat p div 8192" by (simp add: drop_bit_eq_div unat_div)
  have "unat p div 8192 * 8192 < 2 ^ 32" using unat_lt_2p32 [of p] div_times_less_eq_dividend [of "unat p" 8192] by simp
  then show ?thesis unfolding e by (simp add: push_bit_eq_mult unat_word_ariths d mult.commute)
qed

lemma unat_block_offset:
  "unat (drop_bit 9 (p AND 0x1fff :: u32)) = unat p mod 8192 div 512" "unat (p AND 0x1ff :: u32) = unat p mod 512"
proof -
  have "p AND 0x1fff = take_bit 13 p" "p AND 0x1ff = take_bit 9 p"
    by (simp_all add: take_bit_eq_mask mask_eq_exp_minus_1)
  then show "unat (drop_bit 9 (p AND 0x1fff)) = unat p mod 8192 div 512" "unat (p AND 0x1ff) = unat p mod 512"
    by (simp_all add: drop_bit_eq_div unat_div take_bit_eq_mod unat_mod)
qed

lemma block_split: "16 * (p div 8192) + p mod 8192 div 512 = p div (512::nat)"
proof -
  have "p mod 8192 + 512 * (16 * (p div 8192)) = p" using mod_mult_div_eq [of p 8192] by linarith
  moreover have "(p mod 8192 + 512 * (16 * (p div 8192))) div 512 = 16 * (p div 8192) + p mod 8192 div 512"
    by (rule div_mult_self2) simp
  ultimately show ?thesis by simp
qed

context block_disk
begin

lemma file_ok_dir:
  assumes "file_ok ni dir c d is bs fi fd xs" "lfd_files dir' = lfd_files dir"
    "distinct (is @ fi')" "\<forall>i \<in> set (is @ fi'). idx ni i" "distinct (bs @ fd')" "\<forall>b \<in> set (bs @ fd'). dat ni b"
    "ilist d (lfd_ifree dir') fi'" "dchain d (lfd_dfree dir') fd'"
  shows "file_ok ni dir' c d is bs fi' fd' xs"
  using assms unfolding file_ok_unfold by auto

lemma lfiballoc_ok:
  assumes F: "fok ni m s is bs (i # fi) fd xs" and y: "dsync (lfltab s m) (disk s)"
  obtains s' where "lfiballoc dk s = (Ret i, s')" "lfs_frame m s s'" "fok ni m s' is bs fi fd xs"
    "lfltab s' = lfltab s" "dsync (lfltab s' m) (disk s')" "lfd_files (lf_dir (Lf_data s')) = lfd_files (lf_dir (Lf_data s))"
proof -
  note U = F[THEN conjunct1, unfolded file_ok_unfold]
  have n: "0 < ni" "ni < nb" "idx ni i" "lfd_ifree (lf_dir (Lf_data s)) = i" "lf_dskdev (Lf_data s) = dev" using F U by auto
  let ?s1 = "upd_dir (\<lambda>d. d\<lparr>lfd_ifree := ib_next (ibd (disk s) i)\<rparr>) s"
  have F1: "fok ni m ?s1 is bs fi fd xs"
    using file_ok_dir [OF F[THEN conjunct1], of "lf_dir (Lf_data ?s1)" fi fd] U F by simp
  obtain d' where d': "write_dir dk ?s1 = ?s1\<lparr>disk := d'\<rparr>" "same_on ni (disk ?s1) d'"
    using write_dir_same [of ?s1 ni] n by auto
  let ?s2 = "set_dirdirty False (?s1\<lparr>disk := d'\<rparr>)"
  have "lfiballoc dk s = (Ret i, ?s2)"
    using n idx_not_null [OF n(3)] lfibget_ibd [OF n(3,2), of s] d'(1) by (simp add: lfiballoc_def Let_def)
  moreover have "lfs_frame m s ?s2"
    by (rule lfs_frame_trans [OF frame_upd(1) lfs_frame_trans [OF frame_upd(3,2)]])
  moreover have "fok ni m ?s2 is bs fi fd xs" using F1 file_ok_same [OF _ d'(2)] by simp
  moreover have "dsync (lfltab s m) d'"
  proof -
    have "lfdnum (lfltab s m) \<noteq> -1 \<Longrightarrow> dat ni (lfdnum (lfltab s m))" using U by auto
    then show ?thesis using y d'(2) unfolding dsync_def same_on_def by simp metis
  qed
  ultimately show ?thesis by (intro that [of ?s2]) simp_all
qed

lemma lfdballoc_ok:
  assumes F: "fok ni m s is bs fi (b # fd) xs" and y: "dsync (lfltab s m) (disk s)"
  obtains s' where "lfdballoc dk buf s = (Ret b, replicate 512 43, s')" "lfs_frame m s s'" "fok ni m s' is bs fi fd xs"
    "lfltab s' = lfltab s" "dsync (lfltab s' m) (disk s')" "lfd_files (lf_dir (Lf_data s')) = lfd_files (lf_dir (Lf_data s))"
proof -
  note U = F[THEN conjunct1, unfolded file_ok_unfold]
  have n: "0 < ni" "ni < nb" "0 \<le> b" "b < nb" "lfd_dfree (lf_dir (Lf_data s)) = b" "lf_dskdev (Lf_data s) = dev"
    using F U by (auto simp: dat_def)
  let ?s1 = "upd_dir (\<lambda>d. d\<lparr>lfd_dfree := sint (get32 (blk (disk s) b) 0)\<rparr>) s"
  have F1: "fok ni m ?s1 is bs fi fd xs"
    using file_ok_dir [OF F[THEN conjunct1], of "lf_dir (Lf_data ?s1)" fi fd] U F by simp
  obtain d' where d': "write_dir dk ?s1 = ?s1\<lparr>disk := d'\<rparr>" "same_on ni (disk ?s1) d'"
    using write_dir_same [of ?s1 ni] n by auto
  let ?s2 = "set_dirdirty False (?s1\<lparr>disk := d'\<rparr>)"
  have "lfdballoc dk buf s = (Ret b, replicate 512 43, ?s2)"
    using n read_blk [OF n(3,4)] d'(1) by (simp add: lfdballoc_def Let_def)
  moreover have "lfs_frame m s ?s2"
    by (rule lfs_frame_trans [OF frame_upd(1) lfs_frame_trans [OF frame_upd(3,2)]])
  moreover have "fok ni m ?s2 is bs fi fd xs" using F1 file_ok_same [OF _ d'(2)] by simp
  moreover have "dsync (lfltab s m) d'"
  proof -
    have "lfdnum (lfltab s m) \<noteq> -1 \<Longrightarrow> dat ni (lfdnum (lfltab s m))" using U by auto
    then show ?thesis using y d'(2) unfolding dsync_def same_on_def by simp metis
  qed
  ultimately show ?thesis by (intro that [of ?s2]) simp_all
qed

section \<open>Changing the blocks in memory\<close>

lemma clean_vib: "cache_ok c d is bs \<Longrightarrow> \<not> lfibdirty c \<Longrightarrow> i \<noteq> -1 \<Longrightarrow> vib c d i = ibd d i"
  by (auto simp: cache_ok_def vib_def)

lemma file_ok_load:
  assumes F: "file_ok ni dir c d is bs fi fd xs" and c: "\<not> lfibdirty c" and i: "i \<in> set is"
  shows "file_ok ni dir (c\<lparr>lfiblock := ibd d i, lfinum := i\<rparr>) d is bs fi fd xs"
proof -
  have "vib (c\<lparr>lfiblock := ibd d i, lfinum := i\<rparr>) d k = vib c d k" if "k \<in> set is" for k
  proof -
    have "idx ni k" using F that by (simp add: file_ok_unfold)
    then show ?thesis using clean_vib [OF _ c, of d "is" bs k] F idx_not_null by (auto simp: vib_def file_ok_def)
  qed
  moreover have "vdb (c\<lparr>lfiblock := ibd d i, lfinum := i\<rparr>) d b = vdb c d b" for b by (simp add: vdb_def)
  ultimately show ?thesis using F i c unfolding file_ok_unfold by simp
qed

lemma file_ok_drop:
  assumes F: "file_ok ni dir c d is bs fi fd xs" and c: "\<not> lfdbdirty c" and y: "dsync c d"
  shows "file_ok ni dir (c\<lparr>lfdnum := -1\<rparr>) d is bs fi fd xs"
proof -
  have "vdb (c\<lparr>lfdnum := -1\<rparr>) d b = vdb c d b" if "b \<in> set bs" for b
  proof -
    have "dat ni b" "0 < ni" using F that by (auto simp: file_ok_unfold)
    then have "b \<noteq> -1" by (auto simp: dat_def)
    then show ?thesis using y c by (auto simp: vdb_def dsync_def)
  qed
  moreover have "p div 512 < length bs" if "p < length xs" for p
    using F that by (auto simp: file_ok_unfold div_less_iff_less_mult mult.commute)
  moreover have "vib (c\<lparr>lfdnum := -1\<rparr>) d i = vib c d i" for i by (simp add: vib_def)
  ultimately show ?thesis using F c unfolding file_ok_unfold by simp
qed

lemma file_ok_first:
  assumes F: "file_ok ni dir c d [] bs fi fd xs" and i: "idx ni i" "i \<notin> set fi"
  shows "file_ok ni (dir\<lparr>lfd_files := (lfd_files dir)(lfdirptr c := (lfd_files dir (lfdirptr c))\<lparr>ld_ilist := i\<rparr>)\<rparr>)
    (c\<lparr>lfiblock := lfibclear 0, lfibdirty := True, lfinum := i\<rparr>) d [i] bs fi fd xs"
proof -
  have e: "bs = []" "xs = []" using F by (auto simp: file_ok_unfold)
  have "ib_spec [i] [] 0 = lfibclear 0" by (simp add: ib_spec_def lfibclear_def map_replicate_const)
  then show ?thesis using F i unfolding e file_ok_unfold by (simp add: vib_def first_block_def)
qed

lemma file_ok_extend:
  assumes F: "file_ok ni dir c d is bs fi fd xs" and c: "\<not> lfibdirty c" "\<not> lfdbdirty c" "dsync c d"
    and k: "length is = Suc k" "lfinum c = is ! k" and i: "idx ni i" "i \<notin> set is" "i \<notin> set fi"
    and d: "ibd d' (is ! k) = (ib_spec is bs k)\<lparr>ib_next := i\<rparr>" "\<And>j. idx ni j \<Longrightarrow> j \<noteq> is ! k \<Longrightarrow> ibd d' j = ibd d j"
      "\<And>b. dat ni b \<Longrightarrow> blk d' b = blk d b"
    and l: "8192 * Suc k \<le> length xs"
  shows "file_ok ni dir (c\<lparr>lfiblock := lfibclear (word_of_nat (8192 * Suc k)), lfinum := i, lfibdirty := True,
    lfdnum := -1\<rparr>) d' (is @ [i]) bs fi fd xs"
proof -
  note U = F[unfolded file_ok_unfold]
  let ?c = "c\<lparr>lfiblock := lfibclear (word_of_nat (8192 * Suc k)), lfinum := i, lfibdirty := True, lfdnum := -1\<rparr>"
  have lb: "length bs = 16 * Suc k" using U l k by auto
  have new: "ib_spec (is @ [i]) bs (Suc k) = lfibclear (word_of_nat (8192 * Suc k))"
    using k lb by (simp add: ib_spec_def lfibclear_def map_replicate_const)
  have v: "vib ?c d' ((is @ [i]) ! j) = ib_spec (is @ [i]) bs j" if j: "j < Suc (Suc k)" for j
  proof -
    consider "j = Suc k" | "j = k" | "j < k" using j by linarith
    then show ?thesis
    proof cases
      case 1
      then show ?thesis using k new by (simp add: vib_def nth_append)
    next
      case 2
      have "is ! k \<noteq> i" using i(2) k(1) nth_mem [of k "is"] by auto
      then show ?thesis using 2 k d(1) by (simp add: vib_def nth_append ib_spec_def)
    next
      case 3
      have m: "is ! j \<in> set is" using 3 k(1) by simp
      moreover have "distinct is" using U by simp
      ultimately have m: "is ! j \<in> set is" "is ! j \<noteq> is ! k" "is ! j \<noteq> i"
        using 3 k(1) i(2) nth_eq_iff_index_eq [of "is" j k] by auto
      have x: "idx ni (is ! j)" using U m(1) by simp
      have "vib ?c d' (is ! j) = ibd d (is ! j)" using m d(2) [OF x] by (simp add: vib_def)
      also have "\<dots> = ib_spec is bs j"
        using clean_vib [OF _ c(1) idx_not_null [OF x]] F 3 k(1) unfolding file_ok_def index_ok_def by (metis less_SucI)
      also have "\<dots> = ib_spec (is @ [i]) bs j" using 3 k(1) by (simp add: ib_spec_def nth_append)
      finally show ?thesis using 3 k(1) by (simp add: nth_append)
    qed
  qed
  have fi: "ilist d' (lfd_ifree dir) fi"
  proof -
    have "ibd d' j = ibd d j" if "j \<in> set fi" for j
    proof -
      have "is ! k \<in> set is" using k(1) by simp
      then have "j \<noteq> is ! k" "idx ni j" using U that by auto
      then show ?thesis using d(2) by simp
    qed
    then show ?thesis using U ilist_cong [of fi d' d] by simp
  qed
  have fd: "dchain d' (lfd_dfree dir) fd" using U dchain_cong [of fd d' d] d(3) by simp
  have b: "vdb ?c d' (bs ! (p div 512)) = vdb c d (bs ! (p div 512))" if "p < length xs" for p
  proof -
    have "p div 512 < length bs" using that U by (auto simp: div_less_iff_less_mult mult.commute)
    then have x: "dat ni (bs ! (p div 512))" using U by simp
    then have "bs ! (p div 512) \<noteq> -1" using U by (auto simp: dat_def)
    with x show ?thesis using c(2,3) d(3) by (auto simp: vdb_def dsync_def)
  qed
  have "first_block (is @ [i]) = first_block is" using k(1) by (auto simp: first_block_def)
  moreover have "Suc k \<le> length xs div 8192" using l by (simp add: less_eq_div_iff_mult_less_eq mult.commute)
  ultimately show ?thesis using U k i c v fi fd b lb unfolding file_ok_unfold by simp
qed

end

section \<open>Setting up the position\<close>

text \<open>What \<open>lfsetup\<close> leaves of a control block.\<close>

definition same_pos :: "lflcblk \<Rightarrow> lflcblk \<Rightarrow> bool" where
  "same_pos c c' \<longleftrightarrow> lfpos c' = lfpos c \<and> lfdirptr c' = lfdirptr c"

lemma same_pos_trans: "same_pos c c' \<Longrightarrow> same_pos c' c'' \<Longrightarrow> same_pos c c''"
  by (simp add: same_pos_def)

context block_disk
begin

text \<open>Index block \<open>j\<close> of the file is in memory, and it is not behind the position.\<close>

definition at_index :: "lflcblk \<Rightarrow> int list \<Rightarrow> nat \<Rightarrow> bool" where
  "at_index c is j \<longleftrightarrow> j < length is \<and> lfinum c = is ! j \<and> 8192 * j \<le> unat (lfpos c) \<and> \<not> lfdbdirty c \<and>
     (lfibdirty c \<longrightarrow> unat (lfpos c) div 8192 = j)"

lemma ib_offset_le:
  assumes F: "file_ok ni dir c d is bs fi fd xs" and j: "j < length is"
  shows "unat (word_of_nat (8192 * j) :: u32) = 8192 * j" "8192 * j \<le> length xs"
proof -
  have "length is \<le> length xs div 8192 + 1" "length xs = unat (ld_size (lfd_files dir (lfdirptr c)))"
    using F by (simp_all add: file_ok_unfold)
  then show l: "8192 * j \<le> length xs" using j div_times_less_eq_dividend [of "length xs" 8192] by linarith
  then have "8192 * j < 4294967296" using unat_lt_2p32 \<open>length xs = _\<close> by (metis le_less_trans)
  then show "unat (word_of_nat (8192 * j) :: u32) = 8192 * j" unfolding unat_of_nat by simp
qed

lemma lfsetup_first_ok:
  assumes F: "fok ni m s is bs fi fd xs" and y: "dsync (lfltab s m) (disk s)" and cl: "clean (lfltab s m)"
    and p: "unat (lfpos (lfltab s m)) \<le> length xs" and room: "is = [] \<Longrightarrow> fi \<noteq> []"
  obtains s' is' fi' j where "lfsetup_first dk m s = (Ret OK, s')" "lfs_frame m s s'" "fok ni m s' is' bs fi' fd xs"
    "dsync (lfltab s' m) (disk s')" "at_index (lfltab s' m) is' j" "same_pos (lfltab s m) (lfltab s' m)"
    "is' = is \<and> fi' = fi \<or> is = [] \<and> length is' = 1 \<and> length xs = 0"
proof -
  let ?c = "lfltab s m" and ?dir = "lf_dir (Lf_data s)"
  note U = F[THEN conjunct1, unfolded file_ok_unfold]
  have n: "0 < ni" "ni < nb" "lf_dskdev (Lf_data s) = dev" using F U by simp_all
  have cl': "\<not> lfibdirty ?c" "\<not> lfdbdirty ?c" using cl by (simp_all add: clean_def)
  note result = that
  have load: thesis if i: "is \<noteq> []" and e: "lfsetup_first dk m s = (Ret OK, upd_lfl m (\<lambda>c. c\<lparr>lfiblock := ibd (disk s) (hd is), lfinum := hd is\<rparr>) s)"
  proof (rule result [of "upd_lfl m (\<lambda>c. c\<lparr>lfiblock := ibd (disk s) (hd is), lfinum := hd is\<rparr>) s" "is" fi 0])
    have h: "hd is \<in> set is" using i by simp
    show "lfs_frame m s (upd_lfl m (\<lambda>c. c\<lparr>lfiblock := ibd (disk s) (hd is), lfinum := hd is\<rparr>) s)"
      by (rule frame_upd) simp
    show "fok ni m (upd_lfl m (\<lambda>c. c\<lparr>lfiblock := ibd (disk s) (hd is), lfinum := hd is\<rparr>) s) is bs fi fd xs"
      using file_ok_load [OF F[THEN conjunct1] cl'(1) h] F by simp
  qed (use e i cl' y in \<open>simp_all add: at_index_def same_pos_def hd_conv_nth dsync_def\<close>)
  have hd_idx: "idx ni (hd is)" if "is \<noteq> []" using U that by simp
  consider (new) "lfinum ?c = -1" "is = []" | (first) "lfinum ?c = -1" "is \<noteq> []" |
    (behind) j where "j < length is" "lfinum ?c = is ! j" "unat (lfpos ?c) < 8192 * j" |
    (stay) j where "j < length is" "lfinum ?c = is ! j" "8192 * j \<le> unat (lfpos ?c)"
  proof (cases "lfinum ?c = -1")
    case False
    then obtain j where "j < length is" "lfinum ?c = is ! j" using cached_index F by blast
    then show ?thesis using that(3,4) by (cases "unat (lfpos ?c) < 8192 * j") auto
  qed (use that(1,2) in blast)
  then show ?thesis
  proof cases
    case new
    obtain i fi' where fi: "fi = i # fi'" using room [OF new(2)] by (cases fi) auto
    obtain s1 where s1: "lfiballoc dk s = (Ret i, s1)" "lfs_frame m s s1" "fok ni m s1 is bs fi' fd xs"
      "lfltab s1 = lfltab s" "dsync (lfltab s1 m) (disk s1)" "lfd_files (lf_dir (Lf_data s1)) = lfd_files ?dir"
      using lfiballoc_ok F y unfolding fi by metis
    let ?s2 = "upd_lfl m (\<lambda>c. c\<lparr>lfiblock := lfibclear 0\<rparr>) s1"
    let ?s3 = "upd_ent (lfdirptr ?c) (\<lambda>e. e\<lparr>ld_ilist := i\<rparr>) ?s2"
    let ?s4 = "upd_lfl m (\<lambda>c. c\<lparr>lfibdirty := True, lfinum := i\<rparr>) ?s3"
    have i: "idx ni i" "i \<notin> set fi'" using U unfolding fi by auto
    have z: "bs = []" "xs = []" using U new(2) by auto
    have "lfsetup_first dk m s = (Ret OK, ?s4)"
      using new s1(1) U by (simp add: lfsetup_first_def Let_def first_block_def)
    moreover have "lfs_frame m s ?s4"
      by (rule lfs_frame_trans [OF s1(2) lfs_frame_trans [OF frame_upd(5) lfs_frame_trans [OF frame_upd(4) frame_upd(5)]]]) simp_all
    moreover have "fok ni m ?s4 [i] bs fi' fd xs"
      using file_ok_first [OF _ i, of "lf_dir (Lf_data s1)" ?c "disk s1" bs fd xs] s1(3,4) new(2) by simp
    moreover have "dsync (lfltab ?s4 m) (disk ?s4)" using s1(4,5) by (simp add: dsync_def)
    moreover have "at_index (lfltab ?s4 m) [i] 0" "same_pos ?c (lfltab ?s4 m)"
      using s1(4) cl' p z by (simp_all add: at_index_def same_pos_def)
    ultimately show ?thesis using z new(2) by (intro result [of ?s4 "[i]" fi' 0]) simp_all
  next
    case first
    have "lfsetup_first dk m s = (Ret OK, upd_lfl m (\<lambda>c. c\<lparr>lfiblock := ibd (disk s) (hd is), lfinum := hd is\<rparr>) s)"
      using first U idx_not_null [OF hd_idx [OF first(2)]] lfibget_ibd [OF hd_idx [OF first(2)] n(2), of s] n(3)
      by (simp add: lfsetup_first_def Let_def first_block_def)
    then show ?thesis using load first(2) by blast
  next
    case (behind j)
    have i: "is \<noteq> []" using behind(1) by auto
    have "lfiblock ?c = ib_spec is bs j" using U behind(1,2) by (auto simp: vib_def)
    moreover have "lfpos ?c < word_of_nat (8192 * j)"
      using behind(3) ib_offset_le(1) [OF F[THEN conjunct1] behind(1)] by (simp add: word_less_nat_alt)
    moreover have "is ! j \<noteq> -1" using idx_not_null [of ni "is ! j"] U behind(1) by simp
    ultimately have "lfsetup_first dk m s = (Ret OK, upd_lfl m (\<lambda>c. c\<lparr>lfiblock := ibd (disk s) (hd is), lfinum := hd is\<rparr>) s)"
      using behind(2) U i lfibget_ibd [OF hd_idx [OF i] n(2), of s] n(3)
      by (simp add: lfsetup_first_def Let_def first_block_def ib_spec_def)
    then show ?thesis using load i by blast
  next
    case (stay j)
    have "lfiblock ?c = ib_spec is bs j" using U stay(1,2) by (auto simp: vib_def)
    moreover have "\<not> lfpos ?c < word_of_nat (8192 * j)"
      using stay(3) ib_offset_le(1) [OF F[THEN conjunct1] stay(1)] by (simp add: word_less_nat_alt)
    moreover have "is ! j \<noteq> -1" using idx_not_null [of ni "is ! j"] U stay(1) by simp
    ultimately have "lfsetup_first dk m s = (Ret OK, s)"
      using stay(2) by (simp add: lfsetup_first_def Let_def ib_spec_def)
    then show ?thesis using that [of s "is" fi j] F y stay cl' by (simp add: at_index_def same_pos_def)
  qed
qed

text \<open>One round of the loop takes the next index block, or adds one at the end of the file.\<close>

lemma lfsetup_step_ok:
  assumes F: "fok ni m s is bs fi fd xs" and y: "dsync (lfltab s m) (disk s)" and j: "at_index (lfltab s m) is j"
    and p: "unat (lfpos (lfltab s m)) \<le> length xs" and more: "8192 * Suc j \<le> unat (lfpos (lfltab s m))"
    and room: "Suc j = length is \<Longrightarrow> fi \<noteq> []"
  obtains s' is' fi' where "lfsetup_step dk m s = (Ret True, s')" "lfs_frame m s s'" "fok ni m s' is' bs fi' fd xs"
    "dsync (lfltab s' m) (disk s')" "at_index (lfltab s' m) is' (Suc j)" "same_pos (lfltab s m) (lfltab s' m)"
    "is' = is \<and> fi' = fi \<or> Suc j = length is \<and> length is' = Suc (length is)"
proof -
  let ?c = "lfltab s m"
  note U = F[THEN conjunct1, unfolded file_ok_unfold]
  have n: "0 < ni" "ni < nb" "lf_dskdev (Lf_data s) = dev" using F U by simp_all
  have J: "j < length is" "lfinum ?c = is ! j" "\<not> lfdbdirty ?c" using j by (simp_all add: at_index_def)
  have "\<not> unat (lfpos ?c) div 8192 = j" using more less_eq_div_iff_mult_less_eq [of 8192 "Suc j" "unat (lfpos ?c)"] by (auto simp: mult.commute)
  then have cl: "\<not> lfibdirty ?c" using j by (simp add: at_index_def)
  have ib: "lfiblock ?c = ib_spec is bs j" using U J by (auto simp: vib_def)
  have "8192 * j < unat (lfpos ?c) div 8192 * 8192"
    using more less_eq_div_iff_mult_less_eq [of 8192 "Suc j" "unat (lfpos ?c)"] by (simp add: mult.commute)
  then have cond: "word_of_nat (8192 * j) < lfpos ?c AND NOT 0x1fff"
    unfolding word_less_nat_alt ib_offset_le(1) [OF F[THEN conjunct1] J(1)] unat_block_start .
  show ?thesis
  proof (cases "Suc j < length is")
    case True
    let ?s = "upd_lfl m (\<lambda>c. c\<lparr>lfiblock := ibd (disk s) (is ! Suc j), lfinum := is ! Suc j, lfdnum := -1\<rparr>) s"
    have i: "is ! Suc j \<in> set is" "idx ni (is ! Suc j)" using True U by simp_all
    have "lfsetup_step dk m s = (Ret True, ?s)"
      using cond True idx_not_null [OF i(2)] lfibget_ibd [OF i(2) n(2), of s] n(3)
      by (simp add: lfsetup_step_def Let_def ib ib_spec_def)
    moreover have "fok ni m ?s is bs fi fd xs"
      using file_ok_drop [OF file_ok_load [OF F[THEN conjunct1] cl i(1)]] J(3) y F by (simp add: dsync_def)
    moreover have "lfs_frame m s ?s" by (rule frame_upd) simp
    moreover have "at_index (lfltab ?s m) is (Suc j)" using True more J(3) cl by (simp add: at_index_def)
    ultimately show ?thesis by (intro that [of ?s "is" fi]) (simp_all add: same_pos_def dsync_def)
  next
    case False
    then have k: "length is = Suc j" using J(1) by simp
    obtain i fi' where fi: "fi = i # fi'" using room k by (cases fi) auto
    obtain s1 where s1: "lfiballoc dk s = (Ret i, s1)" "lfs_frame m s s1" "fok ni m s1 is bs fi' fd xs"
      "lfltab s1 = lfltab s" "dsync (lfltab s1 m) (disk s1)" "lfd_files (lf_dir (Lf_data s1)) = lfd_files (lf_dir (Lf_data s))"
      using lfiballoc_ok F y unfolding fi by metis
    have i: "idx ni i" "i \<notin> set is" "i \<notin> set fi'" "idx ni (is ! j)" using U J(1) unfolding fi by auto
    have "int32_ok i" using blocks_int32(1) [of ni _ _ "is" bs fi fd i] F by (auto simp: file_ok_def fi)
    then have ok: "iblk_ok ((ib_spec is bs j)\<lparr>ib_next := i\<rparr>)"
      using ib_spec_ok [of ni _ _ "is" bs fi fd j] F by (auto simp: file_ok_def iblk_ok_def)
    obtain d' where d': "lfibput dk dev (is ! j) ((ib_spec is bs j)\<lparr>ib_next := i\<rparr>) s1 = (OK, s1\<lparr>disk := d'\<rparr>)"
      "ibd d' (is ! j) = (ib_spec is bs j)\<lparr>ib_next := i\<rparr>"
      "\<And>k. idx ni k \<Longrightarrow> k \<noteq> is ! j \<Longrightarrow> ibd d' k = ibd (disk s1) k" "\<And>b. dat ni b \<Longrightarrow> blk d' b = blk (disk s1) b"
      using put_index [OF i(4) n(2) ok] by metis
    let ?f = "\<lambda>c. c\<lparr>lfiblock := lfibclear (word_of_nat (8192 * Suc j)), lfinum := i, lfibdirty := True, lfdnum := -1\<rparr>"
    let ?s = "upd_lfl m ?f (s1\<lparr>disk := d'\<rparr>)"
    have off: "word_of_nat (8192 * j) + 8192 = (word_of_nat (8192 * Suc j) :: u32)" by simp
    have nx: "ib_next (ib_spec is bs j) = -1" "ib_offset (ib_spec is bs j) = word_of_nat (8192 * j)"
      using k by (simp_all add: ib_spec_def)
    have "lfsetup_step dk m s = (Ret True, ?s)"
      unfolding lfsetup_step_def Let_def ib nx if_P [OF cond] s1(1) n(3) J(2) using d'(1) off nx by (simp add: add.commute)
    moreover have "lfs_frame m s ?s"
      by (rule lfs_frame_trans [OF s1(2) lfs_frame_trans [OF frame_upd(3) frame_upd(5)]]) simp
    moreover have "fok ni m ?s (is @ [i]) bs fi' fd xs"
      using file_ok_extend [OF s1(3)[THEN conjunct1] _ _ s1(5) k _ i(1-3) d'(2-4)] s1(3,4) cl J(2,3) more p by simp
    moreover have "unat (lfpos ?c) div 8192 = Suc j"
    proof -
      have "unat (lfpos ?c) \<le> 512 * length bs" "length bs \<le> 16 * Suc j" using p U k by auto
      then have "unat (lfpos ?c) = 8192 * Suc j" using more by linarith
      then show ?thesis by simp
    qed
    then have "at_index (lfltab ?s m) (is @ [i]) (Suc j)"
      using k more s1(4) J(3) by (simp add: at_index_def nth_append)
    ultimately show ?thesis
      using k s1(4) by (intro that [of ?s "is @ [i]" fi']) (simp_all add: same_pos_def dsync_def)
  qed
qed

end

context block_disk
begin

lemma lfsetup_walk_ok:
  assumes "fok ni m s is bs fi fd xs" "dsync (lfltab s m) (disk s)" "at_index (lfltab s m) is j"
    "unat (lfpos (lfltab s m)) \<le> length xs" "unat (lfpos (lfltab s m)) = 8192 * length is \<Longrightarrow> fi \<noteq> []"
  obtains s' is' fi' where "lfsetup_walk dk m s = Some (Ret OK, s')" "lfs_frame m s s'" "fok ni m s' is' bs fi' fd xs"
    "dsync (lfltab s' m) (disk s')" "at_index (lfltab s' m) is' (unat (lfpos (lfltab s m)) div 8192)"
    "same_pos (lfltab s m) (lfltab s' m)"
  using assms
proof (induction "unat (lfpos (lfltab s m)) div 8192 - j" arbitrary: j s "is" fi thesis)
  case 0
  note U = 0(3)[THEN conjunct1, unfolded file_ok_unfold]
  let ?c = "lfltab s m"
  have J: "j < length is" "lfinum ?c = is ! j" "8192 * j \<le> unat (lfpos ?c)" using 0(5) by (simp_all add: at_index_def)
  have j: "unat (lfpos ?c) div 8192 = j" using 0(1) J(3) less_eq_div_iff_mult_less_eq [of 8192 j "unat (lfpos ?c)"] by (simp add: mult.commute)
  have "lfiblock ?c = ib_spec is bs j" using U J by (auto simp: vib_def)
  moreover have "\<not> word_of_nat (8192 * j) < lfpos ?c AND NOT 0x1fff"
    unfolding word_less_nat_alt ib_offset_le(1) [OF 0(3)[THEN conjunct1] J(1)] unat_block_start by (simp add: j)
  ultimately have "lfsetup_step dk m s = (Ret False, s)" by (simp add: lfsetup_step_def Let_def ib_spec_def)
  then have "lfsetup_walk dk m s = Some (Ret OK, s)" by (subst lfsetup_walk.simps) simp
  then show ?case using 0(3-5) j by (intro 0(2) [of s "is" fi]) (simp_all add: same_pos_def)
next
  case (Suc n)
  let ?p = "unat (lfpos (lfltab s m))"
  note U = Suc(4)[THEN conjunct1, unfolded file_ok_unfold]
  have more: "8192 * Suc j \<le> ?p" using Suc(2) less_eq_div_iff_mult_less_eq [of 8192 "Suc j" ?p] by (simp add: mult.commute)
  have room: "Suc j = length is \<Longrightarrow> fi \<noteq> []"
  proof -
    assume k: "Suc j = length is"
    have "?p \<le> 512 * length bs" "length bs \<le> 16 * Suc j" using U Suc(7) k by auto
    then have "?p = 8192 * Suc j" using more by linarith
    then show ?thesis using Suc(8) k by simp
  qed
  obtain s1 is1 fi1 where s1: "lfsetup_step dk m s = (Ret True, s1)" "lfs_frame m s s1" "fok ni m s1 is1 bs fi1 fd xs"
    "dsync (lfltab s1 m) (disk s1)" "at_index (lfltab s1 m) is1 (Suc j)" "same_pos (lfltab s m) (lfltab s1 m)"
    "is1 = is \<and> fi1 = fi \<or> Suc j = length is \<and> length is1 = Suc (length is)"
    using lfsetup_step_ok [OF Suc(4-7) more room] by blast
  have p1: "lfpos (lfltab s1 m) = lfpos (lfltab s m)" using s1(6) by (simp add: same_pos_def)
  have ends: "unat (lfpos (lfltab s1 m)) = 8192 * length is1 \<Longrightarrow> fi1 \<noteq> []"
  proof -
    assume e: "unat (lfpos (lfltab s1 m)) = 8192 * length is1"
    from s1(7) show ?thesis
    proof
      assume k: "Suc j = length is \<and> length is1 = Suc (length is)"
      have "?p \<le> 512 * length bs" "length bs \<le> 16 * length is" using U Suc(7) by auto
      then show ?thesis using e k p1 by simp
    qed (use Suc(8) e p1 in simp)
  qed
  have n: "n = unat (lfpos (lfltab s1 m)) div 8192 - Suc j" using Suc(2) p1 by simp
  obtain s2 is2 fi2 where s2: "lfsetup_walk dk m s1 = Some (Ret OK, s2)" "lfs_frame m s1 s2" "fok ni m s2 is2 bs fi2 fd xs"
    "dsync (lfltab s2 m) (disk s2)" "at_index (lfltab s2 m) is2 (unat (lfpos (lfltab s1 m)) div 8192)"
    "same_pos (lfltab s1 m) (lfltab s2 m)"
    using Suc(1) [OF n _ s1(3,4,5) _ ends] Suc(7) p1 by auto
  have "lfsetup_walk dk m s = Some (Ret OK, s2)" using s1(1) s2(1) by (subst lfsetup_walk.simps) simp
  then show ?case
    using s2 lfs_frame_trans [OF s1(2) s2(2)] same_pos_trans [OF s1(6) s2(6)] p1 by (intro Suc(3) [of s2 is2 fi2]) simp_all
qed

section \<open>The data block\<close>

text \<open>A new last data block: \<open>e\<close> is its place in the last index block.\<close>

lemma file_ok_new_block:
  assumes F: "file_ok ni dir c d is bs fi fd xs" and y: "dsync c d" "\<not> lfdbdirty c"
    and b: "dat ni b" "b \<notin> set bs" "b \<notin> set fd" and J: "J < length is" "lfinum c = is ! J"
    and e: "length bs = 16 * J + e" "e < 16" and l: "length blk0 = 512"
  shows "file_ok ni dir (c\<lparr>lfdblock := blk0, lfiblock := (lfiblock c)\<lparr>ib_dba := (ib_dba (lfiblock c))[e := b]\<rparr>,
    lfibdirty := True, lfdnum := b\<rparr>) d is (bs @ [b]) fi fd xs"
proof -
  note U = F[unfolded file_ok_unfold]
  let ?c = "c\<lparr>lfdblock := blk0, lfiblock := (lfiblock c)\<lparr>ib_dba := (ib_dba (lfiblock c))[e := b]\<rparr>, lfibdirty := True, lfdnum := b\<rparr>"
  have ib: "lfiblock c = ib_spec is bs J" using U J by (auto simp: vib_def)
  have v: "vib ?c d (is ! j) = ib_spec is (bs @ [b]) j" if j: "j < length is" for j
  proof (cases "j = J")
    case True
    have "(ib_dba (ib_spec is bs J))[e := b] = ib_dba (ib_spec is (bs @ [b]) J)"
      using e by (intro nth_equalityI) (auto simp: ib_spec_def nth_append nth_list_update)
    then show ?thesis using True J by (simp add: vib_def ib ib_spec_def)
  next
    case False
    have "is ! j \<noteq> is ! J" using False j J(1) U nth_eq_iff_index_eq [of "is" j J] by auto
    then have "vib ?c d (is ! j) = vib c d (is ! j)" using J by (simp add: vib_def)
    also have "\<dots> = ib_spec is bs j" using U j by simp
    also have "\<dots> = ib_spec is (bs @ [b]) j"
    proof -
      have "16 * j + k \<noteq> length bs" if "k < 16" for k
      proof
        assume "16 * j + k = length bs"
        then have "(16 * j + k) div 16 = (16 * J + e) div 16" using e(1) by simp
        then show False using that e(2) False by simp
      qed
      then show ?thesis by (auto simp: ib_spec_def nth_append less_Suc_eq)
    qed
    finally show ?thesis .
  qed
  have w: "vdb ?c d ((bs @ [b]) ! (p div 512)) = vdb c d (bs ! (p div 512))" if "p < length xs" for p
  proof -
    have q: "p div 512 < length bs" using that U by (auto simp: div_less_iff_less_mult mult.commute)
    then have "bs ! (p div 512) \<noteq> b" "dat ni (bs ! (p div 512))" "0 < ni" using b(2) U nth_mem by (blast, auto)
    then have "bs ! (p div 512) \<noteq> b" "bs ! (p div 512) \<noteq> -1" by (auto simp: dat_def)
    then show ?thesis using q y by (auto simp: vdb_def dsync_def nth_append)
  qed
  have "length bs < 16 * length is" using e J(1) by linarith
  then show ?thesis using U b J l v w unfolding file_ok_unfold by simp
qed

lemma file_ok_read:
  assumes F: "file_ok ni dir c d is bs fi fd xs" and y: "dsync c d" "\<not> lfdbdirty c" and b: "b \<in> set bs"
  shows "file_ok ni dir (c\<lparr>lfdblock := blk d b, lfdbdirty := False, lfdnum := b\<rparr>) d is bs fi fd xs"
proof -
  note U = F[unfolded file_ok_unfold]
  have "vdb (c\<lparr>lfdblock := blk d b, lfdbdirty := False, lfdnum := b\<rparr>) d (bs ! (p div 512)) = vdb c d (bs ! (p div 512))"
    if "p < length xs" for p
  proof -
    have q: "p div 512 < length bs" using that U by (auto simp: div_less_iff_less_mult mult.commute)
    then have "dat ni (bs ! (p div 512))" "0 < ni" using U by auto
    then have "bs ! (p div 512) \<noteq> -1" by (auto simp: dat_def)
    then show ?thesis using y by (auto simp: vdb_def dsync_def)
  qed
  moreover have "vib (c\<lparr>lfdblock := blk d b, lfdbdirty := False, lfdnum := b\<rparr>) d i = vib c d i" for i
    by (simp add: vib_def)
  ultimately show ?thesis using U b unfolding file_ok_unfold by (simp add: blk_length)
qed

lemma file_ok_byte: "file_ok ni dir (c\<lparr>lfdnum := n, lfbyte := k\<rparr>) d is bs fi fd xs = file_ok ni dir (c\<lparr>lfdnum := n\<rparr>) d is bs fi fd xs"
  unfolding file_ok_unfold vib_def vdb_def by simp

lemma lfsetup_data_ok:
  assumes F: "fok ni m s is bs fi fd xs" and y: "dsync (lfltab s m) (disk s)"
    and j: "at_index (lfltab s m) is (unat (lfpos (lfltab s m)) div 8192)"
    and p: "unat (lfpos (lfltab s m)) \<le> length xs" and room: "unat (lfpos (lfltab s m)) = 512 * length bs \<Longrightarrow> fd \<noteq> []"
  obtains s' bs' fd' where "lfsetup_data dk m s = (Ret OK, s')" "lfs_frame m s s'" "fok ni m s' is bs' fi fd' xs"
    "at_pos (lfltab s' m) bs'" "lfbyte (lfltab s' m) < 512" "same_pos (lfltab s m) (lfltab s' m)"
    "unat (lfpos (lfltab s m)) < length xs \<Longrightarrow> dsync (lfltab s' m) (disk s')"
proof -
  let ?c = "lfltab s m" and ?J = "unat (lfpos (lfltab s m)) div 8192" and ?p = "unat (lfpos (lfltab s m))"
  let ?e = "?p mod 8192 div 512"
  note U = F[THEN conjunct1, unfolded file_ok_unfold]
  have n: "0 < ni" "ni < nb" "lf_dskdev (Lf_data s) = dev" using F U by simp_all
  have J: "?J < length is" "lfinum ?c = is ! ?J" "\<not> lfdbdirty ?c" using j by (simp_all add: at_index_def)
  have ib: "lfiblock ?c = ib_spec is bs ?J" using U J by (auto simp: vib_def)
  have "?p mod 8192 < 8192" by simp
  then have e: "?e < 16" by (simp add: div_less_iff_less_mult)
  have k: "16 * ?J + ?e = ?p div 512" by (rule block_split)
  have dn: "ib_dba (lfiblock ?c) ! ?e = (if ?p div 512 < length bs then bs ! (?p div 512) else -1)"
    using e k by (simp add: ib ib_spec_def)
  let ?b = "\<lambda>dnum c. c\<lparr>lfdnum := dnum, lfbyte := unat (lfpos c) mod 512\<rparr>"
  show ?thesis
  proof (cases "?p div 512 < length bs")
    case True
    let ?n = "bs ! (?p div 512)"
    have b: "?n \<in> set bs" "dat ni ?n" using True U by simp_all
    then have nn: "?n \<noteq> -1" "0 \<le> ?n" "?n < nb" using n by (auto simp: dat_def)
    show ?thesis
    proof (cases "?n = lfdnum ?c")
      case same: True
      let ?s = "upd_lfl m (?b ?n) s"
      have "?c\<lparr>lfdnum := ?n\<rparr> = ?c" using same by simp
      then have f: "fok ni m ?s is bs fi fd xs" using F file_ok_byte [where c = ?c and n = ?n] by simp
      have "lfsetup_data dk m s = (Ret OK, ?s)"
        unfolding lfsetup_data_def Let_def unat_block_offset dn if_P [OF True] using nn same by simp
      moreover have "lfs_frame m s ?s" by (rule frame_upd) simp
      ultimately show ?thesis using f True y same
        by (intro that [of ?s bs fd]) (simp_all add: at_pos_def same_pos_def dsync_def)
    next
      case False
      let ?s = "upd_lfl m (?b ?n) (upd_lfl m (\<lambda>c. c\<lparr>lfdblock := blk (disk s) ?n, lfdbdirty := False\<rparr>) s)"
      have "lfsetup_data dk m s = (Ret OK, ?s)"
        unfolding lfsetup_data_def Let_def unat_block_offset dn if_P [OF True]
        using nn(1) False read_blk [OF nn(2,3)] n(3) by simp
      moreover have "lfs_frame m s ?s" by (rule lfs_frame_trans [OF frame_upd(5) frame_upd(5)]) simp_all
      moreover have "fok ni m ?s is bs fi fd xs"
        using file_ok_read [OF F[THEN conjunct1] y J(3) b(1)] F file_ok_byte [where c = "?c\<lparr>lfdblock := blk (disk s) ?n, lfdbdirty := False\<rparr>" and n = ?n] by simp
      ultimately show ?thesis using True
        by (intro that [of ?s bs fd]) (simp_all add: at_pos_def same_pos_def dsync_def)
    qed
  next
    case False
    have "?p \<le> 512 * length bs" using U p by simp
    moreover have "512 * length bs \<le> ?p" using False less_eq_div_iff_mult_less_eq [of 512 "length bs" ?p] by (simp add: mult.commute)
    ultimately have at_end: "?p = 512 * length bs" by simp
    obtain b fd' where fd: "fd = b # fd'" using room [OF at_end] by (cases fd) auto
    obtain s1 where s1: "lfdballoc dk (lfdblock ?c) s = (Ret b, replicate 512 43, s1)" "lfs_frame m s s1"
      "fok ni m s1 is bs fi fd' xs" "lfltab s1 = lfltab s" "dsync (lfltab s1 m) (disk s1)"
      "lfd_files (lf_dir (Lf_data s1)) = lfd_files (lf_dir (Lf_data s))"
      using lfdballoc_ok F y unfolding fd by metis
    have b: "dat ni b" "b \<notin> set bs" "b \<notin> set fd'" using U unfolding fd by auto
    let ?f = "\<lambda>c. c\<lparr>lfdblock := replicate 512 43, lfiblock := (lfiblock c)\<lparr>ib_dba := (ib_dba (lfiblock c))[?e := b]\<rparr>, lfibdirty := True\<rparr>"
    let ?s = "upd_lfl m (?b b) (upd_lfl m ?f s1)"
    have dn1: "ib_dba (lfiblock ?c) ! ?e = -1" using dn False by simp
    have "lfsetup_data dk m s = (Ret OK, ?s)"
      unfolding lfsetup_data_def Let_def unat_block_offset if_P [OF dn1] s1(1) by simp
    moreover have "lfs_frame m s ?s"
      by (rule lfs_frame_trans [OF s1(2) lfs_frame_trans [OF frame_upd(5) frame_upd(5)]]) simp_all
    moreover have "fok ni m ?s is (bs @ [b]) fi fd' xs"
    proof -
      have le: "length bs = 16 * ?J + ?e" using at_end k by simp
      have "file_ok ni (lf_dir (Lf_data s1)) ((?f ?c)\<lparr>lfdnum := b\<rparr>) (disk s1) is (bs @ [b]) fi fd' xs"
        using file_ok_new_block [OF s1(3)[THEN conjunct1] s1(5) _ b, of ?J ?e "replicate 512 43"] le e J s1(4) by simp
      then show ?thesis using s1(3,4) file_ok_byte [where c = "?f ?c" and n = b] by simp
    qed
    moreover have "?p div 512 = length bs" using at_end by simp
    moreover have "\<not> ?p < length xs" using U at_end by simp
    ultimately show ?thesis using s1(4)
      by (intro that [of ?s "bs @ [b]" fd']) (simp_all add: at_pos_def same_pos_def del: replicate.simps)
  qed
qed

lemma lfsetup_locked_ok:
  assumes F: "fok ni m s is bs fi fd xs" and y: "dsync (lfltab s m) (disk s)"
    and p: "unat (lfpos (lfltab s m)) \<le> length xs"
    and room: "unat (lfpos (lfltab s m)) = length xs \<Longrightarrow> fi \<noteq> [] \<and> fd \<noteq> []"
  obtains s' is' bs' fi' fd' where "lfsetup_locked dk m s = Some (Ret OK, s')" "lfs_frame m s s'" "fok ni m s' is' bs' fi' fd' xs"
    "at_pos (lfltab s' m) bs'" "lfbyte (lfltab s' m) < 512" "same_pos (lfltab s m) (lfltab s' m)"
    "unat (lfpos (lfltab s m)) < length xs \<Longrightarrow> dsync (lfltab s' m) (disk s')"
proof -
  let ?c = "lfltab s m" and ?p = "unat (lfpos (lfltab s m))"
  define s0 where "s0 = (if lfibdirty ?c \<or> lfdbdirty ?c then snd (lfflush dk m s) else s)"
  have s0: "lfs_frame m s s0" "fok ni m s0 is bs fi fd xs" "dsync (lfltab s0 m) (disk s0)" "clean (lfltab s0 m)"
    "same_pos ?c (lfltab s0 m)"
  proof -
    obtain s' where "lfflush dk m s = (OK, s')" "lfs_frame m s s'" "fok ni m s' is bs fi fd xs"
      "lfltab s' m = ?c\<lparr>lfibdirty := False, lfdbdirty := False\<rparr>" "dsync (lfltab s' m) (disk s')"
      using lfflush_ok [OF F y] by blast
    then show "lfs_frame m s s0" "fok ni m s0 is bs fi fd xs" "dsync (lfltab s0 m) (disk s0)" "clean (lfltab s0 m)"
      "same_pos ?c (lfltab s0 m)"
      using F y by (simp_all add: s0_def clean_def same_pos_def)
  qed
  have p0: "lfpos (lfltab s0 m) = lfpos ?c" using s0(5) by (simp add: same_pos_def)
  have q0: "unat (lfpos (lfltab s0 m)) \<le> length xs" using p p0 by simp
  note U = F[THEN conjunct1, unfolded file_ok_unfold]
  have r0: "is = [] \<Longrightarrow> fi \<noteq> []" using room U p by auto
  obtain s1 is1 fi1 j where s1: "lfsetup_first dk m s0 = (Ret OK, s1)" "lfs_frame m s0 s1" "fok ni m s1 is1 bs fi1 fd xs"
    "dsync (lfltab s1 m) (disk s1)" "at_index (lfltab s1 m) is1 j" "same_pos (lfltab s0 m) (lfltab s1 m)"
    "is1 = is \<and> fi1 = fi \<or> is = [] \<and> length is1 = 1 \<and> length xs = 0"
    using lfsetup_first_ok [OF s0(2,3,4) q0 r0] by blast
  have p1: "lfpos (lfltab s1 m) = lfpos ?c" using s1(6) p0 by (simp add: same_pos_def)
  have q1: "unat (lfpos (lfltab s1 m)) \<le> length xs" using p p1 by simp
  have r1: "unat (lfpos (lfltab s1 m)) = 8192 * length is1 \<Longrightarrow> fi1 \<noteq> []"
  proof -
    assume a: "unat (lfpos (lfltab s1 m)) = 8192 * length is1"
    have "length xs \<le> 512 * length bs" "length bs \<le> 16 * length is" using U by auto
    then show ?thesis using a s1(7) p p1 room by auto
  qed
  obtain s2 is2 fi2 where s2: "lfsetup_walk dk m s1 = Some (Ret OK, s2)" "lfs_frame m s1 s2" "fok ni m s2 is2 bs fi2 fd xs"
    "dsync (lfltab s2 m) (disk s2)" "at_index (lfltab s2 m) is2 (unat (lfpos (lfltab s1 m)) div 8192)"
    "same_pos (lfltab s1 m) (lfltab s2 m)"
    using lfsetup_walk_ok [OF s1(3,4,5) q1 r1] by blast
  have p2: "lfpos (lfltab s2 m) = lfpos ?c" using s2(6) p1 by (simp add: same_pos_def)
  have q2: "unat (lfpos (lfltab s2 m)) \<le> length xs" using p p2 by simp
  have i2: "at_index (lfltab s2 m) is2 (unat (lfpos (lfltab s2 m)) div 8192)" using s2(5) p1 p2 by simp
  have r2: "unat (lfpos (lfltab s2 m)) = 512 * length bs \<Longrightarrow> fd \<noteq> []" using room U p p2 by auto
  obtain s3 bs' fd' where s3: "lfsetup_data dk m s2 = (Ret OK, s3)" "lfs_frame m s2 s3" "fok ni m s3 is2 bs' fi2 fd' xs"
    "at_pos (lfltab s3 m) bs'" "lfbyte (lfltab s3 m) < 512" "same_pos (lfltab s2 m) (lfltab s3 m)"
    "unat (lfpos (lfltab s2 m)) < length xs \<Longrightarrow> dsync (lfltab s3 m) (disk s3)"
    using lfsetup_data_ok [OF s2(3,4) i2 q2 r2] by blast
  have "lfsetup_locked dk m s = Some (Ret OK, s3)"
    unfolding lfsetup_locked_def Let_def s0_def [symmetric] s1(1) using s2(1) s3(1) by simp
  moreover have "lfs_frame m s s3" using s0(1) s1(2) s2(2) s3(2) lfs_frame_trans by metis
  moreover have "same_pos ?c (lfltab s3 m)" using s0(5) s1(6) s2(6) s3(6) same_pos_trans by metis
  ultimately show ?thesis using s3 p2 by (intro that [of s3 is2 bs' fi2 fd']) simp_all
qed

end

end
