(* ===== verification/Lfs_Bytes.thy ===== *)
theory Lfs_Bytes
  imports Lfs_File
begin

text \<open>
  Reading, writing and seeking in an open file, as operations on a list of bytes and a position.
  \<open>open_file\<close> adds to \<open>file_ok\<close> that the kernel invariant holds and that nobody holds the mutexes of
  the file and of the directory, so that no call has to wait.
\<close>

section \<open>The mutexes\<close>

definition sem_free :: "'a ks \<Rightarrow> int \<Rightarrow> bool" where
  "sem_free s j \<longleftrightarrow> \<not> isbadsem j \<and> sstate (semtab s j) = S_USED \<and> scount (semtab s j) = 1"

lemma upd_sem_fs [simp]:
  "Lf_data (upd_sem j f s) = Lf_data s" "lfltab (upd_sem j f s) = lfltab s" "disk (upd_sem j f s) = disk s"
  "currpid (upd_sem j f s) = currpid s" "mem (upd_sem j f s) = mem s"
  by (simp_all add: upd_sem_def)

text \<open>Taking a free mutex, and giving it back in a state with the same semaphores.\<close>

lemma lock_ok:
  assumes "kinv s" "sem_free s j"
  shows "wait_sem j s = Some (OK, upd_sem j (\<lambda>e. e\<lparr>scount := scount e - 1\<rparr>) s)"
    "kinv (upd_sem j (\<lambda>e. e\<lparr>scount := scount e - 1\<rparr>) s)"
  using wait_pass [OF assms(1), of j] assms(2) by (simp_all add: sem_free_def)

lemma unlock_ok:
  assumes "sem_free s j" "kinv s'" "semtab s' = semtab (upd_sem j (\<lambda>e. e\<lparr>scount := scount e - 1\<rparr>) s)"
  shows "signal j s' = Some (OK, upd_sem j (\<lambda>e. e\<lparr>scount := scount e + 1\<rparr>) s')"
    "kinv (upd_sem j (\<lambda>e. e\<lparr>scount := scount e + 1\<rparr>) s')"
    "semtab (upd_sem j (\<lambda>e. e\<lparr>scount := scount e + 1\<rparr>) s') = semtab s"
proof -
  have c: "\<not> isbadsem j" "sstate (semtab s' j) = S_USED" "0 \<le> scount (semtab s' j)"
    using assms(1,3) by (simp_all add: sem_free_def)
  show "signal j s' = Some (OK, upd_sem j (\<lambda>e. e\<lparr>scount := scount e + 1\<rparr>) s')" using c by (rule signal_free)
  show "kinv (upd_sem j (\<lambda>e. e\<lparr>scount := scount e + 1\<rparr>) s')" using assms(2) c by (rule signal_free_kinv)
  show "semtab (upd_sem j (\<lambda>e. e\<lparr>scount := scount e + 1\<rparr>) s') = semtab s"
    using assms(3) by (simp add: fun_upd_idem)
qed

section \<open>One byte\<close>

text \<open>Writing at a position of the list, or at its end.\<close>

definition put_at :: "nat \<Rightarrow> u8 \<Rightarrow> u8 list \<Rightarrow> u8 list" where
  "put_at p ch xs = (if p < length xs then xs[p := ch] else xs @ [ch])"

lemma put_at_nth: "p \<le> length xs \<Longrightarrow> q < length (put_at p ch xs) \<Longrightarrow> put_at p ch xs ! q = (if q = p then ch else xs ! q)"
  by (auto simp: put_at_def nth_list_update nth_append)

lemma length_put_at: "p \<le> length xs \<Longrightarrow> length (put_at p ch xs) = max (length xs) (Suc p)"
  by (auto simp: put_at_def)

lemma next_in_block: "p mod 512 + 1 < 512 \<Longrightarrow> Suc p mod 512 = p mod 512 + 1 \<and> Suc p div 512 = p div (512::nat)"
  by (simp add: mod_Suc div_Suc)

lemma at_pos_next:
  assumes "at_pos c bs" "lfbyte c < 512" "unat (lfpos c) + 1 < 4294967296"
  shows "at_pos (c\<lparr>lfbyte := lfbyte c + 1, lfpos := lfpos c + 1\<rparr>) bs" "unat (lfpos c + 1) = unat (lfpos c) + 1"
proof -
  show u: "unat (lfpos c + 1) = unat (lfpos c) + 1" using assms(3) by (simp add: unat_word_ariths)
  have b: "lfbyte c = unat (lfpos c) mod 512" "unat (lfpos c) div 512 < length bs" "lfdnum c = bs ! (unat (lfpos c) div 512)"
    using assms(1,2) by (simp_all add: at_pos_def)
  show "at_pos (c\<lparr>lfbyte := lfbyte c + 1, lfpos := lfpos c + 1\<rparr>) bs"
  proof (cases "lfbyte c + 1 = 512")
    case False
    then have "unat (lfpos c) mod 512 + 1 < 512" using assms(2) b(1) by simp
    from next_in_block [OF this] show ?thesis using b u by (simp add: at_pos_def)
  qed (simp add: at_pos_def)
qed

context block_disk
begin

lemma file_ok_pos: "file_ok ni dir (c\<lparr>lfbyte := a, lfpos := b\<rparr>) d is bs fi fd xs = file_ok ni dir c d is bs fi fd xs"
  unfolding file_ok_unfold vib_def vdb_def by simp

lemma file_ok_moved:
  "file_ok ni dir (c\<lparr>lfdblock := b, lfdbdirty := True, lfbyte := x, lfpos := y\<rparr>) d is bs fi fd xs =
    file_ok ni dir (c\<lparr>lfdblock := b, lfdbdirty := True\<rparr>) d is bs fi fd xs"
  "file_ok ni dir (c\<lparr>lfpos := y, lfbyte := x\<rparr>) d is bs fi fd xs = file_ok ni dir c d is bs fi fd xs"
  unfolding file_ok_unfold vib_def vdb_def by simp_all

lemma file_byte:
  assumes "file_ok ni dir c d is bs fi fd xs" "at_pos c bs" "lfbyte c < 512" "unat (lfpos c) < length xs"
  shows "lfdblock c ! lfbyte c = xs ! unat (lfpos c)"
  using assms by (auto simp: file_ok_unfold at_pos_def vdb_def)

lemma file_put:
  assumes F: "file_ok ni dir c d is bs fi fd xs" and a: "at_pos c bs" "lfbyte c < 512" and p: "unat (lfpos c) \<le> length xs"
    and z: "length xs + 1 < 4294967296"
    and dir': "lfd_ifree dir' = lfd_ifree dir" "lfd_dfree dir' = lfd_dfree dir"
      "lfd_files dir' (lfdirptr c) = (if unat (lfpos c) < length xs then lfd_files dir (lfdirptr c)
         else (lfd_files dir (lfdirptr c))\<lparr>ld_size := ld_size (lfd_files dir (lfdirptr c)) + 1\<rparr>)"
  shows "file_ok ni dir' (c\<lparr>lfdblock := (lfdblock c)[lfbyte c := ch], lfdbdirty := True\<rparr>) d is bs fi fd (put_at (unat (lfpos c)) ch xs)"
proof -
  let ?p = "unat (lfpos c)" and ?c = "c\<lparr>lfdblock := (lfdblock c)[lfbyte c := ch], lfdbdirty := True\<rparr>"
  note U = F[unfolded file_ok_unfold]
  have b: "lfbyte c = ?p mod 512" "?p div 512 < length bs" "lfdnum c = bs ! (?p div 512)"
    using a by (simp_all add: at_pos_def)
  have l: "length (put_at ?p ch xs) = max (length xs) (Suc ?p)" using p by (rule length_put_at)
  have size: "unat (ld_size (lfd_files dir' (lfdirptr c))) = length (put_at ?p ch xs)"
    using U p z dir'(3) by (auto simp: l unat_word_ariths)
  have "?p < 512 * length bs" using b(2) by (simp add: div_less_iff_less_mult mult.commute)
  then have len: "length (put_at ?p ch xs) \<le> 512 * length bs" using U by (simp add: l)
  have v: "vdb ?c d (bs ! (q div 512)) ! (q mod 512) = put_at ?p ch xs ! q" if q: "q < length (put_at ?p ch xs)" for q
  proof -
    have qb: "q div 512 < length bs" using q len by (auto simp: div_less_iff_less_mult mult.commute)
    have old: "q \<noteq> ?p \<Longrightarrow> vdb c d (bs ! (q div 512)) ! (q mod 512) = xs ! q" using U q l p by auto
    show ?thesis
    proof (cases "q div 512 = ?p div 512")
      case True
      then have "q = ?p \<longleftrightarrow> q mod 512 = ?p mod 512" using div_mult_mod_eq [of q 512] div_mult_mod_eq [of ?p 512] by metis
      then show ?thesis
        using True b U old put_at_nth [OF p q] by (auto simp: vdb_def nth_list_update)
    next
      case False
      have "distinct bs" using U by simp
      then have "bs ! (q div 512) \<noteq> lfdnum c" using False qb b(2,3) by (simp add: nth_eq_iff_index_eq)
      moreover have "q \<noteq> ?p" using False by auto
      ultimately show ?thesis using old put_at_nth [OF p q] by (simp add: vdb_def)
    qed
  qed
  have "length xs div 8192 \<le> length (put_at ?p ch xs) div 8192" by (rule div_le_mono) (simp add: l)
  moreover have "vib ?c d i = vib c d i" for i by (simp add: vib_def)
  moreover have "ld_ilist (lfd_files dir' (lfdirptr c)) = ld_ilist (lfd_files dir (lfdirptr c))" using dir'(3) by simp
  moreover have "lfdnum c \<in> set bs" using b by simp
  ultimately show ?thesis using U size len v dir'(1,2) unfolding file_ok_unfold by simp
qed

section \<open>Open files\<close>

definition open_file :: "int \<Rightarrow> int \<Rightarrow> ('d, 'a) fss \<Rightarrow> u8 list \<Rightarrow> nat \<Rightarrow> int list \<Rightarrow> int list \<Rightarrow> bool" where
  "open_file ni m s xs p fi fd \<longleftrightarrow> kinv s \<and>
     sem_free s (lfmutex (lfltab s m)) \<and> sem_free s (lf_mutex (Lf_data s)) \<and> lfmutex (lfltab s m) \<noteq> lf_mutex (Lf_data s) \<and>
     lf_dskdev (Lf_data s) = dev \<and> unat (lfpos (lfltab s m)) = p \<and> p \<le> length xs \<and> lfbyte (lfltab s m) \<le> 512 \<and>
     dsync (lfltab s m) (disk s) \<and>
     (\<exists>is bs. file_ok ni (lf_dir (Lf_data s)) (lfltab s m) (disk s) is bs fi fd xs \<and> at_pos (lfltab s m) bs)"

text \<open>What a call does not touch.\<close>

definition other_state :: "int \<Rightarrow> ('d, 'a) fss \<Rightarrow> ('d, 'a) fss \<Rightarrow> bool" where
  "other_state m s s' \<longleftrightarrow> semtab s' = semtab s \<and> currpid s' = currpid s \<and> mem s' = mem s \<and>
     (\<forall>n. n \<noteq> m \<longrightarrow> lfltab s' n = lfltab s n)"

text \<open>\<open>lfsetup\<close> with the directory mutex: \<open>s\<close> is the state in which the file's mutex is held.\<close>

lemma lfsetup_ok:
  assumes K: "kinv s" "sem_free s (lf_mutex (Lf_data s))"
    and F: "fok ni m s is bs fi fd xs" and y: "dsync (lfltab s m) (disk s)"
    and p: "unat (lfpos (lfltab s m)) \<le> length xs"
    and room: "unat (lfpos (lfltab s m)) = length xs \<Longrightarrow> fi \<noteq> [] \<and> fd \<noteq> []"
  obtains s' is' bs' fi' fd' where "lfsetup dk m s = Some (Ret OK, s')" "kinv s'" "other_state m s s'"
    "fok ni m s' is' bs' fi' fd' xs" "at_pos (lfltab s' m) bs'" "lfbyte (lfltab s' m) < 512" "same_pos (lfltab s m) (lfltab s' m)"
    "lf_mutex (Lf_data s') = lf_mutex (Lf_data s)" "lfmutex (lfltab s' m) = lfmutex (lfltab s m)"
    "unat (lfpos (lfltab s m)) < length xs \<Longrightarrow> dsync (lfltab s' m) (disk s')"
proof -
  let ?j = "lf_mutex (Lf_data s)"
  let ?s1 = "upd_sem ?j (\<lambda>e. e\<lparr>scount := scount e - 1\<rparr>) s"
  note l = lock_ok [OF K]
  have 1: "fok ni m ?s1 is bs fi fd xs" "dsync (lfltab ?s1 m) (disk ?s1)" "unat (lfpos (lfltab ?s1 m)) \<le> length xs"
    "unat (lfpos (lfltab ?s1 m)) = length xs \<Longrightarrow> fi \<noteq> [] \<and> fd \<noteq> []"
    using F y p room by simp_all
  obtain s2 is' bs' fi' fd' where s2: "lfsetup_locked dk m ?s1 = Some (Ret OK, s2)" "lfs_frame m ?s1 s2"
    "fok ni m s2 is' bs' fi' fd' xs" "at_pos (lfltab s2 m) bs'" "lfbyte (lfltab s2 m) < 512"
    "same_pos (lfltab ?s1 m) (lfltab s2 m)" "unat (lfpos (lfltab ?s1 m)) < length xs \<Longrightarrow> dsync (lfltab s2 m) (disk s2)"
    using lfsetup_locked_ok [OF 1] by blast
  note f = lfs_frame_fields [OF s2(2)]
  have k2: "kinv s2" using f(4) l(2) by simp
  note u = unlock_ok [OF K(2) k2 f(1)]
  let ?s3 = "upd_sem ?j (\<lambda>e. e\<lparr>scount := scount e + 1\<rparr>) s2"
  have mx: "lf_mutex (Lf_data s2) = ?j" "lfmutex (lfltab s2 m) = lfmutex (lfltab s m)"
    using s2(2) by (simp_all add: lfs_frame_def)
  have "lfsetup dk m s = Some (Ret OK, ?s3)"
    using l(1) s2(1) u(1) by (simp add: lfsetup_def when_current_def lfsetup_end_def mx)
  moreover have "other_state m s ?s3" unfolding other_state_def u(3) using f(2,3,5) by simp
  ultimately show ?thesis
    using u(2) s2(3-7) mx by (intro that [of ?s3 is' bs' fi' fd']) simp_all
qed

end

context block_disk
begin

lemma lock_file:
  assumes "open_file ni m s xs p fi fd"
  shows "wait_sem (lfmutex (lfltab s m)) s = Some (OK, upd_sem (lfmutex (lfltab s m)) (\<lambda>e. e\<lparr>scount := scount e - 1\<rparr>) s)"
    "kinv (upd_sem (lfmutex (lfltab s m)) (\<lambda>e. e\<lparr>scount := scount e - 1\<rparr>) s)"
    "sem_free (upd_sem (lfmutex (lfltab s m)) (\<lambda>e. e\<lparr>scount := scount e - 1\<rparr>) s) (lf_mutex (Lf_data s))"
  using lock_ok [of s "lfmutex (lfltab s m)"] assms by (simp_all add: open_file_def sem_free_def)

text \<open>The release of the file's mutex at the end of a call that took it in state \<open>s\<close>.\<close>

lemma unlock_file:
  assumes "open_file ni m s xs p fi fd" "kinv s'"
    "other_state m (upd_sem (lfmutex (lfltab s m)) (\<lambda>e. e\<lparr>scount := scount e - 1\<rparr>) s) s'"
    "lfmutex (lfltab s' m) = lfmutex (lfltab s m)" "lf_mutex (Lf_data s') = lf_mutex (Lf_data s)"
    "lf_dskdev (Lf_data s') = dev" "unat (lfpos (lfltab s' m)) = p'" "p' \<le> length xs'" "lfbyte (lfltab s' m) \<le> 512"
    "dsync (lfltab s' m) (disk s')" "file_ok ni (lf_dir (Lf_data s')) (lfltab s' m) (disk s') isx bs fi' fd' xs'"
    "at_pos (lfltab s' m) bs"
  shows "\<exists>s''. release m r s' = Some (Ret r, s'') \<and> open_file ni m s'' xs' p' fi' fd' \<and> other_state m s s''"
proof -
  let ?j = "lfmutex (lfltab s m)"
  have j: "sem_free s ?j" using assms(1) by (simp add: open_file_def)
  have t: "semtab s' = semtab (upd_sem ?j (\<lambda>e. e\<lparr>scount := scount e - 1\<rparr>) s)" using assms(3) by (simp add: other_state_def)
  note u = unlock_ok [OF j assms(2) t]
  let ?s = "upd_sem ?j (\<lambda>e. e\<lparr>scount := scount e + 1\<rparr>) s'"
  have "sem_free ?s k = sem_free s k" for k unfolding sem_free_def u(3) ..
  then have "open_file ni m ?s xs' p' fi' fd'"
    using assms u(2) by (auto simp: open_file_def)
  moreover have "other_state m s ?s" using assms(3) unfolding other_state_def u(3) by simp
  moreover have "release m r s' = Some (Ret r, ?s)" using u(1) by (simp add: release_def assms(4))
  ultimately show ?thesis by blast
qed

lemma lflgetc_refines:
  assumes O: "open_file ni (dvminor devptr) s xs p fi fd"
  shows "\<exists>s' fi' fd'. lflgetc dk devptr s = Some (Ret (if p < length xs then uint (xs ! p) else EOF), s') \<and>
    open_file ni (dvminor devptr) s' xs (if p < length xs then p + 1 else p) fi' fd' \<and> other_state (dvminor devptr) s s'"
proof -
  define m where "m = dvminor devptr"
  note O = O[folded m_def]
  let ?c = "lfltab s m" and ?j = "lfmutex (lfltab s m)"
  define s1 where "s1 = upd_sem ?j (\<lambda>e. e\<lparr>scount := scount e - 1\<rparr>) s"
  have e1: "Lf_data s1 = Lf_data s" "lfltab s1 = lfltab s" "disk s1 = disk s" "currpid s1 = currpid s"
    by (simp_all add: s1_def)
  obtain "is" bs where F: "fok ni m s1 is bs fi fd xs" "at_pos ?c bs" "dsync ?c (disk s)"
    and P: "unat (lfpos ?c) = p" "p \<le> length xs" "lfbyte ?c \<le> 512"
    using O unfolding open_file_def e1 by blast
  have st: "lfstate ?c = LF_USED" "unat (ld_size (dirent s (lfdirptr ?c))) = length xs" using F(1) by (simp_all add: file_ok_unfold e1)
  note L = lock_file [OF O, folded s1_def]
  have g: "lflgetc dk devptr s = lflgetc_end dk m s1"
    using L(1) e1(4) by (simp add: lflgetc_def when_current_def m_def)
  have os: "other_state m s1 s1" by (simp add: other_state_def)
  show ?thesis
  proof (cases "p < length xs")
    case False
    then have "lflgetc_end dk m s1 = release m EOF s1"
      using st P(1) by (simp add: lflgetc_end_def Let_def e1 word_le_nat_alt)
    moreover have "\<exists>s'. release m EOF s1 = Some (Ret EOF, s') \<and> open_file ni m s' xs p fi fd \<and> other_state m s s'"
      using O F P L(2) os by (intro unlock_file [OF O, folded s1_def, where bs = bs]) (simp_all add: e1 open_file_def)
    ultimately show ?thesis using False g by (auto simp: m_def)
  next
    case True
    have byte: "\<exists>s' fi'' fd''. lflgetc_byte m s2 = Some (Ret (uint (xs ! p)), s') \<and> open_file ni m s' xs (p + 1) fi'' fd'' \<and> other_state m s s'"
      if F2: "fok ni m s2 is2 bs2 fi2 fd2 xs" "at_pos (lfltab s2 m) bs2" "dsync (lfltab s2 m) (disk s2)" "lfbyte (lfltab s2 m) < 512"
        and K2: "kinv s2" "other_state m s1 s2" "lf_mutex (Lf_data s2) = lf_mutex (Lf_data s)" "lfmutex (lfltab s2 m) = ?j"
          "lfpos (lfltab s2 m) = lfpos ?c" for s2 is2 bs2 fi2 fd2
    proof -
      let ?c2 = "lfltab s2 m"
      let ?s3 = "upd_lfl m (\<lambda>c. c\<lparr>lfbyte := lfbyte c + 1, lfpos := lfpos c + 1\<rparr>) s2"
      have "length xs < 4294967296" using st(2) unat_lt_2p32 by metis
      then have z: "unat (lfpos ?c2) + 1 < 4294967296 \<or> unat (lfpos ?c2) + 1 = 4294967296" using True P(1) K2(5) by auto
      have z: "unat (lfpos ?c2) + 1 < 4294967296" using True P(1) K2(5) \<open>length xs < 4294967296\<close> by simp
      note N = at_pos_next [OF F2(2,4) z]
      have b: "lfdblock ?c2 ! lfbyte ?c2 = xs ! p" using file_byte [OF F2(1)[THEN conjunct1] F2(2,4)] True P(1) K2(5) by simp
      have "kinv ?s3" using K2(1) by (subst kinv_same_tables [of ?s3 s2]) (simp_all add: upd_lfl_def)
      moreover have "other_state m s1 ?s3" using K2(2) by (simp add: other_state_def upd_lfl_def)
      ultimately have "\<exists>s'. release m (uint (xs ! p)) ?s3 = Some (Ret (uint (xs ! p)), s') \<and> open_file ni m s' xs (p + 1) fi2 fd2 \<and> other_state m s s'"
        using F2 K2 N True P(1) b
        by (intro unlock_file [OF O, folded s1_def, where isx = is2 and bs = bs2]) (simp_all add: file_ok_pos dsync_def)
      then show ?thesis using b by (auto simp: lflgetc_byte_def Let_def)
    qed
    have use_end: "lflgetc_end dk m s1 = (if lfbyte ?c \<ge> 512 then do {
        (r, s2) \<leftarrow> lfsetup dk m s1; case r of Ret _ \<Rightarrow> when_current (currpid s) (lflgetc_byte m) s2 | _ \<Rightarrow> Some (r, s2) }
      else lflgetc_byte m s1)"
      using st P(1) True by (simp add: lflgetc_end_def Let_def e1 word_le_nat_alt)
    show ?thesis
    proof (cases "lfbyte ?c \<ge> 512")
      case False
      then show ?thesis using byte [OF F(1) _ _ _ L(2) os] F P True g use_end by (auto simp: e1 m_def)
    next
      case 512: True
      have k1: "sem_free s1 (lf_mutex (Lf_data s1))" using L(3) by (simp add: e1)
      have f1: "dsync (lfltab s1 m) (disk s1)" "unat (lfpos (lfltab s1 m)) \<le> length xs"
        "unat (lfpos (lfltab s1 m)) = length xs \<Longrightarrow> fi \<noteq> [] \<and> fd \<noteq> []" using F(3) P True by (simp_all add: e1)
      obtain s2 is2 bs2 fi2 fd2 where s2: "lfsetup dk m s1 = Some (Ret OK, s2)" "kinv s2" "other_state m s1 s2"
        "fok ni m s2 is2 bs2 fi2 fd2 xs" "at_pos (lfltab s2 m) bs2" "lfbyte (lfltab s2 m) < 512" "same_pos (lfltab s1 m) (lfltab s2 m)"
        "lf_mutex (Lf_data s2) = lf_mutex (Lf_data s1)" "lfmutex (lfltab s2 m) = lfmutex (lfltab s1 m)"
        "unat (lfpos (lfltab s1 m)) < length xs \<Longrightarrow> dsync (lfltab s2 m) (disk s2)"
        using lfsetup_ok [OF L(2) k1 F(1) f1] by blast
      have "lflgetc_end dk m s1 = lflgetc_byte m s2"
        using use_end 512 s2(1,3) by (simp add: when_current_def other_state_def e1)
      then show ?thesis
        using byte [OF s2(4,5) s2(10) s2(6,2,3)] s2(7-9) True P g by (auto simp: e1 m_def same_pos_def)
    qed
  qed
qed

end

section \<open>Writing and seeking\<close>

context block_disk
begin

lemma lflputc_byte_ok:
  assumes O: "open_file ni m s xs p fi fd" and z: "length xs + 1 < 4294967296"
    and F2: "fok ni m s2 is2 bs2 fi2 fd2 xs" "at_pos (lfltab s2 m) bs2" "lfbyte (lfltab s2 m) < 512"
    and K2: "kinv s2" "other_state m (upd_sem (lfmutex (lfltab s m)) (\<lambda>e. e\<lparr>scount := scount e - 1\<rparr>) s) s2"
      "lf_mutex (Lf_data s2) = lf_mutex (Lf_data s)" "lfmutex (lfltab s2 m) = lfmutex (lfltab s m)"
      "lfpos (lfltab s2 m) = lfpos (lfltab s m)"
  shows "\<exists>s' fi' fd'. lflputc_byte m ch s2 = Some (Ret OK, s') \<and> open_file ni m s' (put_at p ch xs) (p + 1) fi' fd' \<and> other_state m s s'"
proof -
  let ?c = "lfltab s2 m"
  let ?i = "lfdirptr ?c"
  define s3 where "s3 = (if lfpos ?c \<ge> ld_size (dirent s2 ?i)
               then set_dirdirty True (upd_ent ?i (\<lambda>e. e\<lparr>ld_size := ld_size e + 1\<rparr>) s2) else s2)"
  let ?c4 = "?c\<lparr>lfdblock := (lfdblock ?c)[lfbyte ?c := ch], lfdbdirty := True, lfbyte := lfbyte ?c + 1, lfpos := lfpos ?c + 1\<rparr>"
  define s4 where "s4 = upd_lfl m (\<lambda>c. c\<lparr>lfdblock := (lfdblock c)[lfbyte c := ch], lfbyte := lfbyte c + 1,
                lfpos := lfpos c + 1, lfdbdirty := True\<rparr>) s3"
  have P: "unat (lfpos ?c) = p" "p \<le> length xs" using O K2(5) by (simp_all add: open_file_def)
  have sz: "unat (ld_size (dirent s2 ?i)) = length xs" and dk: "lf_dskdev (Lf_data s2) = dev"
    using F2(1) by (simp_all add: file_ok_unfold)
  have full: "lfpos ?c \<ge> ld_size (dirent s2 ?i) \<longleftrightarrow> \<not> p < length xs" using P sz by (auto simp: word_le_nat_alt)
  have s3: "lfltab s3 = lfltab s2" "disk s3 = disk s2" "semtab s3 = semtab s2" "currpid s3 = currpid s2" "mem s3 = mem s2"
    "lf_mutex (Lf_data s3) = lf_mutex (Lf_data s2)" "lf_dskdev (Lf_data s3) = lf_dskdev (Lf_data s2)"
    "lfd_ifree (lf_dir (Lf_data s3)) = lfd_ifree (lf_dir (Lf_data s2))" "lfd_dfree (lf_dir (Lf_data s3)) = lfd_dfree (lf_dir (Lf_data s2))"
    "lfd_files (lf_dir (Lf_data s3)) ?i = (if p < length xs then lfd_files (lf_dir (Lf_data s2)) ?i
         else (lfd_files (lf_dir (Lf_data s2)) ?i)\<lparr>ld_size := ld_size (lfd_files (lf_dir (Lf_data s2)) ?i) + 1\<rparr>)"
    using full by (simp_all add: s3_def set_dirdirty_def upd_ent_def upd_dir_def)
  have "kinv s3 = kinv s2" by (rule kinv_same_tables) (simp_all add: s3_def set_dirdirty_def upd_ent_def upd_dir_def)
  then have k4: "kinv s4" using K2(1) by (subst kinv_same_tables [of s4 s3]) (simp_all add: s4_def upd_lfl_def)
  have s4: "Lf_data s4 = Lf_data s3" "lfltab s4 m = ?c4" "disk s4 = disk s2" "semtab s4 = semtab s2" "currpid s4 = currpid s2"
    "mem s4 = mem s2" "\<And>n. n \<noteq> m \<Longrightarrow> lfltab s4 n = lfltab s2 n"
    using s3 by (simp_all add: s4_def upd_lfl_def)
  have z': "unat (lfpos ?c) + 1 < 4294967296" using P z by simp
  note N = at_pos_next [OF F2(2,3) z']
  have p2: "unat (lfpos ?c) \<le> length xs" using P by simp
  have "file_ok ni (lf_dir (Lf_data s3)) (?c\<lparr>lfdblock := (lfdblock ?c)[lfbyte ?c := ch], lfdbdirty := True\<rparr>) (disk s2) is2 bs2 fi2 fd2
      (put_at (unat (lfpos ?c)) ch xs)"
    by (rule file_put [OF F2(1)[THEN conjunct1] F2(2,3) p2 z s3(8,9)]) (simp add: P(1) s3(10))
  then have f4: "file_ok ni (lf_dir (Lf_data s4)) (lfltab s4 m) (disk s4) is2 bs2 fi2 fd2 (put_at p ch xs)"
    unfolding s4(1-3) P(1) file_ok_moved .
  have a4: "at_pos (lfltab s4 m) bs2" using N(1) s4(2) by (simp add: at_pos_def)
  have o4: "other_state m (upd_sem (lfmutex (lfltab s m)) (\<lambda>e. e\<lparr>scount := scount e - 1\<rparr>) s) s4"
    using K2(2) s4 by (simp add: other_state_def)
  have l4: "p + 1 \<le> length (put_at p ch xs)" using P(2) by (simp add: length_put_at)
  have "\<exists>s'. release m OK s4 = Some (Ret OK, s') \<and> open_file ni m s' (put_at p ch xs) (p + 1) fi2 fd2 \<and> other_state m s s'"
    by (rule unlock_file [OF O k4 o4 _ _ _ _ l4 _ _ f4 a4])
      (use s3 s4 K2 dk N(2) P(1) F2(3) in \<open>simp_all add: dsync_def\<close>)
  moreover have "lflputc_byte m ch s2 = release m OK s4" by (simp add: lflputc_byte_def Let_def s3_def s4_def)
  ultimately show ?thesis by auto
qed

lemma lflputc_refines:
  assumes O: "open_file ni (dvminor devptr) s xs p fi fd" and z: "length xs + 1 < 4294967296"
    and room: "p = length xs \<Longrightarrow> fi \<noteq> [] \<and> fd \<noteq> []"
  shows "\<exists>s' fi' fd'. lflputc dk devptr ch s = Some (Ret OK, s') \<and>
    open_file ni (dvminor devptr) s' (put_at p ch xs) (p + 1) fi' fd' \<and> other_state (dvminor devptr) s s'"
proof -
  define m where "m = dvminor devptr"
  note O = O[folded m_def]
  let ?c = "lfltab s m" and ?j = "lfmutex (lfltab s m)"
  define s1 where "s1 = upd_sem ?j (\<lambda>e. e\<lparr>scount := scount e - 1\<rparr>) s"
  have e1: "Lf_data s1 = Lf_data s" "lfltab s1 = lfltab s" "disk s1 = disk s" "currpid s1 = currpid s"
    by (simp_all add: s1_def)
  obtain "is" bs where F: "fok ni m s1 is bs fi fd xs" "at_pos ?c bs" "dsync ?c (disk s)"
    and P: "unat (lfpos ?c) = p" "p \<le> length xs" "lfbyte ?c \<le> 512"
    using O unfolding open_file_def e1 by blast
  have st: "lfstate ?c = LF_USED" "unat (ld_size (dirent s (lfdirptr ?c))) = length xs" using F(1) by (simp_all add: file_ok_unfold e1)
  note L = lock_file [OF O, folded s1_def]
  note byte = lflputc_byte_ok [OF O z, folded s1_def]
  have g: "lflputc dk devptr ch s = lflputc_end dk m ch s1"
    using L(1) e1(4) by (simp add: lflputc_def when_current_def m_def)
  have os: "other_state m s1 s1" by (simp add: other_state_def)
  have use_end: "lflputc_end dk m ch s1 = (if lfbyte ?c \<ge> 512 then do {
        (r, s2) \<leftarrow> lfsetup dk m s1; case r of Ret _ \<Rightarrow> when_current (currpid s) (lflputc_byte m ch) s2 | _ \<Rightarrow> Some (r, s2) }
      else lflputc_byte m ch s1)"
    using st P(1,2) by (simp add: lflputc_end_def Let_def e1 word_less_nat_alt)
  show ?thesis
  proof (cases "lfbyte ?c \<ge> 512")
    case False
    then show ?thesis using byte [OF F(1) _ _ L(2) os, of ch] F g use_end by (auto simp: e1 m_def)
  next
    case 512: True
    have k1: "sem_free s1 (lf_mutex (Lf_data s1))" using L(3) by (simp add: e1)
    have f1: "dsync (lfltab s1 m) (disk s1)" "unat (lfpos (lfltab s1 m)) \<le> length xs"
      "unat (lfpos (lfltab s1 m)) = length xs \<Longrightarrow> fi \<noteq> [] \<and> fd \<noteq> []" using F(3) P room by (simp_all add: e1)
    obtain s2 is2 bs2 fi2 fd2 where s2: "lfsetup dk m s1 = Some (Ret OK, s2)" "kinv s2" "other_state m s1 s2"
      "fok ni m s2 is2 bs2 fi2 fd2 xs" "at_pos (lfltab s2 m) bs2" "lfbyte (lfltab s2 m) < 512" "same_pos (lfltab s1 m) (lfltab s2 m)"
      "lf_mutex (Lf_data s2) = lf_mutex (Lf_data s1)" "lfmutex (lfltab s2 m) = lfmutex (lfltab s1 m)"
      "unat (lfpos (lfltab s1 m)) < length xs \<Longrightarrow> dsync (lfltab s2 m) (disk s2)"
      using lfsetup_ok [OF L(2) k1 F(1) f1] by blast
    have "lflputc_end dk m ch s1 = lflputc_byte m ch s2"
      using use_end 512 s2(1,3) by (simp add: when_current_def other_state_def e1)
    then show ?thesis
      using byte [OF s2(4-6,2,3), of ch] s2(7-9) g by (auto simp: e1 m_def same_pos_def)
  qed
qed

lemma lflseek_refines:
  assumes O: "open_file ni (dvminor devptr) s xs p fi fd"
  shows "\<exists>s'. lflseek devptr off s = Some (Ret (if unat off \<le> length xs then OK else SYSERR), s') \<and>
    open_file ni (dvminor devptr) s' xs (if unat off \<le> length xs then unat off else p) fi fd \<and> other_state (dvminor devptr) s s'"
proof -
  define m where "m = dvminor devptr"
  note O = O[folded m_def]
  let ?c = "lfltab s m" and ?j = "lfmutex (lfltab s m)"
  define s1 where "s1 = upd_sem ?j (\<lambda>e. e\<lparr>scount := scount e - 1\<rparr>) s"
  have e1: "Lf_data s1 = Lf_data s" "lfltab s1 = lfltab s" "disk s1 = disk s" "currpid s1 = currpid s"
    by (simp_all add: s1_def)
  obtain "is" bs where F: "file_ok ni (lf_dir (Lf_data s)) ?c (disk s) is bs fi fd xs" "at_pos ?c bs" "dsync ?c (disk s)"
    and P: "unat (lfpos ?c) = p" "p \<le> length xs" "lfbyte ?c \<le> 512" and dk: "lf_dskdev (Lf_data s) = dev"
    using O unfolding open_file_def by blast
  have st: "lfstate ?c = LF_USED" "unat (ld_size (dirent s (lfdirptr ?c))) = length xs" using F(1) by (simp_all add: file_ok_unfold)
  note L = lock_file [OF O, folded s1_def]
  have os: "other_state m s1 s1" by (simp add: other_state_def)
  have g: "lflseek devptr off s = lflseek_end m off s1"
    using L(1) e1(4) by (simp add: lflseek_def when_current_def m_def)
  show ?thesis
  proof (cases "unat off \<le> length xs")
    case False
    then have "lflseek_end m off s1 = release m SYSERR s1"
      using st by (simp add: lflseek_end_def Let_def e1 word_less_nat_alt)
    moreover have "\<exists>s'. release m SYSERR s1 = Some (Ret SYSERR, s') \<and> open_file ni m s' xs p fi fd \<and> other_state m s s'"
      using F P L(2) os dk by (intro unlock_file [OF O, folded s1_def, where bs = bs]) (simp_all add: e1)
    ultimately show ?thesis using False g by (auto simp: m_def)
  next
    case True
    let ?s3 = "upd_lfl m (\<lambda>c. c\<lparr>lfpos := off, lfbyte := 512\<rparr>) s1"
    have k: "kinv ?s3" using L(2) by (subst kinv_same_tables [of ?s3 s1]) (simp_all add: upd_lfl_def)
    have o: "other_state m s1 ?s3" by (simp add: other_state_def upd_lfl_def)
    have f: "file_ok ni (lf_dir (Lf_data s)) (?c\<lparr>lfpos := off, lfbyte := 512\<rparr>) (disk s) is bs fi fd xs"
      using F(1) by (simp only: file_ok_moved)
    have "lflseek_end m off s1 = release m OK ?s3"
      using True st by (simp add: lflseek_end_def Let_def e1 word_less_nat_alt)
    moreover have "\<exists>s'. release m OK ?s3 = Some (Ret OK, s') \<and> open_file ni m s' xs (unat off) fi fd \<and> other_state m s s'"
      using F P k o dk f True
      by (intro unlock_file [OF O, folded s1_def, where bs = bs and isx = "is"]) (simp_all add: e1 dsync_def at_pos_def)
    ultimately show ?thesis using True g by (auto simp: m_def)
  qed
qed

end

section \<open>Whole reads, and what was written is read back\<close>

text \<open>\<open>fill\<close> puts a list of bytes at an address.\<close>

fun fill :: "addr \<Rightarrow> u8 list \<Rightarrow> (addr \<Rightarrow> u8) \<Rightarrow> addr \<Rightarrow> u8" where
  "fill a [] M = M"
| "fill a (b # bs) M = fill (a + 1) bs (M(a := b))"

lemma fill_other: "(\<And>q. q < length bs \<Longrightarrow> x \<noteq> a + of_nat q) \<Longrightarrow> fill a bs M x = M x"
proof (induction bs arbitrary: a M)
  case (Cons b bs)
  have "x \<noteq> a" using Cons.prems [of 0] by simp
  moreover have "x \<noteq> a + 1 + of_nat q" if "q < length bs" for q using Cons.prems [of "Suc q"] that by (simp add: add.assoc)
  ultimately have "fill (a + 1) bs (M(a := b)) x = (M(a := b)) x" by (intro Cons.IH) simp
  with \<open>x \<noteq> a\<close> show ?case by simp
qed simp

lemma fill_nth: "length bs \<le> 4294967296 \<Longrightarrow> q < length bs \<Longrightarrow> fill a bs M (a + of_nat q) = bs ! q"
proof (induction bs arbitrary: a M q)
  case (Cons b bs)
  show ?case
  proof (cases q)
    case 0
    have "a \<noteq> a + 1 + of_nat q'" if "q' < length bs" for q'
    proof -
      have "unat (1 + of_nat q' :: u32) = Suc q'"
        using Cons.prems(1) that by (simp add: unat_word_ariths unat_of_nat)
      then have "(1 + of_nat q' :: u32) \<noteq> 0" by auto
      then show ?thesis by (simp add: add.assoc)
    qed
    from fill_other [of bs a "a + 1", OF this] 0 show ?thesis by simp
  next
    case (Suc q')
    have "fill (a + 1) bs (M(a := b)) (a + 1 + of_nat q') = bs ! q'" by (rule Cons.IH) (use Cons.prems Suc in simp_all)
    with Suc show ?thesis by (simp add: add.assoc)
  qed
qed simp

context block_disk
begin

lemma open_file_mem: "open_file ni m (s\<lparr>mem := M\<rparr>) xs p fi fd = open_file ni m s xs p fi fd"
proof -
  have "kinv (s\<lparr>mem := M\<rparr>) = kinv s" by (rule kinv_same_tables) simp_all
  then show ?thesis by (simp add: open_file_def sem_free_def)
qed

lemma lflread_loop_reads:
  assumes "open_file ni (dvminor devptr) s xs p fi fd" "0 \<le> r"
  shows "\<exists>s' fi' fd'. lflread_loop n dk devptr buff r s =
      Some (Ret (if length xs - p < n \<and> r + int (min n (length xs - p)) = 0 then EOF else r + int (min n (length xs - p))), s') \<and>
    open_file ni (dvminor devptr) s' xs (p + min n (length xs - p)) fi' fd' \<and>
    mem s' = fill buff (take n (drop p xs)) (mem s) \<and> other_state (dvminor devptr) (s\<lparr>mem := mem s'\<rparr>) s'"
  using assms
proof (induction n arbitrary: buff r s p fi fd)
  case 0
  then show ?case by (auto simp: other_state_def)
next
  case (Suc n)
  let ?m = "dvminor devptr"
  obtain s1 fi1 fd1 where g: "lflgetc dk devptr s = Some (Ret (if p < length xs then uint (xs ! p) else EOF), s1)"
    "open_file ni ?m s1 xs (if p < length xs then p + 1 else p) fi1 fd1" "other_state ?m s s1"
    using lflgetc_refines [OF Suc.prems(1)] by blast
  show ?case
  proof (cases "p < length xs")
    case False
    then show ?thesis using g Suc.prems(2) by (auto simp: other_state_def)
  next
    case True
    let ?x = "xs ! p" and ?s = "s1\<lparr>mem := (mem s1)(buff := xs ! p)\<rparr>"
    have "open_file ni ?m ?s xs (p + 1) fi1 fd1" using g(2) True by (simp add: open_file_mem)
    moreover have "0 \<le> r + 1" using Suc.prems(2) by simp
    ultimately obtain s' fi' fd' where
      i: "lflread_loop n dk devptr (buff + 1) (r + 1) ?s =
        Some (Ret (if length xs - (p + 1) < n \<and> r + 1 + int (min n (length xs - (p + 1))) = 0 then EOF
          else r + 1 + int (min n (length xs - (p + 1)))), s')"
      "open_file ni ?m s' xs (p + 1 + min n (length xs - (p + 1))) fi' fd'"
      "mem s' = fill (buff + 1) (take n (drop (p + 1) xs)) (mem ?s)" "other_state ?m (?s\<lparr>mem := mem s'\<rparr>) s'"
      using Suc.IH [of ?s "p + 1" fi1 fd1 "r + 1" "buff + 1"] by blast
    have u: "uint ?x \<noteq> - 1" "uint ?x \<noteq> - 2" using unsigned_greater_eq [of ?x, where ?'a = int] by linarith+
    have "lflread_loop (Suc n) dk devptr buff r s = lflread_loop n dk devptr (buff + 1) (r + 1) ?s"
      using g(1) True u by simp
    moreover have m: "Suc n - 1 = n" "min (Suc n) (length xs - p) = Suc (min n (length xs - (p + 1)))" using True by simp_all
    moreover have "drop p xs = ?x # drop (p + 1) xs" using True by (simp add: Cons_nth_drop_Suc)
    ultimately show ?thesis
      using i g(3) Suc.prems(2) by (intro exI [of _ s'] exI [of _ fi'] exI [of _ fd']) (simp add: other_state_def add.assoc)
  qed
qed

end

section \<open>Files on the RAM disk\<close>

text \<open>
  \<open>ram_file m s xs p fi fd\<close>: control block \<open>m\<close> has open, at position \<open>p\<close>, a file on the RAM disk
  whose bytes are \<open>xs\<close>; \<open>fi\<close> and \<open>fd\<close> are the free index and data blocks.
\<close>

definition ram_file :: "int \<Rightarrow> (ramdisk, 'a) fss \<Rightarrow> u8 list \<Rightarrow> nat \<Rightarrow> int list \<Rightarrow> int list \<Rightarrow> bool" where
  "ram_file m s xs p fi fd \<longleftrightarrow> (\<exists>ni. ram.open_file ni m s xs p fi fd)"

lemma ram_file_length: "ram_file m s xs p fi fd \<Longrightarrow> length xs < 4294967296 \<and> p \<le> length xs"
proof -
  assume "ram_file m s xs p fi fd"
  then obtain "is" bs ni where "ram.file_ok ni (lf_dir (Lf_data s)) (lfltab s m) (disk s) is bs fi fd xs" "p \<le> length xs"
    unfolding ram_file_def ram.open_file_def by blast
  then show ?thesis unfolding ram.file_ok_unfold using unat_lt_2p32 by metis
qed


text \<open>
  C38: Writing a byte to an open file returns OK: it replaces the byte at the position, or at the
  end makes the file one byte longer, for which a free index block and a free data block are
  needed at most; the position moves on and no other byte of the file changes.
\<close>

theorem lflputc_writes:
  assumes "ram_file (dvminor devptr) s xs p fi fd" "length xs < 4294967295" "p = length xs \<longrightarrow> fi \<noteq> [] \<and> fd \<noteq> []"
  shows "\<exists>s' fi' fd'. lflputc ram_dev devptr ch s = Some (Ret OK, s') \<and>
    ram_file (dvminor devptr) s' (take p xs @ [ch] @ drop (p + 1) xs) (p + 1) fi' fd' \<and>
    semtab s' = semtab s \<and> mem s' = mem s \<and> (\<forall>n. n \<noteq> dvminor devptr \<longrightarrow> lfltab s' n = lfltab s n)"
proof -
  obtain ni where O: "ram.open_file ni (dvminor devptr) s xs p fi fd" using assms(1) by (auto simp: ram_file_def)
  have "put_at p ch xs = take p xs @ [ch] @ drop (p + 1) xs"
    using ram_file_length [OF assms(1)] by (auto simp: put_at_def upd_conv_take_nth_drop)
  with ram.lflputc_refines [OF O, of ch] assms(2,3) show ?thesis
    by (auto simp: ram_file_def ram.other_state_def)
qed

text \<open>
  C39: A byte written to an open file is read back after seeking to where it was written.
\<close>

theorem write_seek_read:
  assumes "ram_file (dvminor devptr) s xs (unat off) fi fd" "length xs < 4294967295"
    "unat off = length xs \<longrightarrow> fi \<noteq> [] \<and> fd \<noteq> []"
  shows "\<exists>s1 s2 s3. lflputc ram_dev devptr ch s = Some (Ret OK, s1) \<and> lflseek devptr off s1 = Some (Ret OK, s2) \<and>
    lflgetc ram_dev devptr s2 = Some (Ret (uint ch), s3)"
proof -
  let ?m = "dvminor devptr"
  let ?ys = "put_at (unat off) ch xs"
  note p = ram_file_length [OF assms(1), THEN conjunct2]
  have l: "unat off < length ?ys" "?ys ! unat off = ch"
    using put_at_nth [OF p, of "unat off" ch] by (simp_all add: length_put_at [OF p])
  obtain ni where O: "ram.open_file ni ?m s xs (unat off) fi fd" using assms(1) by (auto simp: ram_file_def)
  obtain s1 fi1 fd1 where 1: "lflputc ram_dev devptr ch s = Some (Ret OK, s1)" "ram.open_file ni ?m s1 ?ys (unat off + 1) fi1 fd1"
    using ram.lflputc_refines [OF O, of ch] assms(2,3) by auto
  obtain s2 where 2: "lflseek devptr off s1 = Some (Ret OK, s2)" "ram.open_file ni ?m s2 ?ys (unat off) fi1 fd1"
    using ram.lflseek_refines [OF 1(2), of off] l(1) by auto
  show ?thesis using 1(1) 2(1) ram.lflgetc_refines [OF 2(2)] l by auto
qed

end
