(* ===== verification/Examples.thy ===== *)
theory Examples
  imports Boot Heap
begin

text \<open>
  Concrete kernels built from the tables of \<open>Boot\<close>: the null process (priority 0) and two more
  processes of priority 20. In \<open>ex_idle\<close> the null process runs and the others are suspended;
  in \<open>ex_ready\<close> process 1 is ready, in \<open>ex_run\<close> it runs; in \<open>ex_wait\<close> it waits on semaphore 0,
  in \<open>ex_sleep\<close> it sleeps for 5 ms. All of them satisfy the kernel invariant, and the theorems
  are applied to them.
\<close>

definition ex_proc :: procent where
  "ex_proc = \<lparr>prstate = PR_FREE, prprio = 0, prstkptr = 0, prstkbase = 0, prstklen = 0,
     prname = replicate 16 0, prsem = -1, prparent = 0, prmsg = 0, prhasmsg = 0,
     prdesc = replicate 5 0, prheaphd = 0, prcbvalid = 0, prcbptr = 0, prmbufptr = 0,
     prtmpbuf = 0, prtmpvalid = 0\<rparr>"

definition ex_blank :: kstate where
  "ex_blank = \<lparr>mem = \<lambda>_. 0, memlist_at = 0x1000, minheap = 0x2000, maxheap = 0x8000,
     memblockkflag = 0, queuetab = \<lambda>_. \<lparr>qkey = 0, qnext = -1, qprev = -1\<rparr>, nextqid = 100,
     readylist = 0, sleepq = 0,
     proctab = (\<lambda>_. ex_proc)(0 := ex_proc\<lparr>prstate := PR_CURR\<rparr>,
       1 := ex_proc\<lparr>prstate := PR_SUSP, prprio := 20\<rparr>, 2 := ex_proc\<lparr>prstate := PR_SUSP, prprio := 20\<rparr>),
     prcount = 3, currpid = 0, nextpid = 1, rnextpid = 1,
     semtab = \<lambda>_. \<lparr>sstate = S_FREE, scount = 0, squeue = 0\<rparr>, nextsem = 0,
     ndefers = 0, attempt = False, preempt = 2, count1000 = 1000, clktime = 0,
     text_seg = 0x100000, etext_seg = 0x200000\<rparr>"

definition ex_idle :: kstate where "ex_idle = boot_tables ex_blank"

lemma ex_idle_running: "running ex_idle (\<lambda>_. [])"
  unfolding ex_idle_def by (rule boot_tables_running) (auto simp: ex_blank_def ex_proc_def)

lemma boot_tables_nextsem [simp]: "nextsem (boot_tables s) = nextsem s"
proof -
  have "nextsem (snd (newqueue t)) = nextsem t" for t :: "'a ks"
    by (simp add: newqueue_def upd_q_def Let_def)
  moreover have "nextsem (init_semtab s) = nextsem s"
    unfolding init_semtab_def
    by (rule for_range_field) (simp add: upd_sem_def newqueue_def upd_q_def Let_def split_beta)
  ultimately show ?thesis by (simp add: boot_tables_def init_ready_def clkinit_def Let_def split_beta)
qed

lemma ex_idle_fields [simp]:
  "readylist ex_idle = 300" "sleepq ex_idle = 302" "nextqid ex_idle = 304" "currpid ex_idle = 0"
  "ndefers ex_idle = 0" "nextsem ex_idle = 0"
  "proctab ex_idle = (\<lambda>_. ex_proc)(0 := ex_proc\<lparr>prstate := PR_CURR\<rparr>,
       1 := ex_proc\<lparr>prstate := PR_SUSP, prprio := 20\<rparr>, 2 := ex_proc\<lparr>prstate := PR_SUSP, prprio := 20\<rparr>)"
  using boot_tables_ok [of ex_blank] by (simp_all add: ex_idle_def ex_blank_def)

lemma ex_idle_sem: "i \<in> {0..<NSEM} \<Longrightarrow> sstate (semtab ex_idle i) = S_FREE \<and>
    scount (semtab ex_idle i) = 0 \<and> squeue (semtab ex_idle i) = NPROC + 2 * i"
  using boot_tables_ok [of ex_blank] init_semtab_ok [of ex_blank]
  by (simp add: ex_idle_def) (simp add: ex_blank_def)

lemma ex_idle_kinv: "kinv ex_idle"
  by (rule running_kinv [OF ex_idle_running])

lemma qids_304: "x \<in> qids 304 \<longleftrightarrow> 100 \<le> x \<and> x < 304 \<and> even x"
  by (simp add: qids_def)

text \<open>Queueing process 1, and the kernel invariant of the result.\<close>

lemma ex_place:
  assumes s: "s = ex_idle\<lparr>proctab := (proctab ex_idle)(1 := e), semtab := st\<rparr>"
    and st: "\<And>i. squeue (st i) = squeue (semtab ex_idle i)"
    and q: "q \<in> qids 304" and qt: "qrep qt 304 ((\<lambda>_. [])(q := [1]))"
    and me: "\<And>r. r \<in> qids 304 \<Longrightarrow> belongs s e r \<longleftrightarrow> r = q"
    and w: "prstate e = PR_WAIT \<Longrightarrow> 0 \<le> prsem e \<and> prsem e < NSEM"
    and k: "q = 302 \<Longrightarrow> 0 \<le> qkey (qt 1)" and pr: "prprio e = 20" and c: "prstate e \<noteq> PR_CURR"
    and so: "\<And>i. i \<in> {0..<NSEM} \<Longrightarrow> length (((\<lambda>_. [])(q := [1::int])) (squeue (st i))) =
      (if sstate (st i) = S_USED then nat (- scount (st i)) else 0)"
  shows "running (s\<lparr>queuetab := qt\<rparr>) ((\<lambda>_. [])(q := [1]))"
proof -
  let ?s = "s\<lparr>queuetab := qt\<rparr>" and ?Q = "(\<lambda>_. [])(q := [1::int])"
  have K: "kbase {} ex_idle (\<lambda>_. [])" using ex_idle_running by (simp add: running_def)
  have b: "belongs ex_idle e = belongs s e"
    by (intro ext belongs_cong) (use s st in auto)
  have "kbase {} ?s ?Q"
  proof (rule kbase_move [OF K, where e = e and p = 1 and qt = qt])
    show "1 \<in> set (?Q r) \<longleftrightarrow> 1 \<notin> {} \<and> belongs ex_idle e r" if "r \<in> qids (nextqid ex_idle)" for r
      using me [of r] that b by simp
  qed (use s qt st w k pr c in \<open>auto simp: key_order_def ex_proc_def split: if_splits\<close>)
  moreover have "sem_ok ?s ?Q" using so s by (simp add: sem_ok_def)
  ultimately show ?thesis using s by (simp add: running_def ex_proc_def)
qed

lemma ex_enqueue:
  assumes "q \<in> qids 304" "prstate e \<noteq> PR_FREE"
  obtains qt where
    "enqueue 1 q (ex_idle\<lparr>proctab := (proctab ex_idle)(1 := e), semtab := st\<rparr>) =
       (1, ex_idle\<lparr>proctab := (proctab ex_idle)(1 := e), semtab := st, queuetab := qt\<rparr>)"
    "qrep qt 304 ((\<lambda>_. [])(q := [1]))" "\<forall>x. qkey (qt x) = qkey (queuetab ex_idle x)"
proof -
  let ?s = "ex_idle\<lparr>proctab := (proctab ex_idle)(1 := e), semtab := st\<rparr>"
  have R: "qrep (queuetab ?s) (nextqid ?s) (\<lambda>_. [])"
    using ex_idle_running by (simp add: running_def kbase_def)
  have p: "\<not> isbadpid 1 ?s" "in_no_queue 1 (nextqid ?s) (\<lambda>_. [])" "q \<in> qids (nextqid ?s)"
    using assms by (simp_all add: isbadpid_def in_no_queue_def)
  show ?thesis by (rule enqueue_qrep [OF R p(3,1,2)]) (rule that, simp_all)
qed

text \<open>Process 1 waits on semaphore 0.\<close>

definition ex_wait :: kstate where
  "ex_wait = snd (enqueue 1 100 (ex_idle\<lparr>proctab := (proctab ex_idle)(1 := ex_proc\<lparr>prstate := PR_WAIT, prprio := 20, prsem := 0\<rparr>),
     semtab := (semtab ex_idle)(0 := \<lparr>sstate = S_USED, scount = -1, squeue = 100\<rparr>)\<rparr>))"

lemma ex_wait_running: "running ex_wait ((\<lambda>_. [])(100 := [1]))"
  and ex_wait_fields [simp]: "semtab ex_wait 0 = \<lparr>sstate = S_USED, scount = -1, squeue = 100\<rparr>"
    "nextqid ex_wait = 304" "currpid ex_wait = 0"
proof -
  let ?e = "ex_proc\<lparr>prstate := PR_WAIT, prprio := 20, prsem := 0\<rparr>"
  let ?st = "(semtab ex_idle)(0 := \<lparr>sstate = S_USED, scount = -1, squeue = 100\<rparr>)"
  let ?s = "ex_idle\<lparr>proctab := (proctab ex_idle)(1 := ?e), semtab := ?st\<rparr>"
  have sq: "?st i = (semtab ex_idle i) \<or> i = 0" for i by simp
  obtain qt where q: "enqueue 1 100 ?s = (1, ?s\<lparr>queuetab := qt\<rparr>)" "qrep qt 304 ((\<lambda>_. [])(100 := [1]))"
    by (rule ex_enqueue [of 100 ?e ?st]) (simp_all add: qids_304)
  have e: "ex_wait = ?s\<lparr>queuetab := qt\<rparr>" using q(1) by (simp add: ex_wait_def)
  show "running ex_wait ((\<lambda>_. [])(100 := [1]))"
    unfolding e
  proof (rule ex_place [OF refl _ _ q(2)])
    show "squeue (?st i) = squeue (semtab ex_idle i)" for i using ex_idle_sem [of 0] by simp
    show "belongs ?s ?e r \<longleftrightarrow> r = 100" for r by (simp add: belongs_def)
    show "length (((\<lambda>_. [])(100 := [1::int])) (squeue (?st i))) =
      (if sstate (?st i) = S_USED then nat (- scount (?st i)) else 0)" if "i \<in> {0..<NSEM}" for i
      using ex_idle_sem [OF that] that by simp
  qed (simp_all add: qids_304 ex_proc_def)
  show "semtab ex_wait 0 = \<lparr>sstate = S_USED, scount = -1, squeue = 100\<rparr>" "nextqid ex_wait = 304"
    "currpid ex_wait = 0" unfolding e by simp_all
qed

lemma ex_wait_kinv: "kinv ex_wait" by (rule running_kinv [OF ex_wait_running])

lemma ex_wait_queue: "queue_list (queuetab ex_wait) 100 = [1]"
  using running_kinvD [OF ex_wait_running, of 100] by (simp add: qids_304)

text \<open>Process 1 is ready.\<close>

definition ex_ready :: kstate where
  "ex_ready = snd (the (insertq 1 300 20 (upd_proc 1 (\<lambda>p. p\<lparr>prstate := PR_READY\<rparr>) ex_idle)))"

lemma ex_ready_running: "running ex_ready ((\<lambda>_. [])(300 := [1]))"
  and ex_ready_fields [simp]: "nextqid ex_ready = 304" "currpid ex_ready = 0" "readylist ex_ready = 300"
    "sleepq ex_ready = 302" "ndefers ex_ready = 0" "nextsem ex_ready = 0"
    "semtab ex_ready = semtab ex_idle" "mem ex_ready = mem ex_idle"
    "proctab ex_ready = (proctab ex_idle)(1 := ex_proc\<lparr>prstate := PR_READY, prprio := 20\<rparr>)"
  and ex_ready_key: "qkey (queuetab ex_ready 1) = 20"
proof -
  let ?s = "upd_proc 1 (\<lambda>p. p\<lparr>prstate := PR_READY\<rparr>) ex_idle"
  have K: "kbase {} ex_idle (\<lambda>_. [])" "sem_ok ex_idle (\<lambda>_. [])"
    using ex_idle_running by (simp_all add: running_def)
  have u: "(1::int) \<in> {0..<NPROC}" "(1::int) \<in> {} \<or> unqueued (prstate (proctab ex_idle 1))"
    by (simp_all add: ex_proc_def)
  obtain qt where q: "insertq 1 300 20 ?s = Some (OK, ?s\<lparr>queuetab := qt\<rparr>)"
    "kbase {} (?s\<lparr>queuetab := qt\<rparr>) ((\<lambda>_. [])(300 := [1]))"
    "\<forall>x. qkey (qt x) = (if x = 1 then 20 else qkey (queuetab ex_idle x))"
    using insert_ready [OF K(1) u refl, of 20] by (auto simp: pri_insert_def ex_proc_def)
  have e: "ex_ready = ?s\<lparr>queuetab := qt\<rparr>" using q(1) by (simp add: ex_ready_def)
  have "sem_ok ex_ready ((\<lambda>_. [])(300 := [1]))" unfolding sem_ok_def
  proof
    fix i assume i: "i \<in> {0..<NSEM}"
    show "length (((\<lambda>_. [])(300 := [1::int])) (squeue (semtab ex_ready i))) =
      (if sstate (semtab ex_ready i) = S_USED then nat (- scount (semtab ex_ready i)) else 0)"
      using ex_idle_sem [OF i] i by (simp add: e)
  qed
  with q(2) show "running ex_ready ((\<lambda>_. [])(300 := [1]))"
    by (simp add: running_def e ex_proc_def)
  show "nextqid ex_ready = 304" "currpid ex_ready = 0" "readylist ex_ready = 300"
    "sleepq ex_ready = 302" "ndefers ex_ready = 0" "nextsem ex_ready = 0"
    "semtab ex_ready = semtab ex_idle" "mem ex_ready = mem ex_idle"
    "proctab ex_ready = (proctab ex_idle)(1 := ex_proc\<lparr>prstate := PR_READY, prprio := 20\<rparr>)"
    "qkey (queuetab ex_ready 1) = 20"
    unfolding e using q(3) by (simp_all add: upd_proc_def ex_proc_def)
qed

lemma ex_ready_kinv: "kinv ex_ready" by (rule running_kinv [OF ex_ready_running])

lemma ex_ready_queue: "queue_list (queuetab ex_ready) 300 = [1]"
  using running_kinvD [OF ex_ready_running, of 300] by (simp add: qids_304)

text \<open>Process 1 runs, the null process is ready.\<close>

definition ex_run :: kstate where
  "ex_run = the (resched ex_ready)"

lemma ex_run_running: "running ex_run ((\<lambda>_. [])(300 := [0]))"
  and ex_run_fields [simp]: "nextqid ex_run = 304" "currpid ex_run = 1" "readylist ex_run = 300"
    "sleepq ex_run = 302" "ndefers ex_run = 0" "semtab ex_run = semtab ex_idle" "nextsem ex_run = 0"
    "mem ex_run = mem ex_idle"
proof -
  let ?Q = "(\<lambda>_. [])(300 := [1::int])"
  note R = runningD [OF ex_ready_running]
  have d: "dlist (queuetab ex_ready) 300 [1]"
    using kbaseD(1) [OF R(1)] qrep_dlist [of "queuetab ex_ready" 304 ?Q 300] by (simp add: qids_304)
  have fk: "firstkey 300 ex_ready = 20"
    using firstkey_Cons [OF d] ex_ready_key by simp
  have cand: "candidates ex_ready ?Q = [1, 0]"
    using ex_ready_key by (simp add: candidates_def pri_insert_def ex_proc_def)
  have nd: "\<not> ndefers ex_ready > 0" by simp
  have sw: "\<not> (prstate (proctab ex_ready (currpid ex_ready)) = PR_CURR \<and>
      prprio (proctab ex_ready (currpid ex_ready)) > firstkey (readylist ex_ready) ex_ready)"
    using fk by (simp add: ex_proc_def)
  obtain s' where r: "resched ex_ready = Some s'" "kbase {} s' (?Q(300 := [0]))"
    "sched_frame ex_ready ?Q s' (?Q(300 := [0]))" "currpid s' = 1" "prstate (proctab s' (currpid s')) = PR_CURR"
    using resched_switch [OF R(1) nd sw] unfolding cand ex_ready_fields list.sel by metis
  have e: "ex_run = s'" using r(1) by (simp add: ex_run_def)
  note f = ops_frameD [OF sched_ops_frame [OF r(3)]]
  show "nextqid ex_run = 304" "currpid ex_run = 1" "readylist ex_run = 300"
    "sleepq ex_run = 302" "ndefers ex_run = 0" "semtab ex_run = semtab ex_idle"
    unfolding e using f(1-5) r(4) by simp_all
  have fr: "s' = ex_ready\<lparr>queuetab := queuetab s', proctab := proctab s', currpid := currpid s',
            preempt := preempt s', attempt := attempt s'\<rparr>"
    using sched_ops_frame [OF r(3)] unfolding ops_frame_def by blast
  show "nextsem ex_run = 0" unfolding e by (subst fr) simp
  show "mem ex_run = mem ex_idle" unfolding e using f(6) by simp
  have so: "sem_ok s' (?Q(300 := [0]))"
    by (rule sem_ok_frame [OF R(2,5) sched_ops_frame [OF r(3)]])
  have "?Q(300 := [0]) = (\<lambda>_. [])(300 := [0])" by simp
  with r so f(5) show "running ex_run ((\<lambda>_. [])(300 := [0]))" unfolding e by (simp add: running_def)
qed

lemma ex_run_kinv: "kinv ex_run" by (rule running_kinv [OF ex_run_running])

text \<open>Process 1 sleeps for 5 ms.\<close>

definition ex_sleep :: kstate where
  "ex_sleep = snd (the (insertd 1 302 5 (ex_idle\<lparr>proctab := (proctab ex_idle)(1 := ex_proc\<lparr>prstate := PR_SLEEP, prprio := 20\<rparr>)\<rparr>)))"

lemma ex_sleep_running: "running ex_sleep ((\<lambda>_. [])(302 := [1]))"
  and ex_sleep_fields [simp]: "nextqid ex_sleep = 304" "currpid ex_sleep = 0" "sleepq ex_sleep = 302"
    "proctab ex_sleep = (proctab ex_idle)(1 := ex_proc\<lparr>prstate := PR_SLEEP, prprio := 20\<rparr>)"
  and ex_sleep_sleepers: "sleepers ex_sleep = [(1, 5)]"
proof -
  let ?e = "ex_proc\<lparr>prstate := PR_SLEEP, prprio := 20\<rparr>"
  let ?s = "ex_idle\<lparr>proctab := (proctab ex_idle)(1 := ?e)\<rparr>"
  have R: "qrep (queuetab ?s) (nextqid ?s) (\<lambda>_. [])"
    using ex_idle_running by (simp add: running_def kbase_def)
  have p: "\<not> isbadpid 1 ?s" "in_no_queue 1 (nextqid ?s) (\<lambda>_. [])" "302 \<in> qids (nextqid ?s)"
    "dins (\<lambda>p. qkey (queuetab ?s p)) 5 [] = ([], [], 5)"
    by (simp_all add: isbadpid_def in_no_queue_def qids_304 ex_proc_def)
  obtain qt where q: "insertd 1 302 5 ?s = Some (OK, ?s\<lparr>queuetab := qt\<rparr>)"
    "qrep qt (nextqid ?s) ((\<lambda>_. [])(302 := [] @ 1 # []))"
    "\<forall>x. qkey (qt x) = dkeys (\<lambda>p. qkey (queuetab ?s p)) 1 5 [] x"
    by (rule insertd_qrep [OF R p(3,1,2) p(4)])
  have e: "ex_sleep = ?s\<lparr>queuetab := qt\<rparr>" using q(1) by (simp add: ex_sleep_def)
  have e2: "?s = ex_idle\<lparr>proctab := (proctab ex_idle)(1 := ?e), semtab := semtab ex_idle\<rparr>" by simp
  have R': "running ex_sleep ((\<lambda>_. [])(302 := [1]))"
    unfolding e
  proof (rule ex_place [OF e2 _ _ _])
    show "belongs ?s ?e r \<longleftrightarrow> r = 302" for r by (simp add: belongs_def)
    show "length (((\<lambda>_. [])(302 := [1::int])) (squeue (semtab ex_idle i))) =
      (if sstate (semtab ex_idle i) = S_USED then nat (- scount (semtab ex_idle i)) else 0)"
      if "i \<in> {0..<NSEM}" for i
      using ex_idle_sem [OF that] that by simp
  qed (use q in \<open>simp_all add: qids_304 ex_proc_def dkeys_def\<close>)
  then show "running ex_sleep ((\<lambda>_. [])(302 := [1]))" .
  show f: "nextqid ex_sleep = 304" "currpid ex_sleep = 0" "sleepq ex_sleep = 302"
    "proctab ex_sleep = (proctab ex_idle)(1 := ?e)" unfolding e by simp_all
  show "sleepers ex_sleep = [(1, 5)]"
    using running_sleepers [OF R'] f(3) q(3) by (simp add: e dkeys_def)
qed

lemma ex_sleep_kinv: "kinv ex_sleep" by (rule running_kinv [OF ex_sleep_running])

text \<open>
  A heap with one free block of 256 bytes at \<open>0x2000\<close>; in \<open>ex_heap_used\<close> a second piece, 16
  bytes at \<open>0x3000\<close>, is the node that records the 64 bytes at \<open>0x4000\<close>. The list header of
  the current process is at address 0.
\<close>

definition ex_heap :: kstate where
  "ex_heap = ex_idle\<lparr>mem := wr32 (wr32 (wr32 (\<lambda>_. 0) 0x1000 0x2000) 0x1004 256) 0x2004 256\<rparr>"

definition ex_heap_used :: kstate where
  "ex_heap_used = ex_idle\<lparr>mem := wr32 (wr32 (wr32 (mem ex_heap) 8 0x3000) 0x3000 0x4000) 0x3004 64\<rparr>"

lemma boot_tables_mem [simp]:
  "memlist_at (boot_tables s) = memlist_at s" "minheap (boot_tables s) = minheap s"
  "maxheap (boot_tables s) = maxheap s" "memblockkflag (boot_tables s) = memblockkflag s"
proof -
  have n: "memlist_at (snd (newqueue t)) = memlist_at t" "minheap (snd (newqueue t)) = minheap t"
    "maxheap (snd (newqueue t)) = maxheap t" "memblockkflag (snd (newqueue t)) = memblockkflag t" for t :: "'a ks"
    by (simp_all add: newqueue_def upd_q_def Let_def)
  have i: "memlist_at (init_semtab s) = memlist_at s" "minheap (init_semtab s) = minheap s"
    "maxheap (init_semtab s) = maxheap s" "memblockkflag (init_semtab s) = memblockkflag s"
    unfolding init_semtab_def
    by (rule for_range_field; simp add: upd_sem_def newqueue_def upd_q_def Let_def split_beta)+
  from n i show "memlist_at (boot_tables s) = memlist_at s" "minheap (boot_tables s) = minheap s"
    "maxheap (boot_tables s) = maxheap s" "memblockkflag (boot_tables s) = memblockkflag s"
    by (simp_all add: boot_tables_def init_ready_def clkinit_def Let_def split_beta)
qed

lemma ex_idle_mem [simp]:
  "memlist_at ex_idle = 0x1000" "minheap ex_idle = 0x2000" "maxheap ex_idle = 0x8000"
  "memblockkflag ex_idle = 0"
  by (simp_all add: ex_idle_def) (simp_all add: ex_blank_def)

lemma ex_heap_fields [simp]:
  "memlist_at ex_heap = 0x1000" "minheap ex_heap = 0x2000" "maxheap ex_heap = 0x8000" "memblockkflag ex_heap = 0"
  "currpid ex_heap = 0" "proctab ex_heap = proctab ex_idle"
  "memlist_at ex_heap_used = 0x1000" "minheap ex_heap_used = 0x2000" "maxheap ex_heap_used = 0x8000"
  "memblockkflag ex_heap_used = 0" "currpid ex_heap_used = 0" "proctab ex_heap_used = proctab ex_idle"
  by (simp_all add: ex_heap_def ex_heap_used_def)

lemma ex_heap_inv: "heap_inv ex_heap [(0x2000, 256)] 0 []"
  by (simp add: heap_inv_def heap_ok_def flist_def ulist_def)
    (simp add: ex_heap_def rd32_wr32 aligned4_def)

lemma ex_heap_used_inv: "heap_inv ex_heap_used [(0x2000, 256)] 0 [(0x3000, 0x4000, 64)]"
  by (simp add: heap_inv_def heap_ok_def flist_def ulist_def)
    (simp add: ex_heap_used_def ex_heap_def rd32_wr32 aligned4_def)

end
