(* ===== verification/Runs.thy ===== *)
theory Runs
  imports Examples Heap
begin

text \<open>
  The theorems of the components applied to the concrete kernels of \<open>Examples\<close>: each example
  discharges the hypotheses of one theorem.
\<close>

section \<open>Scheduler\<close>

lemma ex_ready_keyed: "keyed ex_ready"
  using ex_ready_key by (simp add: keyed_def ex_proc_def)


lemma resched_round_robin_witness:
  "\<exists>s'. resched ex_ready = Some s' \<and> currpid s' = 1 \<and> preempt s' = QUANTUM \<and>
    queue_list (queuetab s') (readylist s') = [0]"
  using resched_round_robin [OF ex_ready_kinv, of 1 "[]"] ex_ready_queue ex_ready_key
  by (simp add: ex_proc_def)

section \<open>Semaphores\<close>

lemma signal_releases_first_witness:
  "\<exists>s'. signal 0 ex_wait = Some (OK, s') \<and> kinv s' \<and>
     prstate (proctab s' 1) \<in> {PR_READY, PR_CURR} \<and>
     queue_list (queuetab s') (squeue (semtab s' 0)) = [] \<and> scount (semtab s' 0) = 0"
  using signal_releases_first [OF ex_wait_kinv, of 0 1 "[]"] ex_wait_queue by simp

section \<open>Time\<close>


lemma ex_run_sleepers: "sleepers ex_run = []"
  using running_sleepers [OF ex_run_running] by simp

lemma sleepms_joins_sleepers_witness:
  "\<exists>s'. sleepms 7 ex_run = Some (OK, s') \<and> kinv s' \<and> prstate (proctab s' 1) = PR_SLEEP \<and>
    sleepers s' = [(1, 7)]"
  using sleepms_joins_sleepers [OF ex_run_kinv, of 7] by (simp add: ex_run_sleepers)


section \<open>More semaphores\<close>

definition ex_sem :: kstate where
  "ex_sem = upd_sem 0 (\<lambda>e. e\<lparr>sstate := S_USED\<rparr>) ex_run"

lemma ex_sem_kinv: "kinv ex_sem"
proof -
  note R = runningD [OF ex_run_running]
  have "kbase {} ex_sem ((\<lambda>_. [])(300 := [0]))"
    unfolding ex_sem_def using kbase_upd_sem [of "\<lambda>e. e\<lparr>sstate := S_USED\<rparr>" "{}" 0 ex_run] R(1) by simp
  moreover have "sem_ok ex_sem ((\<lambda>_. [])(300 := [0]))"
    using R(2) ex_idle_sem by (auto simp: sem_ok_def ex_sem_def)
  ultimately have "running ex_sem ((\<lambda>_. [])(300 := [0]))" using R by (simp add: running_def ex_sem_def)
  then show ?thesis by (rule running_kinv)
qed

lemma ex_sem_fields [simp]:
  "currpid ex_sem = 1" "semtab ex_sem 0 = \<lparr>sstate = S_USED, scount = 0, squeue = 100\<rparr>"
  "queuetab ex_sem = queuetab ex_run" "nextsem ex_sem = 0"
  using ex_idle_sem [of 0] by (simp_all add: ex_sem_def upd_sem_def)

lemma ex_run_queue: "queue_list (queuetab ex_run) 100 = []"
  using running_kinvD [OF ex_run_running, of 100] by (simp add: qids_304)

lemma wait_blocks_at_tail_witness:
  "\<exists>s'. wait_sem 0 ex_sem = Some (OK, s') \<and> kinv s' \<and> currpid s' \<noteq> 1 \<and>
    prstate (proctab s' 1) = PR_WAIT \<and> scount (semtab s' 0) = -1 \<and>
    queue_list (queuetab s') (squeue (semtab s' 0)) = [1]"
  using wait_blocks_at_tail [OF ex_sem_kinv, of 0] by (simp add: ex_run_queue)

lemma signaln_releases_witness:
  "\<exists>s'. signaln 0 3 ex_wait = Some (OK, s') \<and> kinv s' \<and> scount (semtab s' 0) = 2 \<and>
    queue_list (queuetab s') (squeue (semtab s' 0)) = []"
  using signaln_releases [OF ex_wait_kinv, of 0 3] ex_wait_queue by simp

lemma semreset_empties_witness:
  "\<exists>s'. semreset 0 4 ex_wait = Some (OK, s') \<and> kinv s' \<and> scount (semtab s' 0) = 4 \<and>
    queue_list (queuetab s') (squeue (semtab s' 0)) = []"
  using semreset_empties [OF ex_wait_kinv, of 0 4] by simp

lemma semdelete_empties_witness:
  "\<exists>s'. semdelete 0 ex_wait = Some (OK, s') \<and> kinv s' \<and> sstate (semtab s' 0) = S_FREE \<and>
    queue_list (queuetab s') (squeue (semtab s' 0)) = []"
  using semdelete_empties [OF ex_wait_kinv, of 0] by simp

lemma semcreate_takes_free_witness:
  "\<exists>sem s'. semcreate 2 ex_idle = (sem, s') \<and> sem \<in> {0..<NSEM} \<and> sstate (semtab ex_idle sem) = S_FREE \<and>
    sstate (semtab s' sem) = S_USED \<and> scount (semtab s' sem) = 2 \<and> kinv s' \<and> nextsem s' \<in> {0..<NSEM}"
  by (rule semcreate_takes_free [OF ex_idle_kinv, of 2 0]) (use ex_idle_sem [of 0] in simp_all)

lemma semaphore_errors_witness:
  "wait_sem 100 ex_run = Some (SYSERR, ex_run) \<and> signal 100 ex_run = Some (SYSERR, ex_run) \<and>
   signaln 100 1 ex_run = Some (SYSERR, ex_run) \<and> semreset 100 1 ex_run = Some (SYSERR, ex_run) \<and>
   semdelete 100 ex_run = Some (SYSERR, ex_run) \<and> semcount 100 ex_run = SYSERR"
  by (rule semaphore_errors) (simp add: isbadsem_def)

section \<open>Heap\<close>

lemma roundmb_64 [simp]: "roundmb 64 = 64" "roundmb 60 = 64" "roundmb 512 = 512"
  by (simp_all add: roundmb_def)

lemma ex_alloc: "alloc 64 [(0x2000, 256)] = Some (0x2000, [(0x2040, 192)])"
  "alloc 16 [(0x2040, 192)] = Some (0x2040, [(0x2050, 176)])"
  "alloc 512 [(0x2000, 256)] = None" "alloc_top 64 [(0x2000, 256)] = Some (0x20C0, [(0x2000, 192)])"
  by (simp_all add: alloc_def alloc_top_def)

lemma ex_proc_heap: "prheaphd ex_proc = 0"
  by (simp add: ex_proc_def)


lemma getmem_too_large_witness: "getmem 512 ex_heap = Some (SYSERR32, ex_heap)"
  by (rule getmem_too_large [of _ "[(0x2000, 256)]"]) (use ex_heap_inv in \<open>simp_all add: heap_inv_def ex_alloc\<close>)

lemma freemem_returns_block_witness:
  "\<exists>m' bs'. freemem 0x4000 64 ex_heap_used = Some (OK, ex_heap_used\<lparr>mem := m'\<rparr>) \<and>
    heap_inv (ex_heap_used\<lparr>mem := m'\<rparr>) bs' 0 [] \<and>
    bytes_of bs' = bytes_of [(0x2000, 256)] \<union> {0x4000..<0x4040} \<and> total bs' = 320"
  using freemem_returns_block [of ex_heap_used "[(0x2000, 256)]" 0 "[]" "0x3000" "0x4000" 64 "[]" 64]
    ex_heap_used_inv by (simp add: ex_proc_heap)

lemma getmem_freemem_loses_node_witness:
  "\<exists>s1 s2 bs'. getmem 60 ex_heap = Some (0x2000, s1) \<and> freemem 0x2000 60 s1 = Some (OK, s2) \<and>
    heap_inv s2 bs' 0 [] \<and> bytes_of bs' = bytes_of [(0x2000, 256)] - {0x2040..<0x2050} \<and>
    total bs' + 16 = 256"
  using getmem_freemem_loses_node [OF ex_heap_inv, of 60 "0x2000" "[(0x2040, 192)]" "0x2040" "[(0x2050, 176)]"]
  by (simp add: ex_alloc ex_proc_heap)

lemma getstk_last_fit_witness:
  "\<exists>m'. getstk 60 ex_heap = Some (0x20FC, ex_heap\<lparr>mem := m'\<rparr>) \<and>
    heap_ok (ex_heap\<lparr>mem := m'\<rparr>) [(0x2000, 192)]"
  using getstk_last_fit [of ex_heap "[(0x2000, 256)]" 60 "0x20C0" "[(0x2000, 192)]"] ex_heap_inv
  by (simp add: heap_inv_def ex_alloc)

lemma memextract_unlisted_hangs_witness:
  "\<exists>s'. memextract NULL 0x5000 ex_heap_used = Some s' \<and> memextract NULL 0x6000 s' = None"
  by (rule memextract_unlisted_hangs [OF ex_heap_used_inv]) simp_all

end
