(* ===== verification/Runs_Lib.thy ===== *)
theory Runs_Lib
  imports Examples Strings Devices
begin

text \<open>
  The theorems of the string library and of the device switch applied to small memories: two
  strings, a decimal number, and the names of the devices laid out 32 bytes apart.
\<close>

section \<open>Strings\<close>

text \<open>\<open>abcab\<close> at \<open>0x100\<close>, \<open>ca\<close> at \<open>0x200\<close>, a blank and \<open>-42;\<close> at \<open>0x300\<close>.\<close>

definition ex_text :: bytes where
  "ex_text = (\<lambda>_. 0)(0x100 := 97, 0x101 := 98, 0x102 := 99, 0x103 := 97, 0x104 := 98,
     0x200 := 99, 0x201 := 97, 0x300 := 32, 0x301 := 45, 0x302 := 52, 0x303 := 50, 0x304 := 59)"

lemma ex_text_strings:
  "cstr ex_text 0x100 [97, 98, 99, 97, 98]" "cstr ex_text 0x200 [99, 97]"
  "cstr ex_text 0x300 ([32] @ [45] @ digits_of (Suc 1) 42 @ [59])"
  by (simp_all add: ex_text_def)

lemma strcmp_orders_witness:
  "strcmp ex_text 0x100 0x200 = Some (-1) \<and> strcmp ex_text 0x200 0x100 = Some 1"
  using strcmp_orders [OF ex_text_strings(1,2)] strcmp_orders [OF ex_text_strings(2,1)]
  by (simp add: schar_def)

lemma strstr_finds_first_witness: "strstr ex_text 0x100 0x200 = Some 0x102"
  using strstr_finds_first [OF ex_text_strings(1,2)] by simp

lemma ex_text_apart:
  "cbytes 0x400 [99, 97] \<inter> cbytes 0x200 [99, 97] = {}" "range_at 0x400 2 \<inter> range_at 0x200 2 = {}"
  by (simp_all add: cbytes_def range_at_def atMost_Suc lessThan_nat_numeral lessThan_Suc)

lemma strcpy_copies_witness:
  "\<exists>m'. strcpy 0x400 0x200 ex_text = Some m' \<and> cstr m' 0x400 [99, 97] \<and> strlen m' 0x400 = Some 2 \<and>
    m' 0x200 = 99"
proof -
  have "0x200 \<notin> cbytes 0x400 [99, 97]" by (simp add: cbytes_def atMost_Suc)
  moreover have "ex_text 0x200 = 99" by (simp add: ex_text_def)
  ultimately show ?thesis using strcpy_copies [OF ex_text_strings(2) ex_text_apart(1)] by simp metis
qed

lemma memcpy_copies_witness:
  "snd (memcpy 0x400 0x200 2 ex_text) 0x400 = 99 \<and> memcmp (snd (memcpy 0x400 0x200 2 ex_text)) 0x400 0x200 2 = 0"
proof -
  note c = memcpy_copies [of "0x400" 2 "0x200" ex_text]
  have "snd (memcpy 0x400 0x200 2 ex_text) (0x400 + word_of_nat 0) = ex_text (0x200 + word_of_nat 0)"
    by (rule c [THEN conjunct1, rule_format]) (simp_all add: ex_text_apart)
  moreover have "memcmp (snd (memcpy 0x400 0x200 2 ex_text)) 0x400 0x200 2 = 0"
    using c ex_text_apart by simp
  ultimately show ?thesis by (simp add: ex_text_def)
qed


section \<open>The device switch\<close>

lemma bad_device_rejected_witness:
  "dev_read (\<lambda>_ _ _ s. Some (OK, s)) 24 0x100 5 ex_idle = Some (SYSERR, ex_idle)"
  by (rule bad_device_rejected [THEN conjunct2, THEN conjunct2, THEN conjunct2, THEN conjunct1])
    (simp add: isbaddev_def)

text \<open>The names of the devices, 32 bytes apart from \<open>0x1000\<close>; the name asked for is a copy at \<open>0x2000\<close>.\<close>

definition ex_name_at :: "int \<Rightarrow> addr" where "ex_name_at j = 0x1000 + 32 * word_of_int j"

definition ex_names :: "int \<Rightarrow> bytes" where
  "ex_names i a = (let k = (unat a - 0x1000) div 32; b = (unat a - 0x1000) mod 32;
     nm = ascii (dvname (devtab (if k < 24 then int k else i))) in if b < length nm then nm ! b else 0)"

lemma cstr_nth:
  "cstr m p xs \<longleftrightarrow> (\<forall>i < length xs. m (p + word_of_nat i) = xs ! i) \<and> 0 \<notin> set xs \<and>
     m (p + word_of_nat (length xs)) = 0"
proof (induction xs arbitrary: p)
  case (Cons x xs)
  have a: "p + 1 + word_of_nat i = p + word_of_nat (Suc i)" for i by simp
  show ?case unfolding cstr.simps Cons.IH a length_Cons All_less_Suc2 by auto
qed simp

lemma ex_names_at:
  assumes "k \<le> 128" "b < 32"
  shows "ex_names i (0x1000 + 32 * word_of_nat k + word_of_nat b) =
    (let nm = ascii (dvname (devtab (if k < 24 then int k else i))) in if b < length nm then nm ! b else 0)"
proof -
  have "unat (0x1000 + 32 * word_of_nat k + word_of_nat b :: u32) = 0x1000 + (b + 32 * k)"
    using assms by (simp add: unat_word_ariths unat_of_nat)
  then show ?thesis using assms unfolding ex_names_def Let_def by simp
qed

lemma devnames_short: "\<forall>d \<in> set devtab_list. length (ascii (dvname d)) < 32 \<and> 0 \<notin> set (ascii (dvname d))"
  by (simp add: devtab_list_def ascii_def)

lemma ex_names_strings:
  assumes "k \<le> 128" "i \<in> {0..<24}"
  shows "cstr (ex_names i) (0x1000 + 32 * word_of_nat k) (ascii (dvname (devtab (if k < 24 then int k else i))))"
proof -
  have "devtab j \<in> set devtab_list" if j: "0 \<le> j" "j < 24" for j
    using j devtab_length by (simp add: devtab_def)
  then have d: "devtab (if k < 24 then int k else i) \<in> set devtab_list" using assms(2) by simp
  show ?thesis
    unfolding cstr_nth using devnames_short [rule_format, OF d] by (simp add: ex_names_at [OF assms(1)] Let_def)
qed

lemma getdev_finds_wrong_device_witness: "getdev ex_name_at 0x2000 (ex_idle\<lparr>mem := ex_names 3\<rparr>) = 0"
proof (rule trans [OF getdev_finds_wrong_device])
  show "\<forall>j \<in> {0..<24}. cstr (mem (ex_idle\<lparr>mem := ex_names 3\<rparr>)) (ex_name_at j) (ascii (dvname (devtab j)))"
  proof
    fix j :: int
    assume "j \<in> {0..<24}"
    then have "nat j < 24" "0 \<le> j" by auto
    then show "cstr (mem (ex_idle\<lparr>mem := ex_names 3\<rparr>)) (ex_name_at j) (ascii (dvname (devtab j)))"
      using ex_names_strings [of "nat j" 3] by (simp add: ex_name_at_def)
  qed
  show "cstr (mem (ex_idle\<lparr>mem := ex_names 3\<rparr>)) 0x2000 (ascii (dvname (devtab 3)))"
    using ex_names_strings [of 128 3] by simp
qed simp_all

end
