(* ===== verification/Runs_Proc.thy ===== *)
theory Runs_Proc
  imports Examples Messages Processes
begin

text \<open>
  The theorems of messages and of process creation and removal applied to the kernels of
  \<open>Examples\<close>: a suspended and a sleeping receiver, a process with a callback, and a heap that
  has room for one stack.
\<close>

section \<open>Messages\<close>

lemma ex_idle_pid: "\<not> isbadpid 1 ex_idle"
  by (simp add: isbadpid_def ex_proc_def)

lemma send_wakes_nobody_witness:
  "\<exists>s'. send 1 7 ex_idle = Some (OK, s') \<and> prstate (proctab s' 1) = PR_SUSP \<and> prhasmsg (proctab s' 1) = 0 \<and>
    prtmpbuf (proctab s' 1) = 7"
proof -
  obtain s' where s: "send 1 7 ex_idle = Some (OK, s')" "prtmpbuf (proctab s' 1) = 7"
    using ex_idle_pid by (simp add: send_def upd_proc_def ex_proc_def)
  show ?thesis using send_wakes_nobody [OF s(1)] s by (simp add: ex_proc_def)
qed

text \<open>A sleeping process 1 whose stack holds three linked frames below its base \<open>0x5000\<close>.\<close>

definition ex_stack :: kstate where
  "ex_stack = upd_proc 1 (\<lambda>p. p\<lparr>prstkbase := 0x5000, prcbptr := 0x150000\<rparr>)
     (ex_sleep\<lparr>mem := wr32 (wr32 (wr32 (\<lambda>_. 0) 0x4FF8 0x5000) 0x4FF0 0x4FF8) 0x4FE8 0x4FF0\<rparr>)"

lemma All_less_2: "(\<forall>i < 2. P i) \<longleftrightarrow> P 0 \<and> P (Suc 0)"
  using less_2_cases_iff by auto

lemma ex_frame_at:
  assumes "rd32 m (a - 8) = v" "rd32 m a \<noteq> v" "rd32 m (a - 4) \<noteq> v"
  shows "frame_at m a v (a - 8)"
  unfolding frame_at_def using assms by (intro exI [of _ 2]) (simp add: All_less_2)

lemma send_redirects_sleeper_witness:
  "\<exists>s'. send 1 7 ex_stack = Some (OK, s') \<and> rd32 (mem s') 0x4FEC = 0x150003"
proof -
  have m: "rd32 (mem ex_stack) 0x4FF8 = 0x5000" "rd32 (mem ex_stack) 0x5000 = 0" "rd32 (mem ex_stack) 0x4FFC = 0"
    "rd32 (mem ex_stack) 0x4FF0 = 0x4FF8" "rd32 (mem ex_stack) 0x4FF4 = 0" "rd32 (mem ex_stack) 0x4FE8 = 0x4FF0"
    "rd32 (mem ex_stack) 0x4FEC = 0"
    by (simp_all add: ex_stack_def upd_proc_def rd32_wr32 aligned4_def)
  have f: "frame_at (mem ex_stack) (prstkbase (proctab ex_stack 1)) (prstkbase (proctab ex_stack 1)) 0x4FF8"
    "frame_at (mem ex_stack) 0x4FF8 0x4FF8 0x4FF0" "frame_at (mem ex_stack) 0x4FF0 0x4FF0 0x4FE8"
    using ex_frame_at [of "mem ex_stack" "0x5000" "0x5000"] ex_frame_at [of "mem ex_stack" "0x4FF8" "0x4FF8"]
      ex_frame_at [of "mem ex_stack" "0x4FF0" "0x4FF0"] m
    by (simp_all add: ex_stack_def upd_proc_def)
  have "\<not> isbadpid 1 ex_stack" "prtmpvalid (proctab ex_stack 1) = 0" "prstate (proctab ex_stack 1) = PR_SLEEP"
    "prcbptr (proctab ex_stack 1) = 0x150000"
    by (simp_all add: isbadpid_def ex_stack_def upd_proc_def ex_proc_def)
  then show ?thesis using send_redirects_sleeper [OF _ _ _ f, of 7] by simp
qed

text \<open>The running process 1 has a callback and an undelivered message.\<close>

definition ex_called :: kstate where
  "ex_called = upd_proc 1 (\<lambda>p. p\<lparr>prcbvalid := 1, prtmpvalid := 1, prtmpbuf := 9\<rparr>) ex_run"

lemma usercb_keeps_buffer_full_witness:
  "prmbufptr (proctab (usercb ex_called) 1) = 9 \<and> send 1 8 (usercb ex_called) = Some (SYSERR, usercb ex_called)"
proof -
  have c: "currpid ex_called = 1" "prtmpbuf (proctab ex_called 1) = 9" "prcbvalid (proctab ex_called 1) = 1"
    "prtmpvalid (proctab ex_called 1) = 1"
    by (simp_all add: ex_called_def upd_proc_def)
  have "\<not> isbadpid 1 ex_called"
    using runningD(3) [OF ex_run_running] by (simp add: isbadpid_def ex_called_def upd_proc_def)
  then show ?thesis using usercb_keeps_buffer_full [of ex_called 8] c by simp
qed

definition ex_ask :: kstate where
  "ex_ask = upd_proc 1 (\<lambda>p. p\<lparr>prhasmsg := 0\<rparr>) ex_run"

lemma ex_ask_kinv: "kinv ex_ask" "currpid ex_ask = 1" "prhasmsg (proctab ex_ask 1) = 0"
  using ex_run_kinv by (simp_all add: ex_ask_def)

lemma receive_returns_or_blocks_witness:
  "\<exists>s'. receive ex_ask = Some (Blocked, s') \<and> kinv s' \<and> currpid s' \<noteq> 1 \<and> prstate (proctab s' 1) = PR_RECV"
  using receive_returns_or_blocks [OF ex_ask_kinv(1)] by (simp add: ex_ask_kinv(2,3))

section \<open>Processes\<close>

text \<open>One free block of 4096 bytes at \<open>0x2000\<close>.\<close>

definition ex_room :: kstate where
  "ex_room = ex_idle\<lparr>mem := wr32 (wr32 (wr32 (\<lambda>_. 0) 0x1000 0x2000) 0x1004 4096) 0x2004 4096\<rparr>"

lemma ex_room_heap: "heap_ok ex_room [(0x2000, 4096)]"
  by (simp add: heap_ok_def flist_def) (simp add: ex_room_def rd32_wr32 aligned4_def)

lemma kinv_mem: "kinv (s\<lparr>mem := m\<rparr>) = kinv s"
  by (simp add: kinv_def running_def sem_ok_def)

lemma ex_room_kinv: "kinv ex_room" "proctab ex_room = proctab ex_idle"
  using ex_idle_kinv by (simp_all add: ex_room_def kinv_mem)

lemma create_makes_process_witness:
  "\<exists>pid s'. create 0x100010 0x100020 0 20 0x3000 [1, 2] ex_room = Some (pid, s') \<and> kinv s' \<and>
    prstate (proctab s' pid) = PR_SUSP \<and> prprio (proctab s' pid) = 20"
proof -
  have r: "roundmb 400 = 400" by (simp add: roundmb_def)
  have "prstate (proctab ex_room 3) = PR_FREE" by (simp add: ex_room_kinv(2) ex_proc_def)
  moreover have "alloc_top 400 [(0x2000, 4096)] \<noteq> None" by (simp add: alloc_top_def)
  ultimately show ?thesis
    using create_makes_process [OF ex_room_kinv(1) ex_room_heap, of 3 20 0 "0x100010" "0x100020" "0x3000" "[1, 2]"] r
    by auto
qed

lemma create_stack_frame_witness:
  "rd32 (mem (init_stack 3 0x100010 0x100020 [1, 2] 0x2FFC ex_room)) 0x2FFC = STACKMAGIC \<and>
   rd32 (mem (init_stack 3 0x100010 0x100020 [1, 2] 0x2FFC ex_room)) 0x2FF8 = 2"
  using create_stack_frame [of "0x2FFC" "[1, 2]" 3 "0x100010" "0x100020" ex_room]
  by (simp add: aligned4_def) (drule conjunct2, drule conjunct2, drule spec [of _ 0], simp add: frame_words_def)

definition ex_four :: kstate where "ex_four = ex_idle\<lparr>prcount := 4\<rparr>"

lemma ex_four_kinv: "kinv ex_four" "proctab ex_four = proctab ex_idle" "prcount ex_four = 4"
  using ex_idle_kinv by (simp_all add: ex_four_def kinv_def running_def sem_ok_def)



end
