(* ===== verification/Runs_Kernel.thy ===== *)
theory Runs_Kernel
  imports Examples Kernel
begin

text \<open>
  The theorems on reachable states applied to the kernel that starts up with three processes.
\<close>

lemma ex_idle_yields: "\<exists>r t. kcall CYield ex_idle = Some (r, t) \<and> reaches kcall permitted ex_idle t"
proof -
  obtain r t where "kcall CYield ex_idle = Some (r, t)"
    using kern.keeps [OF ex_idle_kinv, of CYield] by auto
  then show ?thesis using reaches.call [OF reaches.here] by (metis permitted.simps(6))
qed


lemma reached_states_consistent_witness:
  "\<exists>r t. kcall CYield ex_idle = Some (r, t) \<and>
    (prstate (proctab t 1) = PR_READY \<longleftrightarrow> 1 \<in> set (queue_list (queuetab t) (readylist t)))"
proof -
  obtain r t where y: "kcall CYield ex_idle = Some (r, t)" "reaches kcall permitted ex_idle t"
    using ex_idle_yields by blast
  show ?thesis using reached_states_consistent [OF ex_idle_kinv y(2), of 1] y(1) by auto
qed

end
