(* ===== verification/Runs_Ipc.thy ===== *)
theory Runs_Ipc
  imports Examples Ports
begin

text \<open>
  The theorems on buffer pools and ports applied to a kernel in which process 1 runs: a pool of
  two buffers at \<open>0x7000\<close>, a port with one message at \<open>0x6000\<close> and one free node, and a second
  port that is full.
\<close>

lemma kinv_use_sem:
  assumes I: "kinv s" and j: "j \<in> {0..<NSEM}" "sstate (semtab s j) = S_FREE" and c: "0 \<le> c"
  shows "kinv (upd_sem j (\<lambda>e. e\<lparr>sstate := S_USED, scount := c\<rparr>) s)"
proof -
  let ?s = "upd_sem j (\<lambda>e. e\<lparr>sstate := S_USED, scount := c\<rparr>) s" and ?Q = "queue_list (queuetab s)"
  note R = runningD [OF kinv_running [OF I]]
  have "kbase {} ?s ?Q" using R(1) by (subst kbase_upd_sem) simp_all
  moreover have "sem_ok_but j ?s ?Q" using R(2) by (simp add: sem_ok_split [OF j(1)])
  moreover have "?Q (squeue (semtab s j)) = []" using bspec [OF R(2) [unfolded sem_ok_def] j(1)] j(2) by simp
  ultimately have "running ?s ?Q" using R(3,4) c by (simp add: running_def sem_ok_split [OF j(1)])
  then show ?thesis by (rule running_kinv)
qed

definition ex_sems :: kstate where
  "ex_sems = upd_sem 3 (\<lambda>e. e\<lparr>sstate := S_USED, scount := 0\<rparr>)
     (upd_sem 2 (\<lambda>e. e\<lparr>sstate := S_USED, scount := 2\<rparr>)
     (upd_sem 1 (\<lambda>e. e\<lparr>sstate := S_USED, scount := 1\<rparr>)
     (upd_sem 0 (\<lambda>e. e\<lparr>sstate := S_USED, scount := 3\<rparr>) ex_run)))"

lemma ex_sems_kinv: "kinv ex_sems"
  unfolding ex_sems_def
  by (intro kinv_use_sem ex_run_kinv) (use ex_idle_sem [of 0] ex_idle_sem [of 1] ex_idle_sem [of 2] ex_idle_sem [of 3] in simp_all)

definition ex_ipc :: ipcstate where
  "ex_ipc = kstate.extend
     (ex_sems\<lparr>mem := wr32 (wr32 (wr32 (wr32 (wr32 (\<lambda>_. 0) 0x6000 11) 0x7000 0x7010) 0x1000 0x2000) 0x1004 4096) 0x2004 4096\<rparr>)
     (ipcstate.fields (\<lambda>_. \<lparr>bpnext = 0x7000, bpsem = 2, bpsize = 12\<rparr>) 1
       (\<lambda>i. \<lparr>ptssem = (if i = 1 then 3 else 0), ptrsem = 1, ptstate = PT_ALLOC, ptmaxcnt = 4, ptseq = 1, pthead = 0x6000, pttail = 0x6000\<rparr>)
       0x6008 5 (\<lambda>_. 0) 0 3)"

lemma ex_ipc_fields [simp]:
  "queuetab ex_ipc = queuetab ex_sems" "nextqid ex_ipc = nextqid ex_sems" "proctab ex_ipc = proctab ex_sems"
  "currpid ex_ipc = currpid ex_sems" "semtab ex_ipc = semtab ex_sems" "readylist ex_ipc = readylist ex_sems"
  "sleepq ex_ipc = sleepq ex_sems" "ndefers ex_ipc = ndefers ex_sems"
  "nbpools ex_ipc = 1" "buftab ex_ipc i = \<lparr>bpnext = 0x7000, bpsem = 2, bpsize = 12\<rparr>"
  "porttab ex_ipc i = \<lparr>ptssem = (if i = 1 then 3 else 0), ptrsem = 1, ptstate = PT_ALLOC, ptmaxcnt = 4, ptseq = 1, pthead = 0x6000, pttail = 0x6000\<rparr>"
  "ptfree ex_ipc = 0x6008" "nextsem ex_ipc = 0" "memlist_at ex_ipc = memlist_at ex_sems"
  "mem ex_ipc = wr32 (wr32 (wr32 (wr32 (wr32 (\<lambda>_. 0) 0x6000 11) 0x7000 0x7010) 0x1000 0x2000) 0x1004 4096) 0x2004 4096"
  by (simp_all add: ex_ipc_def kstate.extend_def ipcstate.fields_def) (simp add: ex_sems_def upd_sem_def)

lemma ex_ipc_kinv: "kinv ex_ipc"
  using ex_sems_kinv by (subst kinv_same_tables [of _ ex_sems]) simp_all

lemma ex_ipc_sems:
  "sstate (semtab ex_sems 0) = S_USED" "scount (semtab ex_sems 0) = 3" "sstate (semtab ex_sems 1) = S_USED"
  "scount (semtab ex_sems 1) = 1" "sstate (semtab ex_sems 3) = S_USED" "scount (semtab ex_sems 3) = 0"
  "currpid ex_sems = 1" "sstate (semtab ex_sems 2) = S_USED" "scount (semtab ex_sems 2) = 2"
  by (simp_all add: ex_sems_def)

lemma ex_ipc_pool: "pool ex_ipc 0 [0x7000, 0x7010]"
  by (simp add: pool_def ex_ipc_sems isbadsem_def) (simp add: rd32_wr32 aligned4_def)

lemma ex_ipc_port: "port ex_ipc 0 [0x6000] [0x6008]" "messages ex_ipc [0x6000] = [11]"
  by (simp_all add: port_def port_list_def messages_def ex_ipc_sems isbadsem_def)
    (simp_all add: rd32_wr32 aligned4_def node_def)

lemma buffer_roundtrip_witness:
  "\<exists>s1 s2. getbuf 0 ex_ipc = Some (Ret 0x7004, s1) \<and> pool s1 0 [0x7010] \<and> freebuf 0x7004 s1 = Some (OK, s2) \<and>
    pool s2 0 [0x7000, 0x7010]"
  using buffer_roundtrip [OF ex_ipc_kinv ex_ipc_pool] by auto

lemma ports_are_fifo_witness:
  "\<exists>s1 s2. ptsend 0 12 ex_ipc = Some (Ret OK, s1) \<and> ptrecv 0 s1 = Some (Ret 11, s2)"
  using ports_are_fifo [OF ex_ipc_kinv ex_ipc_port(1), of 12] by (auto simp: ex_ipc_sems ex_ipc_port(2))


definition ex_pools :: ipcstate where
  "ex_pools = kstate.extend ex_heap
     (ipcstate.fields (\<lambda>_. \<lparr>bpnext = 0, bpsem = 0, bpsize = 0\<rparr>) 0
       (\<lambda>_. \<lparr>ptssem = 0, ptrsem = 0, ptstate = PT_FREE, ptmaxcnt = 0, ptseq = 0, pthead = 0, pttail = 0\<rparr>)
       0 0 (\<lambda>_. 0) 0 0)"

lemma ex_pools_fields [simp]:
  "queuetab ex_pools = queuetab ex_idle" "nextqid ex_pools = nextqid ex_idle" "proctab ex_pools = proctab ex_idle"
  "currpid ex_pools = 0" "semtab ex_pools = semtab ex_idle" "readylist ex_pools = readylist ex_idle"
  "sleepq ex_pools = sleepq ex_idle" "ndefers ex_pools = ndefers ex_idle" "nbpools ex_pools = 0" "nextsem ex_pools = 0"
  "memlist_at ex_pools = 0x1000" "minheap ex_pools = 0x2000" "maxheap ex_pools = 0x8000" "memblockkflag ex_pools = 0"
  "mem ex_pools = mem ex_heap"
  by (simp_all add: ex_pools_def kstate.extend_def ipcstate.fields_def) (simp_all add: ex_heap_def)

lemma ex_pools_inv: "heap_inv ex_pools [(0x2000, 256)] 0 []" "kinv ex_pools"
proof -
  show "heap_inv ex_pools [(0x2000, 256)] 0 []"
    using ex_heap_inv by (simp add: heap_inv_def heap_ok_def flist_def ulist_def)
  show "kinv ex_pools" using ex_idle_kinv by (subst kinv_same_tables [of _ ex_idle]) simp_all
qed

lemma mkbufpool_makes_pool_witness:
  "\<exists>s'. mkbufpool 8 3 ex_pools = Some (0, s') \<and> pool s' 0 [0x2000, 0x200C, 0x2018]"
proof -
  have r: "roundmb 36 = 40" by (simp add: roundmb_def)
  have a: "alloc 40 [(0x2000, 256)] = Some (0x2000, [(0x2028, 216)])" "alloc 16 [(0x2028, 216)] = Some (0x2028, [(0x2038, 200)])"
    by (simp_all add: alloc_def)
  obtain m where g: "getmem 36 ex_pools = Some (0x2000, ex_pools\<lparr>mem := m, memblockkflag := 0\<rparr>)"
    by (rule getmem_inv [OF ex_pools_inv(1), of 36 "0x2000" "[(0x2028, 216)]" "0x2028" "[(0x2038, 200)]"])
      (simp_all add: r a ex_proc_def)
  have b: "buf_addrs 3 12 0x2000 = [0x2000, 0x200C, 0x2018]" by (simp add: buf_addrs_def upt_rec)
  show ?thesis
    using mkbufpool_makes_pool [OF ex_pools_inv(2), where bufsiz = 8 and n = 3 and sz = 12 and buf = "0x2000" and m = m and k = 0 and j = 0] g b ex_idle_sem [of 0]
    by (auto simp: aligned4_def)
qed

end
