(* ===== verification/Runs_Tty.thy ===== *)
theory Runs_Tty
  imports Runs_Ipc Tty_Line
begin

text \<open>
  The theorems on the serial line applied to three lines: line 0 in cooked mode with one finished
  character and two more being edited, line 1 in raw mode with one character, line 2 in cbreak
  mode, and line 3, whose next free slot is the last one.
\<close>

definition ex_line :: ttycblk where
  "ex_line = \<lparr>tyihead = 5, tyitail = 8, tyibuff = (\<lambda>_. 0)(5 := 65, 6 := 97, 7 := 98), tyisem = 1,
     tyohead = 0, tyotail = 0, tyobuff = \<lambda>_. 0, tyosem = 0, tyehead = 0, tyetail = 0, tyebuff = \<lambda>_. 0,
     tyimode = TY_IMCOOKED, tyiecho = True, tyieback = True, tyevis = True, tyecrlf = True, tyicrlf = True,
     tyierase = True, tyierasec = TY_BACKSP, tyierasec2 = TY_BACKSP2, tyeof = True, tyeofch = TY_EOFCH,
     tyikill = True, tyikillc = TY_KILLCH, tyicursor = 2, tyoflow = True, tyoheld = False,
     tyostop = TY_STOPCH, tyostart = TY_STRTCH, tyocrlf = True, tyifullc = TY_FULLCH\<rparr>"

definition ex_lines :: "int \<Rightarrow> ttycblk" where
  "ex_lines = (\<lambda>_. ex_line)
     (1 := ex_line\<lparr>tyitail := 6, tyicursor := 0, tyimode := TY_IMRAW\<rparr>,
      2 := ex_line\<lparr>tyitail := 6, tyicursor := 0, tyimode := TY_IMCBREAK\<rparr>,
      3 := ex_line\<lparr>tyihead := 126, tyitail := 127, tyicursor := 0, tyibuff := (\<lambda>_. 0)(126 := 65)\<rparr>)"

definition ex_tty :: ttystate where
  "ex_tty = kstate.extend ex_sems
     (ttystate.fields ex_lines \<lparr>uier = 0, ulcr = 3, udivisor = 24, ufcr = 135, urx = [], utx = []\<rparr>)"

lemma ex_tty_fields [simp]:
  "ttytab ex_tty = ex_lines" "semtab ex_tty = semtab ex_sems" "ndefers ex_tty = ndefers ex_sems"
  by (simp_all add: ex_tty_def kstate.extend_def ttystate.fields_def)

lemma ex_tty_lines:
  "tty_line ex_tty 0 [65] [97, 98]" "tty_line ex_tty 1 [65] []" "tty_line ex_tty 3 [65] []"
  by (simp_all add: tty_line_def ring_def ex_lines_def ex_line_def isbadsem_def ex_ipc_sems less_Suc_eq numeral_3_eq_3)


lemma raw_input_read_back_witness:
  "\<exists>s1 s2. ttyin_raw 66 1 1 ex_tty = Some s1 \<and> ttygetc ((devtab 0)\<lparr>dvminor := 1\<rparr>) s1 = Some (Ret (schar 65), s2) \<and>
    tty_line s2 1 [66] []"
  using raw_input_read_back [OF ex_tty_lines(2), of "(devtab 0)\<lparr>dvminor := 1\<rparr>" 66]
  by (auto simp: ex_lines_def ex_line_def)

lemma cbreak_input_wakes_nobody_witness:
  "\<exists>s'. ttyin_char 66 2 ex_tty = Some s' \<and> semtab s' = semtab ex_tty"
  using cbreak_input_wakes_nobody [of ex_tty 2 66] by (auto simp: ex_lines_def ex_line_def)

lemma eof_in_last_slot_overruns_witness:
  "\<exists>s'. ttyin_cooked 4 3 ex_tty = Some s' \<and> tyitail (ttytab s' 3) = 128"
  using eof_in_last_slot_overruns [OF ex_tty_lines(3), of 0] by (auto simp: ex_lines_def ex_line_def)

end
