(* ===== verification/Runs_Files.thy ===== *)
theory Runs_Files
  imports Runs_Lib Runs_Ipc Lfs_Bytes
begin

text \<open>The theorems on the name space, the disk and the files applied to concrete states.\<close>

definition ex_nam :: namstate where
  "ex_nam = kstate.extend ex_idle
     (namstate.fields (\<lambda>_. \<lparr>nprefix = \<lambda>_. 0, nreplace = \<lambda>_. 0, ndevice = 0\<rparr>) 0)"

lemma ex_dev_null: "first_rule start_rules (ascii ''/dev/null'') = Some (1, [])"
  by (simp add: start_rules_def device_rule_def ascii_def lower_def schar_def devtab_def devtab_list_def upt_rec numeral_eq_Suc)

lemma names_after_start_witness:
  "\<exists>s' nn. naminit ex_nam = (OK, s') \<and> nammap (lit ''/dev/null'') (\<lambda>_. 0) 3 s' = Some (1, nn) \<and> stored nn []"
proof -
  have "stored (lit ''/dev/null'') (ascii ''/dev/null'')" "length (ascii ''/dev/null'') < 127"
    by (rule stored_lit) (simp_all add: ascii_def)
  from names_after_start [OF this, of ex_nam "\<lambda>_. 0" 3] ex_dev_null show ?thesis by auto
qed

section \<open>The disk\<close>

definition ex_cblk :: lflcblk where
  "ex_cblk = \<lparr>lfstate = LF_FREE, lfdev = 18, lfmutex = 0, lfdirptr = -1, lfmode = 0, lfpos = 0, lfname = \<lambda>_. 0,
     lfinum = -1, lfiblock = lfibclear 0, lfdnum = -1, lfdblock = replicate 512 0, lfbyte = 512,
     lfibdirty = False, lfdbdirty = False\<rparr>"

definition ex_fs :: "ramdisk fsstate" where
  "ex_fs = kstate.extend ex_sems (fsstate.fields
     \<lparr>lf_dskdev = 5, lf_mutex = 1, lf_dir = zero_dir, lf_dirpresent = False, lf_dirdirty = False\<rparr>
     (\<lambda>_. ex_cblk) (\<lambda>_. 0))"

lemma ex_fs_fields [simp]:
  "lf_dskdev (Lf_data ex_fs) = 5" "\<not> lf_dirpresent (Lf_data ex_fs)" "disk ex_fs = (\<lambda>_. 0)"
  by (simp_all add: ex_fs_def kstate.extend_def fsstate.fields_def)

lemma index_block_roundtrip_witness:
  "\<exists>s'. lfibput ram_dev 5 8 ((lfibclear 0)\<lparr>ib_next := 3\<rparr>) ex_fs = (OK, s') \<and>
    lfibget ram_dev 5 8 s' = (lfibclear 0)\<lparr>ib_next := 3\<rparr>"
proof -
  have "iblk_ok ((lfibclear 0)\<lparr>ib_next := 3\<rparr>)" by (simp add: iblk_ok_def lfibclear_def int32_ok_def)
  from index_block_roundtrip [OF _ _ _ _ this, of 8 8 ex_fs] show ?thesis by simp
qed

text \<open>20 sectors, of which one holds seven index blocks.\<close>

lemma new_file_system_refused_witness:
  "\<exists>s'. lfscreate ram_dev 5 7 10240 ex_fs = (OK, s') \<and> count_iblocks ram_dev 5 0 0 s' = Some 7 \<and>
    lfsckfmt ram_dev 5 s' = Some Halted"
proof -
  have "(1::int) = (7 + 6) div 7" "(20::int) = uint (10240 :: u32) div 512" by simp_all
  from new_file_system_refused [OF _ _ this, of ex_fs] show ?thesis by fastforce
qed

section \<open>An open file\<close>

text \<open>The bytes 7, 8 and 9 in data block 2, not yet written; index block 1 and data block 3 are free.\<close>

definition ex_open :: "nat \<Rightarrow> lflcblk" where
  "ex_open p = ex_cblk\<lparr>lfstate := LF_USED, lfmutex := 4, lfdirptr := 0, lfpos := of_nat p, lfinum := 0,
     lfiblock := ib_spec [0] [2] 0, lfdnum := 2, lfdblock := [7, 8, 9] @ replicate 509 0, lfbyte := p,
     lfibdirty := True, lfdbdirty := True\<rparr>"

definition ex_dir :: lfdir where
  "ex_dir = zero_dir\<lparr>lfd_ifree := 1, lfd_dfree := 3, lfd_nfiles := 1,
     lfd_files := (\<lambda>_. \<lparr>ld_size = 3, ld_ilist = 0, ld_name = \<lambda>_. 0\<rparr>)\<rparr>"

definition ex_file :: "nat \<Rightarrow> ramdisk fsstate" where
  "ex_file p = kstate.extend (upd_sem 4 (\<lambda>e. e\<lparr>sstate := S_USED, scount := 1\<rparr>) ex_sems) (fsstate.fields
     \<lparr>lf_dskdev = 5, lf_mutex = 1, lf_dir = ex_dir, lf_dirpresent = True, lf_dirdirty = True\<rparr>
     (\<lambda>_. ex_open p) (\<lambda>_. 255))"

lemma ex_file_fields:
  "lf_dskdev (Lf_data (ex_file p)) = 5" "lf_mutex (Lf_data (ex_file p)) = 1" "lf_dir (Lf_data (ex_file p)) = ex_dir"
  "disk (ex_file p) = (\<lambda>_. 255)" "lfltab (ex_file p) m = ex_open p"
  "semtab (ex_file p) = semtab (upd_sem 4 (\<lambda>e. e\<lparr>sstate := S_USED, scount := 1\<rparr>) ex_sems)"
  by (simp_all add: ex_file_def kstate.extend_def fsstate.fields_def)

lemma ex_file_kinv: "kinv (ex_file p)"
proof -
  have "kinv (upd_sem 4 (\<lambda>e. e\<lparr>sstate := S_USED, scount := 1\<rparr>) ex_sems)"
    by (rule kinv_use_sem [OF ex_sems_kinv]) (use ex_idle_sem [of 4] in \<open>simp_all add: ex_sems_def\<close>)
  then show ?thesis by (subst kinv_same_tables) (simp_all add: ex_file_def kstate.extend_def)
qed

lemma ones_block: "ram_blk (\<lambda>_. 255) b = replicate 512 255"
  unfolding ram_blk_def ram_get_def by (intro nth_equalityI) simp_all

lemma ones_word: "k + 4 \<le> n \<Longrightarrow> get32 (replicate n 255) k = - 1"
  by (simp add: get32_def)

lemma ex_file_blocks: "ram.blocks_ok 1 ex_dir (\<lambda>_. 255) [0] [2] [1] [3]"
proof -
  have "ib_next (ram.ibd (\<lambda>_. 255) 1) = - 1"
    unfolding ram.ibd_def ones_block by (simp add: iblk_of_def ones_word min_def ib2disp_def)
  then show ?thesis
    by (simp add: ram.blocks_ok_def ex_dir_def idx_def ib2sect_def ram.dat_def int32_ok_def ones_block ones_word)
qed

lemma ex_file_ok: "p \<le> 3 \<Longrightarrow> ram_file m (ex_file p) [7, 8, 9] p [1] [3]"
proof -
  assume p: "p \<le> 3"
  have "ram.index_ok ex_dir (ex_open p) (\<lambda>_. 255) [0] [2] [7, 8, 9]"
    by (simp add: ram.index_ok_def ex_dir_def ex_open_def ex_cblk_def first_block_def ram.vib_def)
  moreover have "ram.data_ok ex_dir (ex_open p) (\<lambda>_. 255) [2] [7, 8, 9]"
  proof -
    have "ram.vdb (ex_open p) (\<lambda>_. 255) ([2] ! (q div 512)) ! (q mod 512) = [7, 8, 9] ! q" if "q < 3" for q
    proof -
      have "q = 0 \<or> q = 1 \<or> q = 2" using that by linarith
      then show ?thesis by (auto simp: ram.vdb_def ex_open_def)
    qed
    then show ?thesis by (simp add: ram.data_ok_def ex_dir_def ex_open_def ex_cblk_def)
  qed
  moreover have "ram.cache_ok (ex_open p) (\<lambda>_. 255) [0] [2]"
    by (simp add: ram.cache_ok_def ex_open_def ex_cblk_def)
  ultimately have f: "ram.file_ok 1 ex_dir (ex_open p) (\<lambda>_. 255) [0] [2] [1] [3] [7, 8, 9]"
    using ex_file_blocks by (simp add: ram.file_ok_def)
  have u: "unat (word_of_nat p :: u32) = p" using p by (simp add: unat_of_nat)
  have a: "at_pos (ex_open p) [2]" using p u by (simp add: at_pos_def ex_open_def ex_cblk_def)
  have s: "sem_free (ex_file p) 4" "sem_free (ex_file p) 1"
    by (simp_all add: sem_free_def ex_file_fields ex_sems_def isbadsem_def)
  have "lfmutex (ex_open p) = 4" "lfpos (ex_open p) = word_of_nat p" "lfbyte (ex_open p) = p" "ram.dsync (ex_open p) (\<lambda>_. 255)"
    by (simp_all add: ex_open_def ex_cblk_def ram.dsync_def)
  with f a s p u ex_file_kinv [of p] have "ram.open_file 1 m (ex_file p) [7, 8, 9] p [1] [3]"
    unfolding ram.open_file_def by (simp add: ex_file_fields) blast
  then show ?thesis unfolding ram_file_def by blast
qed


text \<open>Appending a byte, and replacing one.\<close>

lemma lflputc_writes_witness:
  "\<exists>s' fi' fd'. lflputc ram_dev (devtab 18) 5 (ex_file 3) = Some (Ret OK, s') \<and> ram_file 0 s' [7, 8, 9, 5] 4 fi' fd'"
proof -
  have d: "dvminor (devtab 18) = 0" by (simp add: devtab_def devtab_list_def)
  have "length [7::u8, 8, 9] < 4294967295" "3 = length [7::u8, 8, 9] \<longrightarrow> [1::int] \<noteq> [] \<and> [3::int] \<noteq> []" by simp_all
  from lflputc_writes [where devptr = "devtab 18" and ch = 5, OF ex_file_ok [OF order_refl] this] show ?thesis unfolding d by auto
qed

lemma write_seek_read_witness:
  "\<exists>s1 s2 s3. lflputc ram_dev (devtab 18) 5 (ex_file 2) = Some (Ret OK, s1) \<and> lflseek (devtab 18) 2 s1 = Some (Ret OK, s2) \<and>
    lflgetc ram_dev (devtab 18) s2 = Some (Ret 5, s3)"
proof -
  have "ram_file (dvminor (devtab 18)) (ex_file 2) [7, 8, 9] (unat (2 :: u32)) [1] [3]"
    using ex_file_ok [of 2] by simp
  from write_seek_read [where ch = 5, OF this] show ?thesis by simp
qed

end
