(* ===== verification/Spec2Isabelle.thy ===== *)
theory Spec2Isabelle
  imports Queues Scheduler Semaphores Clock Memory Heap Boot Messages Strings Devices Processes Kernel
    Ipc_State Buffers Ports Tty Tty_Line Names Disk Lfs Lfs_Disk Lfs_File Lfs_Bytes
    Examples Runs Runs_Lib Runs_Proc Runs_Kernel Runs_Ipc Runs_Tty Runs_Files
begin

text \<open>
  A model of the Xinu kernel of \<^verbatim>\<open>src/xinu-spring2020\<close>, the version with message callbacks and
  per-process lists of allocated memory, and the theorems that make its parts correct.

  \<^bold>\<open>How the program is modelled.\<close> The kernel runs on one processor and every system call disables
  interrupts for its whole length, so a call is a function from the kernel state to a result and a
  new state. The state is one record, \<open>kstate\<close> (theory \<open>Xinu_State\<close>): the tables of
  \<^verbatim>\<open>include/process.h\<close>, \<^verbatim>\<open>queue.h\<close>, \<^verbatim>\<open>semaphore.h\<close>, the scalar globals, and a byte-addressed
  32-bit memory. The context switch \<^verbatim>\<open>ctxsw\<close> is the change of \<open>currpid\<close>: after it the state is
  that of the kernel when another process runs. A call that waits is therefore split into the part
  before the wait and a second definition (\<open>..._end\<close>) for what the process does once it runs
  again; the outcome of a call is \<open>Ret v\<close>, \<open>Blocked\<close> (it waits for its second part) or \<open>Halted\<close>
  (\<^verbatim>\<open>panic\<close>, \<^verbatim>\<open>xdone\<close>). A loop that may not end is a \<open>partial_function (option)\<close>, so that \<open>None\<close> is
  a call that does not return. Bytes, addresses and \<^verbatim>\<open>uint32\<close> are words of their width, with
  wrap-around; process ids, queue ids, keys, priorities and semaphore counts are \<open>int\<close>. Operations
  are polymorphic in the extension of the record, so components with tables of their own extend it.

  \<^bold>\<open>The theories\<close>, in the order in which the code builds on itself:
  \<^item> \<open>Xinu_Base\<close>: memory, words, \<open>roundmb\<close>; the lemmas on memory that all heap proofs share.
  \<^item> \<open>Xinu_State\<close>: the tables, their constants and validity macros.
  \<^item> \<open>Queues\<close> (\<^verbatim>\<open>queue.c\<close>, \<^verbatim>\<open>getitem.c\<close>, \<^verbatim>\<open>insert.c\<close>, \<^verbatim>\<open>insertd.c\<close>, \<^verbatim>\<open>newqueue.c\<close>, \<^verbatim>\<open>queue.h\<close>): the
    doubly linked lists in one table, refined to one list of process ids per queue (\<open>qrep\<close>); the
    locale \<open>fifo\<close> is the contract of a queue, interpreted on the table as \<open>pq\<close>.
  \<^item> \<open>Scheduler\<close> (\<^verbatim>\<open>resched.c\<close>, \<^verbatim>\<open>ready.c\<close>, \<^verbatim>\<open>resume.c\<close>, \<^verbatim>\<open>suspend.c\<close>, \<^verbatim>\<open>chprio.c\<close>, \<^verbatim>\<open>yield.c\<close>): rescheduling with
    deferral. \<open>kinv\<close> is the invariant of the kernel between calls: a process is on the queue its state
    says, the ready list is in order of its keys, semaphore counts match their queues, the current
    process is the only one in \<open>PR_CURR\<close>, and the null process can always run. The locale
    \<open>kernel_call\<close> is the contract of a call: under the invariant it returns and keeps it.
  \<^item> \<open>Semaphores\<close>, \<open>Clock\<close>, \<open>Messages\<close>: the calls of these parts, each with what it does to queues
    and counts on every path. The sleep queue is a delta list, refined to waking times (\<open>sleepers\<close>).
  \<^item> \<open>Memory\<close> and \<open>Heap\<close> (\<^verbatim>\<open>getmem.c\<close>, \<^verbatim>\<open>freemem.c\<close>, \<^verbatim>\<open>getstk.c\<close>, \<^verbatim>\<open>meminsert.c\<close>, \<^verbatim>\<open>memextract.c\<close>,
    \<^verbatim>\<open>meminit.c\<close>): the operations, and their refinement to lists of (address, length) blocks.
  \<^item> \<open>Boot\<close> (\<^verbatim>\<open>initialize.c\<close>): the tables after start-up satisfy the invariant.
  \<^item> \<open>Strings\<close> (\<^verbatim>\<open>lib\<close>), \<open>Devices\<close> (\<^verbatim>\<open>conf.c\<close> and the device switch), \<open>Processes\<close> (\<^verbatim>\<open>create.c\<close>,
    \<^verbatim>\<open>rcreate.c\<close>, \<^verbatim>\<open>kill.c\<close>).
  \<^item> \<open>Kernel\<close>: the system calls and the clock tick as steps of a state machine (\<open>reaches\<close>), the
    interpretation \<open>kern\<close> of \<open>kernel_call\<close> on it, and the properties of all reachable states.
  \<^item> \<open>Ipc_State\<close>, \<open>Buffers\<close>, \<open>Ports\<close>: the state extended by buffer pools, marks and ports, refined to
    lists of nodes.
  \<^item> \<open>Tty\<close> and \<open>Tty_Line\<close> (\<^verbatim>\<open>device/tty\<close>): the serial line driver, and the refinement of its input
    ring buffer to finished lines and the line being edited.
  \<^item> \<open>Names\<close> (\<^verbatim>\<open>device/nam\<close>): the name space, refined to a list of prefix rules.
  \<^item> \<open>Disk\<close> (\<^verbatim>\<open>device/ram\<close>) and \<open>Lfs\<close> (\<^verbatim>\<open>device/lfs\<close>): the RAM disk and the local file system over a disk
    that is an argument. The locale \<open>block_disk\<close> is the contract of a disk, interpreted on the RAM disk as
    \<open>ram\<close>. \<open>Lfs_Disk\<close> has the layout of index blocks and the free lists, \<open>Lfs_File\<close> the invariant of an open
    file (\<open>file_ok\<close>) and its refinement to a list of bytes, kept by \<^verbatim>\<open>lfsetup\<close>, and \<open>Lfs_Bytes\<close> reading, writing
    and seeking as operations on that list and a position.
  \<^item> \<open>Examples\<close> builds concrete kernels; the theories \<open>Runs\<close>, \<open>Runs_Lib\<close>, \<open>Runs_Proc\<close>,
    \<open>Runs_Kernel\<close>, \<open>Runs_Ipc\<close>, \<open>Runs_Tty\<close> and \<open>Runs_Files\<close> apply the theorems to them.

  \<^bold>\<open>Bounds and fuel.\<close> Searches of a table run over its length (100 processes and semaphores, 30
  ports); \<open>newpid_loop\<close>, \<open>newsem_loop\<close> and \<open>ptcreate_loop\<close> get that length as their argument.
  \<open>insert\<close>, \<open>insertd\<close>, the walks of the heap and the scans for a NUL byte have no fuel.

  \<^bold>\<open>Not modelled.\<close> The assembly files and the platform code (\<^verbatim>\<open>ctxsw.S\<close>, \<^verbatim>\<open>start.S\<close>, \<^verbatim>\<open>evec.c\<close>,
  \<^verbatim>\<open>pci.c\<close>, \<^verbatim>\<open>quark_*.c\<close>) act on registers and ports of the machine; the configuration program's parser
  (\<^verbatim>\<open>config/y.tab.c\<close>, \<^verbatim>\<open>lex.yy.c\<close>) is generated; the shell commands print. Interrupts are taken
  between calls only, as they are disabled inside them.
\<close>

end
